(* ===== verification/FDC_Prelude.thy ===== *)
theory FDC_Prelude
  imports Main "HOL-Library.Word" "HOL-Library.Multiset"
begin

text \<open>
  Shared ground of the development: the names of the machine types of the Go code, the collections
  that the component proofs draw on, the part of the Go runtime that every component uses (maps as
  key lists, \<^verbatim>\<open>math/big\<close> integers, byte slices), and the generic lemmas on words, lists and sums.

  Conventions.
  \<^item> \<^verbatim>\<open>uint8\<close>, \<^verbatim>\<open>uint16\<close>, \<^verbatim>\<open>uint32\<close> and \<^verbatim>\<open>uint64\<close> are words of that width, so arithmetic wraps
    as in Go; comparisons of words are unsigned.
  \<^item> \<^verbatim>\<open>*big.Int\<close> is \<open>int\<close>; \<^verbatim>\<open>x.Bit(i)\<close> is \<open>bit x i\<close> and \<^verbatim>\<open>x.SetBit(x, i, 1)\<close> is \<open>set_bit i x\<close>.
  \<^item> a \<^verbatim>\<open>map[int]bool\<close> used as a set is the list of its keys in the order in which a \<^verbatim>\<open>range\<close>
    loop visits them; Go leaves that order open, and the lemmas hold for every such list.
  \<^item> \<^verbatim>\<open>(T, error)\<close> is a sum, \<open>Inl\<close> holding the error.
\<close>

unbundle bit_operations_syntax

type_synonym u8 = "8 word"
type_synonym u16 = "16 word"
type_synonym u32 = "32 word"
type_synonym u64 = "64 word"
type_synonym bytes = "8 word list"

named_theorems nowrap "facts that read a machine sum or difference that does not wrap as a natural number"
named_theorems frame "fields an operation leaves unchanged"
named_theorems wf_keep "operations keep the invariant of their component"

section \<open>Machine words\<close>

lemma unat_plus_nowrap [nowrap]:
  "unat a + unat b < 2 ^ LENGTH('a) \<Longrightarrow> unat (a + b :: 'a::len word) = unat a + unat b"
  by (simp add: unat_add_lem)

lemma unat_minus_nowrap [nowrap]:
  "unat b \<le> unat a \<Longrightarrow> unat (a - b :: 'a::len word) = unat a - unat b"
  by (simp add: unat_sub word_le_nat_alt)

lemma unat_u16_less [simp]: "unat (w :: u16) < 65536"
  using unsigned_less [where 'a = nat, of w] by simp

lemma unat_half [simp]: "unat (w div 2 :: u16) = unat w div 2"
  by (simp add: unat_div)

lemma word_less_unat: "(a :: 'a::len word) < b \<longleftrightarrow> unat a < unat b"
  by (simp add: word_less_nat_alt)

lemma word_le_unat: "(a :: 'a::len word) \<le> b \<longleftrightarrow> unat a \<le> unat b"
  by (simp add: word_le_nat_alt)

section \<open>Loops over a key list that add machine weights\<close>

text \<open>
  The shape of every support count of the client: start from a weight and add \<open>f k\<close> for the keys
  \<open>k\<close> with \<open>P k\<close>, in \<^verbatim>\<open>uint16\<close> arithmetic.
\<close>

fun add_weights :: "('k \<Rightarrow> bool) \<Rightarrow> ('k \<Rightarrow> u16) \<Rightarrow> 'k list \<Rightarrow> u16 \<Rightarrow> u16" where
  "add_weights P f [] acc = acc"
| "add_weights P f (k # ks) acc = add_weights P f ks (if P k then acc + f k else acc)"

definition weight_of :: "('k \<Rightarrow> bool) \<Rightarrow> ('k \<Rightarrow> u16) \<Rightarrow> 'k list \<Rightarrow> nat" where
  "weight_of P f ks = sum_list (map (\<lambda>k. unat (f k)) (filter P ks))"

lemma weight_of_Nil [simp]: "weight_of P f [] = 0"
  by (simp add: weight_of_def)

lemma weight_of_Cons [simp]:
  "weight_of P f (k # ks) = (if P k then unat (f k) else 0) + weight_of P f ks"
  by (simp add: weight_of_def)

lemma weight_of_append [simp]:
  "weight_of P f (xs @ ys) = weight_of P f xs + weight_of P f ys"
  by (simp add: weight_of_def)

lemma weight_of_mono:
  "(\<And>k. k \<in> set ks \<Longrightarrow> P k \<Longrightarrow> Q k) \<Longrightarrow> weight_of P f ks \<le> weight_of Q f ks"
  by (induction ks) (auto simp: add_mono trans_le_add2)

lemma weight_of_cong:
  "(\<And>k. k \<in> set ks \<Longrightarrow> P k = Q k) \<Longrightarrow> weight_of P f ks = weight_of Q f ks"
  by (induction ks) auto

lemma sum_list_eq_sum_mset: "sum_list (map f xs) = \<Sum>\<^sub># (image_mset f (mset xs))"
  for f :: "'a \<Rightarrow> 'b::comm_monoid_add"
  by (induction xs) auto

lemma sum_list_mset: "mset xs = mset ys \<Longrightarrow> sum_list (map f xs) = sum_list (map f ys)"
  for f :: "'a \<Rightarrow> 'b::comm_monoid_add"
  by (simp only: sum_list_eq_sum_mset)

lemma weight_of_eq_sum_mset:
  "weight_of P f xs = \<Sum>\<^sub># (image_mset (\<lambda>k. unat (f k)) (filter_mset P (mset xs)))"
  by (simp only: weight_of_def sum_list_eq_sum_mset mset_filter)

lemma weight_of_mset: "mset xs = mset ys \<Longrightarrow> weight_of P f xs = weight_of P f ys"
  by (simp add: weight_of_eq_sum_mset)

lemma weight_of_filter: "weight_of P f (filter Q ks) = weight_of (\<lambda>k. Q k \<and> P k) f ks"
  by (induction ks) auto

lemma weight_of_split:
  "weight_of P f ks = weight_of (\<lambda>k. P k \<and> Q k) f ks + weight_of (\<lambda>k. P k \<and> \<not> Q k) f ks"
  by (induction ks) auto

lemma unat_add_weights [nowrap]:
  "unat acc + weight_of P f ks < 65536 \<Longrightarrow>
   unat (add_weights P f ks acc) = unat acc + weight_of P f ks"
proof (induction ks arbitrary: acc)
  case Nil
  then show ?case by simp
next
  case (Cons k ks)
  show ?case
  proof (cases "P k")
    case True
    then have "unat (acc + f k) = unat acc + unat (f k)"
      using Cons.prems by (intro unat_plus_nowrap) simp
    with True Cons.IH [of "acc + f k"] Cons.prems show ?thesis by simp
  next
    case False
    with Cons show ?thesis by simp
  qed
qed

lemma add_weights_acc: "add_weights P f ks (a + b) = a + add_weights P f ks b"
  by (induction ks arbitrary: b) (auto simp: add.assoc)

lemma add_weights_mset:
  "mset xs = mset ys \<Longrightarrow> add_weights P f xs acc = add_weights P f ys acc"
proof -
  have sum: "add_weights P f zs acc = acc + sum_list (map f (filter P zs))" for zs
    by (induction zs arbitrary: acc) (auto simp: add.assoc)
  assume "mset xs = mset ys"
  then have "sum_list (map f (filter P xs)) = sum_list (map f (filter P ys))"
    by (simp only: sum_list_eq_sum_mset mset_filter)
  then show ?thesis by (simp add: sum)
qed

lemma weight_of_map: "weight_of P f (map g xs) = weight_of (\<lambda>x. P (g x)) (\<lambda>x. f (g x)) xs"
  by (induction xs) auto

lemma weight_of_nth:
  "weight_of (\<lambda>i. P (xs ! i)) (\<lambda>i. f (xs ! i)) [0..<length xs] = weight_of P f xs"
  by (simp add: map_nth flip: weight_of_map [of P f "(!) xs"])

lemma weight_of_le_all: "weight_of P f ks \<le> weight_of (\<lambda>_. True) f ks"
  by (rule weight_of_mono) simp

lemma weight_of_eq_all:
  "weight_of P f ks = weight_of (\<lambda>_. True) f ks \<Longrightarrow> k \<in> set ks \<Longrightarrow> f k \<noteq> 0 \<Longrightarrow> P k"
proof (induction ks)
  case (Cons a ks)
  have "weight_of P f ks \<le> weight_of (\<lambda>_. True) f ks" by (rule weight_of_le_all)
  with Cons show ?case by (auto simp: unat_eq_zero split: if_splits)
qed simp

lemma weight_of_nonzero: "weight_of (\<lambda>k. f k \<noteq> 0 \<longrightarrow> P k) f ks = weight_of P f ks"
  by (induction ks) auto

lemma weight_of_distinct_set:
  "distinct xs \<Longrightarrow> distinct ys \<Longrightarrow> set xs = set ys \<Longrightarrow> weight_of P f xs = weight_of P f ys"
  by (rule weight_of_mset) (simp add: set_eq_iff_mset_eq_distinct)

lemma weight_of_concat: "weight_of P f (concat xss) = sum_list (map (weight_of P f) xss)"
  by (induction xss) auto

lemma weight_of_sum: "weight_of P f ks = sum_list (map (\<lambda>k. if P k then unat (f k) else 0) ks)"
  by (induction ks) auto

lemma weight_of_const: "weight_of (\<lambda>_. c) f ks = (if c then weight_of (\<lambda>_. True) f ks else 0)"
  by (induction ks) auto

section \<open>Go maps used as sets: key lists\<close>

definition key_insert :: "'k \<Rightarrow> 'k list \<Rightarrow> 'k list" where
  "key_insert k ks = (if k \<in> set ks then ks else ks @ [k])"

definition key_delete :: "'k \<Rightarrow> 'k list \<Rightarrow> 'k list" where
  "key_delete k ks = filter (\<lambda>x. x \<noteq> k) ks"

lemma set_key_insert [simp]: "set (key_insert k ks) = insert k (set ks)"
  by (auto simp: key_insert_def)

lemma distinct_key_insert [simp]: "distinct (key_insert k ks) \<longleftrightarrow> distinct ks"
  by (auto simp: key_insert_def)

lemma set_key_delete [simp]: "set (key_delete k ks) = set ks - {k}"
  by (auto simp: key_delete_def)

lemma distinct_key_delete [simp]: "distinct ks \<Longrightarrow> distinct (key_delete k ks)"
  by (simp add: key_delete_def)

section \<open>Lists\<close>

lemma mset_map_nth_subset:
  assumes "distinct is" "set is \<subseteq> {..<length xs}"
  shows "mset (map ((!) xs) is) \<subseteq># mset xs"
proof -
  have "mset is = mset_set (set is)" using assms(1) by (simp add: mset_set_set)
  also have "\<dots> \<subseteq># mset_set {..<length xs}" using assms(2) by (intro subset_imp_msubset_mset_set) auto
  also have "mset_set {..<length xs} = mset [0..<length xs]" by (simp add: atLeast0LessThan)
  finally have "image_mset ((!) xs) (mset is) \<subseteq># image_mset ((!) xs) (mset [0..<length xs])"
    by (rule image_mset_subseteq_mono)
  moreover have "image_mset ((!) xs) (mset [0..<length xs]) = mset xs"
    by (metis map_nth mset_map)
  ultimately show ?thesis by simp
qed

lemma sum_list_distinct_upt:
  fixes f :: "nat \<Rightarrow> 'b::comm_monoid_add"
  assumes "distinct is" "set is \<subseteq> {..<n}"
  shows "sum_list (map f is) = sum_list (map f (filter (\<lambda>i. i \<in> set is) [0..<n]))"
proof -
  have "set (filter (\<lambda>i. i \<in> set is) [0..<n]) = set is" using assms(2) by auto
  then have "mset is = mset (filter (\<lambda>i. i \<in> set is) [0..<n])"
    using assms(1) by (subst set_eq_iff_mset_eq_distinct [symmetric]) auto
  then show ?thesis by (rule sum_list_mset)
qed

lemma mset_subset_nths:
  "mset ys \<subseteq># mset xs \<Longrightarrow> \<exists>S. S \<subseteq> {..<length xs} \<and> mset (map ((!) xs) (filter (\<lambda>i. i \<in> S) [0..<length xs])) = mset ys"
proof (induction xs arbitrary: ys rule: rev_induct)
  case Nil
  then show ?case by simp
next
  case (snoc x xs)
  show ?case
  proof (cases "x \<in># mset ys")
    case True
    then obtain zs where ys: "mset ys = add_mset x (mset zs)"
      by (metis ex_mset insert_DiffM)
    with snoc.prems have "mset zs \<subseteq># mset xs" by simp
    then obtain S where S: "S \<subseteq> {..<length xs}"
      "mset (map ((!) xs) (filter (\<lambda>i. i \<in> S) [0..<length xs])) = mset zs"
      using snoc.IH by blast
    have "map ((!) (xs @ [x])) (filter (\<lambda>i. i \<in> insert (length xs) S) [0..<length xs]) =
        map ((!) xs) (filter (\<lambda>i. i \<in> S) [0..<length xs])"
      by (auto simp: nth_append intro!: map_cong filter_cong)
    with S ys show ?thesis
      by (intro exI [of _ "insert (length xs) S"]) auto
  next
    case False
    have zero: "count (mset ys) x = 0" using False by (simp only: not_in_iff)
    have "count (mset ys) a \<le> count (mset xs) a" for a
    proof (cases "a = x")
      case True
      with zero show ?thesis by (simp only: le0)
    next
      case False
      with mset_subset_eq_count [OF snoc.prems, of a] show ?thesis by simp
    qed
    then have "mset ys \<subseteq># mset xs" by (rule mset_subset_eqI)
    then obtain S where S: "S \<subseteq> {..<length xs}"
      "mset (map ((!) xs) (filter (\<lambda>i. i \<in> S) [0..<length xs])) = mset ys"
      using snoc.IH by blast
    have eq: "map ((!) (xs @ [x])) (filter (\<lambda>i. i \<in> S) [0..<length (xs @ [x])]) =
        map ((!) xs) (filter (\<lambda>i. i \<in> S) [0..<length xs])"
      using S(1) by (auto simp: nth_append intro!: map_cong)
    show ?thesis
    proof (intro exI conjI)
      show "S \<subseteq> {..<length (xs @ [x])}" using S(1) by auto
    qed (simp only: eq S(2))
  qed
qed

lemma sum_list_filter_le:
  "(\<And>k. k \<in> set ks \<Longrightarrow> 0 \<le> f k) \<Longrightarrow> sum_list (map f (filter P ks)) \<le> sum_list (map f ks)"
  for f :: "'a \<Rightarrow> int"
  by (induction ks) (auto simp: add_increasing)

lemma sum_list_filter_mono:
  "(\<And>k. k \<in> set ks \<Longrightarrow> 0 \<le> f k) \<Longrightarrow> (\<And>k. k \<in> set ks \<Longrightarrow> P k \<Longrightarrow> Q k) \<Longrightarrow>
   sum_list (map f (filter P ks)) \<le> sum_list (map f (filter Q ks))"
  for f :: "'a \<Rightarrow> int"
  by (induction ks) (auto simp: add_increasing)

lemma sum_list_nonneg_int: "(\<And>k. k \<in> set ks \<Longrightarrow> 0 \<le> f k) \<Longrightarrow> 0 \<le> sum_list (map f ks)"
  for f :: "'a \<Rightarrow> int"
  by (induction ks) auto

lemma sum_list_filter_split:
  "sum_list (map f xs) = sum_list (map f (filter P xs)) + sum_list (map f (filter (\<lambda>x. \<not> P x) xs))"
  for f :: "'a \<Rightarrow> 'b::comm_monoid_add"
  by (induction xs) (auto simp: ac_simps)

end
