(* ===== verification/Go_Std.thy ===== *)
theory Go_Std
  imports FDC_Prelude
begin

text \<open>
  The functions of Go's standard library that the client calls: \<^verbatim>\<open>math/big\<close> (\<^verbatim>\<open>Cmp\<close>, \<^verbatim>\<open>BitLen\<close>,
  \<^verbatim>\<open>Bytes\<close>, \<^verbatim>\<open>SetBytes\<close>, \<^verbatim>\<open>IsUint64\<close>), \<^verbatim>\<open>encoding/binary\<close> in big-endian order, \<^verbatim>\<open>encoding/hex\<close>,
  \<^verbatim>\<open>strings.TrimPrefix\<close>, \<^verbatim>\<open>bytes.Trim\<close> and \<^verbatim>\<open>strconv.ParseUint\<close>,
  with the round trips the components rest on.
\<close>

section \<open>\<^verbatim>\<open>math/big\<close>\<close>

definition big_Cmp :: "int \<Rightarrow> int \<Rightarrow> int" where
  "big_Cmp x y = (if x < y then -1 else if x = y then 0 else 1)"

fun nat_bitlen :: "nat \<Rightarrow> nat" where
  "nat_bitlen n = (if n = 0 then 0 else Suc (nat_bitlen (n div 2)))"

declare nat_bitlen.simps [simp del]

definition big_BitLen :: "int \<Rightarrow> nat" where
  "big_BitLen x = nat_bitlen (nat \<bar>x\<bar>)"

fun nat_bytes :: "nat \<Rightarrow> bytes" where
  "nat_bytes n = (if n = 0 then [] else nat_bytes (n div 256) @ [of_nat (n mod 256)])"

declare nat_bytes.simps [simp del]

definition big_Bytes :: "int \<Rightarrow> bytes" where
  "big_Bytes x = nat_bytes (nat \<bar>x\<bar>)"

definition nat_of_bytes :: "bytes \<Rightarrow> nat" where
  "nat_of_bytes bs = foldl (\<lambda>acc b. 256 * acc + unat b) 0 bs"

definition big_SetBytes :: "bytes \<Rightarrow> int" where
  "big_SetBytes bs = int (nat_of_bytes bs)"

definition big_IsUint64 :: "int \<Rightarrow> bool" where
  "big_IsUint64 x \<longleftrightarrow> 0 \<le> x \<and> x < 2 ^ 64"

lemma nat_bitlen_0 [simp]: "nat_bitlen 0 = 0"
  by (simp add: nat_bitlen.simps)

lemma nat_bitlen_pos: "0 < n \<Longrightarrow> nat_bitlen n = Suc (nat_bitlen (n div 2))"
  by (simp add: nat_bitlen.simps)

lemma less_two_power_nat_bitlen: "n < 2 ^ nat_bitlen n"
proof (induction n rule: nat_bitlen.induct)
  case (1 n)
  then show ?case by (cases "n = 0") (auto simp: nat_bitlen_pos)
qed

lemma nat_bitlen_le_iff: "nat_bitlen n \<le> k \<longleftrightarrow> n < 2 ^ k"
proof (induction n arbitrary: k rule: nat_bitlen.induct)
  case (1 n)
  show ?case
  proof (cases "n = 0")
    case True
    then show ?thesis by simp
  next
    case False
    show ?thesis
    proof (cases k)
      case 0
      with False show ?thesis by (simp add: nat_bitlen_pos)
    next
      case (Suc j)
      with False have "nat_bitlen n \<le> k \<longleftrightarrow> nat_bitlen (n div 2) \<le> j"
        by (simp add: nat_bitlen_pos)
      also have "\<dots> \<longleftrightarrow> n div 2 < 2 ^ j" by (rule 1 [OF False])
      also have "\<dots> \<longleftrightarrow> n < 2 ^ k" using Suc by (simp add: div_less_iff_less_mult mult.commute)
      finally show ?thesis .
    qed
  qed
qed

lemma nat_bitlen_ge_power: "0 < n \<Longrightarrow> 2 ^ (nat_bitlen n - 1) \<le> n"
  using nat_bitlen_le_iff [of n "nat_bitlen n - 1"] by (cases "nat_bitlen n") (auto simp: nat_bitlen_pos)

lemma nat_bitlen_unique: "2 ^ k \<le> n \<Longrightarrow> n < 2 ^ Suc k \<Longrightarrow> nat_bitlen n = Suc k"
  using nat_bitlen_le_iff [of n "Suc k"] nat_bitlen_le_iff [of n k] by auto

lemma big_BitLen_le_iff: "0 \<le> x \<Longrightarrow> big_BitLen x \<le> k \<longleftrightarrow> x < 2 ^ k"
proof -
  assume "0 \<le> x"
  moreover from this have "nat x < 2 ^ k \<longleftrightarrow> x < 2 ^ k"
    by (metis nat_less_iff of_nat_numeral of_nat_power)
  ultimately show ?thesis by (simp add: big_BitLen_def nat_bitlen_le_iff)
qed

lemma bit_less_BitLen: "0 \<le> x \<Longrightarrow> bit x i \<Longrightarrow> i < big_BitLen x"
proof (rule ccontr)
  assume "0 \<le> x" "bit x i" "\<not> i < big_BitLen x"
  then have "x < 2 ^ i" using big_BitLen_le_iff [of x i] by simp
  with \<open>0 \<le> x\<close> \<open>bit x i\<close> show False by (simp add: bit_iff_odd)
qed

lemma BitLen_le_bits:
  assumes "0 \<le> x" "\<And>i. bit x i \<Longrightarrow> i < n"
  shows "big_BitLen x \<le> n"
proof -
  have "take_bit n x = x" using assms(2) by (intro bit_eqI) (auto simp: bit_simps)
  then have "x < 2 ^ n" by (metis take_bit_int_less_exp)
  then show ?thesis using assms(1) by (simp add: big_BitLen_le_iff)
qed

lemma nat_of_bytes_Nil [simp]: "nat_of_bytes [] = 0"
  by (simp add: nat_of_bytes_def)

lemma nat_of_bytes_snoc [simp]: "nat_of_bytes (bs @ [b]) = 256 * nat_of_bytes bs + unat b"
  by (simp add: nat_of_bytes_def)

lemma nat_of_bytes_nat_bytes [simp]: "nat_of_bytes (nat_bytes n) = n"
proof (induction n rule: nat_bytes.induct)
  case (1 n)
  then show ?case
    by (cases "n = 0") (simp_all add: nat_bytes.simps [of n] nat_bytes.simps [of 0] unat_of_nat)
qed

lemma big_SetBytes_Bytes: "0 \<le> x \<Longrightarrow> big_SetBytes (big_Bytes x) = x"
  by (simp add: big_SetBytes_def big_Bytes_def)

lemma big_SetBytes_nonneg [simp]: "0 \<le> big_SetBytes bs"
  by (simp add: big_SetBytes_def)

lemma nat_of_bytes_less: "nat_of_bytes bs < 256 ^ length bs"
proof (induction bs rule: rev_induct)
  case Nil
  then show ?case by simp
next
  case (snoc b bs)
  have "unat b < 256" using unsigned_less [where 'a = nat, of b] by simp
  with snoc show ?case by simp
qed

section \<open>\<^verbatim>\<open>encoding/binary\<close>, big-endian\<close>

definition BigEndian_PutUint16 :: "u16 \<Rightarrow> bytes" where
  "BigEndian_PutUint16 w = [ucast (drop_bit 8 w), ucast w]"

definition BigEndian_Uint16 :: "u8 \<Rightarrow> u8 \<Rightarrow> u16" where
  "BigEndian_Uint16 b0 b1 = ucast b1 OR push_bit 8 (ucast b0)"

definition BigEndian_AppendUint32 :: "u32 \<Rightarrow> bytes" where
  "BigEndian_AppendUint32 w = [ucast (drop_bit 24 w), ucast (drop_bit 16 w), ucast (drop_bit 8 w), ucast w]"

lemma BigEndian_Uint16_Put: "BigEndian_Uint16 (ucast (drop_bit 8 w)) (ucast w) = w"
  by (rule bit_word_eqI) (auto simp: BigEndian_Uint16_def bit_simps)

lemma length_BigEndian_AppendUint32 [simp]: "length (BigEndian_AppendUint32 w) = 4"
  by (simp add: BigEndian_AppendUint32_def)

lemma length_BigEndian_PutUint16 [simp]: "length (BigEndian_PutUint16 w) = 2"
  by (simp add: BigEndian_PutUint16_def)

lemma nat_bytes_snoc:
  "nat_bytes (256 * n + unat b) = (if n = 0 \<and> b = 0 then [] else nat_bytes n @ [b])"
proof -
  have b: "unat b < 256" using unsigned_less [where 'a = nat, of b] by simp
  then have "(256 * n + unat b) div 256 = n" and "(256 * n + unat b) mod 256 = unat b" by auto
  then show ?thesis
    by (auto simp: nat_bytes.simps [of "256 * n + unat b"] unat_eq_zero nat_bytes.simps [of 0])
qed

text \<open>Writing back what was read drops the leading zero bytes and nothing else.\<close>

lemma nat_bytes_nat_of_bytes: "nat_bytes (nat_of_bytes bs) = dropWhile (\<lambda>b. b = 0) bs"
proof (induction bs rule: rev_induct)
  case Nil
  then show ?case by (simp add: nat_bytes.simps)
next
  case (snoc b bs)
  have zero: "nat_of_bytes bs = 0 \<longleftrightarrow> (\<forall>x\<in>set bs. x = 0)"
  proof -
    have "nat_of_bytes bs = 0 \<Longrightarrow> dropWhile (\<lambda>b. b = 0) bs = []"
      using snoc by (simp add: nat_bytes.simps)
    moreover have "\<forall>x\<in>set bs. x = 0 \<Longrightarrow> nat_of_bytes bs = 0"
      by (induction bs rule: rev_induct) auto
    ultimately show ?thesis by (auto simp: dropWhile_eq_Nil_conv)
  qed
  show ?case
    unfolding nat_of_bytes_snoc nat_bytes_snoc snoc
    using zero by (auto simp: dropWhile_append)
qed

section \<open>\<^verbatim>\<open>encoding/hex\<close> and strings\<close>

definition hex_char :: "nat \<Rightarrow> char" where
  "hex_char n = char_of (if n < 10 then 48 + n else 87 + n)"

definition fromHexChar :: "char \<Rightarrow> nat option" where
  "fromHexChar c = (let n = of_char c :: nat in
     if 48 \<le> n \<and> n \<le> 57 then Some (n - 48)
     else if 97 \<le> n \<and> n \<le> 102 then Some (n - 87)
     else if 65 \<le> n \<and> n \<le> 70 then Some (n - 55)
     else None)"

definition hex_EncodeToString :: "bytes \<Rightarrow> string" where
  "hex_EncodeToString bs = concat (map (\<lambda>b. [hex_char (unat b div 16), hex_char (unat b mod 16)]) bs)"

fun hex_DecodeString :: "string \<Rightarrow> bytes option" where
  "hex_DecodeString [] = Some []"
| "hex_DecodeString [c] = None"
| "hex_DecodeString (c # d # cs) =
     (case (fromHexChar c, fromHexChar d, hex_DecodeString cs) of
        (Some a, Some b, Some bs) \<Rightarrow> Some (of_nat (16 * a + b) # bs)
      | _ \<Rightarrow> None)"

definition TrimPrefix :: "string \<Rightarrow> string \<Rightarrow> string" where
  "TrimPrefix s p = (if take (length p) s = p then drop (length p) s else s)"

definition bytes_Trim :: "u8 \<Rightarrow> bytes \<Rightarrow> bytes" where
  "bytes_Trim c bs = rev (dropWhile (\<lambda>b. b = c) (rev (dropWhile (\<lambda>b. b = c) bs)))"

text \<open>\<^verbatim>\<open>strconv.ParseUint(s, 10, bits)\<close>: decimal digits only, at least one, and the value must fit.\<close>

definition ParseUint10 :: "nat \<Rightarrow> string \<Rightarrow> nat option" where
  "ParseUint10 bits s =
     (if s = [] \<or> \<not> list_all (\<lambda>c. 48 \<le> (of_char c :: nat) \<and> of_char c \<le> (57 :: nat)) s then None
      else let n = foldl (\<lambda>acc c. 10 * acc + (of_char c - 48)) 0 s in
        if n < 2 ^ bits then Some n else None)"

lemma fromHexChar_hex_char [simp]: "n < 16 \<Longrightarrow> fromHexChar (hex_char n) = Some n"
  by (simp add: fromHexChar_def hex_char_def Let_def)

lemma hex_DecodeString_Encode [simp]: "hex_DecodeString (hex_EncodeToString bs) = Some bs"
proof (induction bs)
  case Nil
  then show ?case by (simp add: hex_EncodeToString_def)
next
  case (Cons b bs)
  have "unat b < 256" using unsigned_less [where 'a = nat, of b] by simp
  then have "unat b div 16 < 16" by simp
  with Cons show ?case by (simp add: hex_EncodeToString_def)
qed

lemma length_hex_EncodeToString [simp]: "length (hex_EncodeToString bs) = 2 * length bs"
  by (induction bs) (auto simp: hex_EncodeToString_def)

lemma length_hex_DecodeString: "hex_DecodeString s = Some bs \<Longrightarrow> length s = 2 * length bs"
  by (induction s arbitrary: bs rule: hex_DecodeString.induct) (auto split: option.splits)

lemma ParseUint10_less: "ParseUint10 bits s = Some n \<Longrightarrow> n < 2 ^ bits"
  by (auto simp: ParseUint10_def Let_def split: if_splits)

end
