(* ===== verification/Utils.thy ===== *)
theory Utils
  imports Go_Std
begin

text \<open>
  \<^verbatim>\<open>client/utils/utils.go\<close>. A Go map handed to these functions is the association list of its entries in
  the order a \<^verbatim>\<open>range\<close> loop visits them, with distinct keys.
\<close>

fun Prepend :: "'a list \<Rightarrow> 'a \<Rightarrow> 'a list" where
  "Prepend [] element = [element]"
| "Prepend (s # rest) element = element # (rest @ [s])"

definition Keys :: "('k \<times> 'v) list \<Rightarrow> 'k list" where
  "Keys m = foldl (\<lambda>keys (k, v). keys @ [k]) [] m"

definition Values :: "('k \<times> 'v) list \<Rightarrow> 'v list" where
  "Values m = foldl (\<lambda>values (k, v). values @ [v]) [] m"

definition Invert :: "('k \<times> 'v) list \<Rightarrow> ('v \<rightharpoonup> 'k)" where
  "Invert m = foldl (\<lambda>invertedMap (k, v). invertedMap(v \<mapsto> k)) Map.empty m"

definition Bytes32ToString :: "bytes \<Rightarrow> bytes" where
  "Bytes32ToString b = bytes_Trim 0 b"

section \<open>Lemmas\<close>

lemma Keys_fst: "Keys m = map fst m"
proof -
  have "foldl (\<lambda>keys (k, v). keys @ [k]) acc m = acc @ map fst m" for acc
    by (induction m arbitrary: acc) auto
  then show ?thesis by (simp add: Keys_def)
qed

lemma Values_snd: "Values m = map snd m"
proof -
  have "foldl (\<lambda>values (k, v). values @ [v]) acc m = acc @ map snd m" for acc
    by (induction m arbitrary: acc) auto
  then show ?thesis by (simp add: Values_def)
qed

lemma mset_Prepend [simp]: "mset (Prepend xs x) = add_mset x (mset xs)"
  by (cases xs) auto

lemma set_Prepend [simp]: "set (Prepend xs x) = insert x (set xs)"
  by (cases xs) auto

lemma hd_Prepend [simp]: "hd (Prepend xs x) = x" "Prepend xs x \<noteq> []"
  by (cases xs; simp)+

lemma Invert_snoc: "Invert (m @ [(k, v)]) = (Invert m)(v \<mapsto> k)"
  by (simp add: Invert_def)

lemma dom_Invert: "dom (Invert m) = snd ` set m"
proof (induction m rule: rev_induct)
  case (snoc p m)
  obtain k v where "p = (k, v)" by fastforce
  with snoc show ?case by (simp only: Invert_snoc dom_fun_upd) simp
qed (simp add: Invert_def)

lemma Invert_Some: "Invert m v = Some k \<Longrightarrow> (k, v) \<in> set m"
proof (induction m rule: rev_induct)
  case (snoc p m)
  then show ?case by (cases p) (auto simp: Invert_snoc split: if_splits)
qed (simp add: Invert_def)

lemma Invert_inj:
  assumes "distinct (map snd m)" "(k, v) \<in> set m"
  shows "Invert m v = Some k"
proof -
  from assms(2) have "v \<in> dom (Invert m)" by (auto simp: dom_Invert intro: rev_image_eqI)
  then obtain k' where "Invert m v = Some k'" by blast
  moreover from Invert_Some [OF this] assms have "(k', v) = (k, v)"
    by (intro inj_onD [of snd "set m"]) (auto simp: distinct_map)
  ultimately show ?thesis by simp
qed

end
