(* ===== verification/Verification.thy ===== *)
theory Verification
  imports Utils
begin

text \<open>
  \<^verbatim>\<open>client/attestation/verification.go\<close>: the fields of a request and of a response, read and written at
  fixed 32-byte slots of their ABI encoding. \<^verbatim>\<open>go-ethereum\<close>'s ABI codec and \<^verbatim>\<open>Keccak256\<close> are parameters.

  A response is encoded with a leading offset word when its type is dynamic; every slot then moves by 32
  bytes. Shown here: \<^verbatim>\<open>AddRound\<close> writes the round into its slot and changes nothing else, so the type,
  the lowest used timestamp and every other byte are kept; writing twice is writing the last one; and
  \<^verbatim>\<open>validLUT\<close> compares as integers, without wrap-around.
\<close>

datatype VerError =
  RequestTooShort | ResponseTooShort | BytesTooShort | LutTooBig | AbiUnpackError | AbiPackError
| SlotLengthError | LengthChanged | SlicePanic | IndexPanic

text \<open>
  The last two are no error values of the code: a slice past the end of the response (which
  \<^verbatim>\<open>hex.DecodeString\<close> makes with its exact capacity) and an index into an empty list, both run-time panics.
\<close>

definition is_panic :: "VerError \<Rightarrow> bool" where
  "is_panic err \<longleftrightarrow> err = SlicePanic \<or> err = IndexPanic"

section \<open>Requests\<close>

definition Request_AttestationType :: "bytes \<Rightarrow> VerError + bytes" where
  "Request_AttestationType r = (if length r < 96 then Inl RequestTooShort else Inr (take 32 r))"

definition Request_Source :: "bytes \<Rightarrow> VerError + bytes" where
  "Request_Source r = (if length r < 96 then Inl RequestTooShort else Inr (take 32 (drop 32 r)))"

definition string_bytes :: "string \<Rightarrow> bytes" where
  "string_bytes s = map (\<lambda>c. of_nat (of_char c)) s"

definition Request_TypeAndSourceString :: "bytes \<Rightarrow> bytes" where
  "Request_TypeAndSourceString r =
     (let attTypeString = (case Request_AttestationType r of Inl _ \<Rightarrow> string_bytes ''unknown_type''
            | Inr attType \<Rightarrow> Bytes32ToString attType);
          sourceString = (case Request_Source r of Inl _ \<Rightarrow> string_bytes ''unknown_source''
            | Inr source \<Rightarrow> Bytes32ToString source)
      in attTypeString @ string_bytes ''/'' @ sourceString)"

definition Request_MIC :: "bytes \<Rightarrow> VerError + bytes" where
  "Request_MIC r = (if length r < 96 then Inl RequestTooShort else Inr (take 32 (drop 64 r)))"

section \<open>Responses\<close>

text \<open>What the code uses of \<^verbatim>\<open>accounts/abi\<close>: unpacking, packing, and the string type.\<close>

record ('arg, 'val) abi =
  abi_Unpack :: "'arg list \<Rightarrow> bytes \<Rightarrow> 'val list option"
  abi_Pack :: "'arg list \<Rightarrow> 'val list \<Rightarrow> bytes option"
  abi_stringArgument :: 'arg
  abi_stringValue :: "string \<Rightarrow> 'val"

definition Response_ComputeMIC ::
  "('arg, 'val) abi \<Rightarrow> (bytes \<Rightarrow> bytes) \<Rightarrow> bytes \<Rightarrow> 'arg list \<Rightarrow> VerError + bytes" where
  "Response_ComputeMIC A Keccak256Hash r args =
     (case abi_Unpack A args r of
        None \<Rightarrow> Inl AbiUnpackError
      | Some [] \<Rightarrow> Inl IndexPanic
      | Some (decoded0 # _) \<Rightarrow>
          (let micArgs = args @ [abi_stringArgument A] in
           case abi_Pack A micArgs [decoded0, abi_stringValue A ''Flare''] of
             None \<Rightarrow> Inl AbiPackError
           | Some withSalt \<Rightarrow> Inr (Keccak256Hash withSalt)))"

definition static_mark :: bytes where
  "static_mark = replicate 31 0 @ [32]"

definition IsStaticType :: "bytes \<Rightarrow> VerError + bool" where
  "IsStaticType bytes =
     (if length bytes < 96 then Inl BytesTooShort else Inr (static_mark \<noteq> take 32 bytes))"

text \<open>
  The slice expression of \<^verbatim>\<open>LUT\<close> panics beyond the capacity of the slice; the responses are the exact
  allocations of \<^verbatim>\<open>hex.DecodeString\<close>, whose capacity is their length.
\<close>

definition Response_LUT :: "bytes \<Rightarrow> VerError + u64" where
  "Response_LUT r =
     (case IsStaticType r of
        Inl err \<Rightarrow> Inl err
      | Inr static \<Rightarrow>
          (let lutStartByte = (if static then 32 * 3 else 32 * 3 + 32);
               lutIDEndByte = (if static then 32 * 4 else 32 * 4 + 32)
           in if length r < lutIDEndByte then Inl SlicePanic
              else let safe = big_SetBytes (take (lutIDEndByte - lutStartByte) (drop lutStartByte r))
                   in if big_IsUint64 safe then Inr (of_int safe) else Inl LutTooBig))"

definition validLUT :: "u64 \<Rightarrow> u64 \<Rightarrow> u64 \<Rightarrow> bool" where
  "validLUT lut lutLimit roundStart =
     (let lutBig = uint lut; lutLimitBig = uint lutLimit; roundStartBig = uint roundStart;
          lhs = roundStartBig - lutBig
      in big_Cmp lhs lutLimitBig = -1)"

definition slices_Replace :: "'a list \<Rightarrow> nat \<Rightarrow> nat \<Rightarrow> 'a list \<Rightarrow> 'a list" where
  "slices_Replace s i j v = take i s @ v @ drop j s"

text \<open>\<^verbatim>\<open>AddRound\<close> replaces in place; the result is the response as it is left behind.\<close>

definition Response_AddRound :: "bytes \<Rightarrow> u32 \<Rightarrow> VerError + bytes" where
  "Response_AddRound r roundID =
     (let resLength = length r in
      case IsStaticType r of
        Inl err \<Rightarrow> Inl err
      | Inr static \<Rightarrow>
          (let roundIDStartByte = (if static then 32 * 2 else 32 * 2 + 32);
               roundIDEndByte = (if static then 32 * 3 else 32 * 3 + 32);
               commonFieldsLength = (if static then 32 * 4 else 32 * 4 + 32)
           in if length r < commonFieldsLength then Inl ResponseTooShort
              else let roundIDEncoded = BigEndian_AppendUint32 roundID;
                       roundIDSlot = replicate (32 - length roundIDEncoded) 0 @ roundIDEncoded
                   in if length roundIDSlot \<noteq> roundIDEndByte - roundIDStartByte then Inl SlotLengthError
                      else let r = slices_Replace r roundIDStartByte roundIDEndByte roundIDSlot
                           in if length r \<noteq> resLength then Inl LengthChanged else Inr r))"

definition Response_Hash :: "(bytes \<Rightarrow> bytes) \<Rightarrow> bytes \<Rightarrow> u32 \<Rightarrow> VerError + bytes \<times> bytes" where
  "Response_Hash Keccak256Hash r roundID =
     (if length r < 128 then Inl ResponseTooShort
      else case Response_AddRound r roundID of
             Inl err \<Rightarrow> Inl err
           | Inr r \<Rightarrow> Inr (r, Keccak256Hash r))"


section \<open>Slots\<close>

definition is_dynamic :: "bytes \<Rightarrow> bool" where
  "is_dynamic r \<longleftrightarrow> static_mark = take 32 r"

text \<open>The number of bytes before slot \<open>k\<close> of the encoded struct.\<close>

definition slot_start :: "bytes \<Rightarrow> nat \<Rightarrow> nat" where
  "slot_start r k = 32 * k + (if is_dynamic r then 32 else 0)"

definition slot :: "bytes \<Rightarrow> nat \<Rightarrow> bytes" where
  "slot r k = take 32 (drop (slot_start r k) r)"

definition round_slot :: "u32 \<Rightarrow> bytes" where
  "round_slot roundID = replicate 28 0 @ BigEndian_AppendUint32 roundID"

lemma length_round_slot [simp]: "length (round_slot n) = 32"
  by (simp add: round_slot_def)

lemma AddRound_iff:
  "Response_AddRound r n = Inr r' \<longleftrightarrow>
     slot_start r 4 \<le> length r \<and> r' = take (slot_start r 2) r @ round_slot n @ drop (slot_start r 3) r"
proof (cases "length r < 96")
  case True
  then show ?thesis by (auto simp: Response_AddRound_def IsStaticType_def slot_start_def Let_def)
next
  case False
  then show ?thesis
    by (auto simp: Response_AddRound_def IsStaticType_def slot_start_def is_dynamic_def Let_def slices_Replace_def
        round_slot_def split: if_splits)
qed

lemma AddRound_errors:
  "Response_AddRound r n = Inl e \<longleftrightarrow>
     (e = BytesTooShort \<and> length r < 96) \<or> (e = ResponseTooShort \<and> 96 \<le> length r \<and> length r < slot_start r 4)"
  by (auto simp: Response_AddRound_def IsStaticType_def slot_start_def is_dynamic_def Let_def slices_Replace_def
      split: if_splits)

lemma LUT_slots:
  "Response_LUT r =
     (if length r < 96 then Inl BytesTooShort
      else if length r < slot_start r 4 then Inl SlicePanic
      else if big_IsUint64 (big_SetBytes (slot r 3)) then Inr (of_int (big_SetBytes (slot r 3)))
      else Inl LutTooBig)"
  by (cases "is_dynamic r")
    (simp_all add: Response_LUT_def IsStaticType_def slot_start_def slot_def is_dynamic_def Let_def)

lemma LUT_iff:
  "Response_LUT r = Inr lut \<longleftrightarrow>
     slot_start r 4 \<le> length r \<and> big_SetBytes (slot r 3) = uint lut"
proof (cases "slot_start r 4 \<le> length r")
  case False
  then show ?thesis by (auto simp: Response_LUT_def IsStaticType_def slot_start_def is_dynamic_def Let_def split: if_splits)
next
  case True
  have "big_IsUint64 x \<and> (of_int x :: u64) = lut \<longleftrightarrow> x = uint lut" if "0 \<le> x" for x
    using that uint_lt2p [of lut] by (auto simp: big_IsUint64_def uint_word_of_int_eq take_bit_int_eq_self)
  from this [of "big_SetBytes (slot r 3)"] True show ?thesis
    by (auto simp: Response_LUT_def IsStaticType_def slot_start_def slot_def is_dynamic_def Let_def split: if_splits)
qed

section \<open>AddRound keeps everything but its slot\<close>

lemma AddRound_keeps:
  assumes "Response_AddRound r n = Inr r'"
  shows "length r' = length r" "is_dynamic r' \<longleftrightarrow> is_dynamic r"
    "i < slot_start r 2 \<or> slot_start r 3 \<le> i \<Longrightarrow> i < length r \<Longrightarrow> r' ! i = r ! i"
    "slot r' 2 = round_slot n" "slot r' 3 = slot r 3"
proof -
  let ?a = "slot_start r 2" and ?b = "slot_start r 3"
  have len: "slot_start r 4 \<le> length r" and r': "r' = take ?a r @ round_slot n @ drop ?b r"
    using assms by (simp_all add: AddRound_iff)
  have ab: "?b = ?a + 32" "slot_start r 4 = ?a + 64" "64 \<le> ?a" by (simp_all add: slot_start_def)
  show l: "length r' = length r" using len ab by (simp add: r')
  have "take 32 r' = take 32 r" using len ab by (simp add: r' min_def)
  then show d: "is_dynamic r' \<longleftrightarrow> is_dynamic r" by (simp add: is_dynamic_def)
  show "r' ! i = r ! i" if "i < ?a \<or> ?b \<le> i" "i < length r"
    using that len ab by (auto simp: r' nth_append)
  have same: "slot_start r' k = slot_start r k" for k by (simp add: slot_start_def d)
  show "slot r' 2 = round_slot n" unfolding slot_def same using len ab by (simp add: r')
  show "slot r' 3 = slot r 3" unfolding slot_def same using len ab by (simp add: r')
qed

lemma AddRound_again:
  assumes "Response_AddRound r m = Inr r'"
  shows "Response_AddRound r' n = Response_AddRound r n"
proof -
  note k = AddRound_keeps [OF assms]
  have same: "slot_start r' k = slot_start r k" for k by (simp add: slot_start_def k(2))
  have len: "slot_start r 4 \<le> length r" and r': "r' = take (slot_start r 2) r @ round_slot m @ drop (slot_start r 3) r"
    using assms by (simp_all add: AddRound_iff)
  have ab: "slot_start r 3 = slot_start r 2 + 32" "slot_start r 4 = slot_start r 2 + 64" by (simp_all add: slot_start_def)
  have eq: "take (slot_start r 2) r' @ round_slot n @ drop (slot_start r 3) r' =
      take (slot_start r 2) r @ round_slot n @ drop (slot_start r 3) r"
    using len ab by (simp add: r')
  have "Response_AddRound r' n = Inr (take (slot_start r 2) r' @ round_slot n @ drop (slot_start r 3) r')"
    unfolding AddRound_iff same k(1) using len by blast
  moreover have "Response_AddRound r n = Inr (take (slot_start r 2) r @ round_slot n @ drop (slot_start r 3) r)"
    unfolding AddRound_iff using len by blast
  ultimately show ?thesis by (simp only: eq)
qed

lemma AddRound_LUT: "Response_AddRound r n = Inr r' \<Longrightarrow> Response_LUT r' = Response_LUT r"
proof -
  assume a: "Response_AddRound r n = Inr r'"
  note k = AddRound_keeps [OF a]
  have same: "slot_start r' k = slot_start r k" for k by (simp add: slot_start_def k(2))
  show ?thesis unfolding LUT_slots by (simp only: k(1,5) same)
qed

lemma validLUT_iff: "validLUT lut limit start \<longleftrightarrow> uint start < uint lut + uint limit"
  by (auto simp: validLUT_def Let_def big_Cmp_def)

section \<open>Properties\<close>

text \<open>
  Writing the round into a response that is long enough changes the round slot only: the slot holds the
  round, the lowest used timestamp reads the same, every byte outside the slot and the length are kept, and
  writing another round afterwards gives what writing it at first would have given.
\<close>

lemma response_round_slot:
  assumes "Response_AddRound r m = Inr r'"
  shows "slot r' 2 = round_slot m \<and> Response_LUT r' = Response_LUT r \<and> length r' = length r \<and>
    (\<forall>i. (i < slot_start r 2 \<or> slot_start r 3 \<le> i) \<and> i < length r \<longrightarrow> r' ! i = r ! i) \<and>
    Response_AddRound r' n = Response_AddRound r n"
  using AddRound_keeps [OF assms] AddRound_again [OF assms] AddRound_LUT [OF assms] by blast

abbreviation (input) sample_response :: bytes where
  "sample_response \<equiv> replicate 64 7 @ replicate 32 0 @ replicate 31 0 @ [9] @ [1, 2, 3]"

text \<open>
  The errors of writing the round: less than three slots are \<open>BytesTooShort\<close>, a response that ends
  before its fourth slot (one later when it is encoded as a dynamic struct) is \<open>ResponseTooShort\<close>, and
  every other response is accepted with any round; the two checks the code marks unreachable are.
\<close>

lemma response_round_errors:
  "Response_AddRound r n =
     (if length r < 96 then Inl BytesTooShort
      else if length r < slot_start r 4 then Inl ResponseTooShort
      else Inr (take (slot_start r 2) r @ round_slot n @ drop (slot_start r 3) r))"
proof (cases "Response_AddRound r n")
  case (Inl e)
  then show ?thesis by (auto simp: AddRound_errors)
next
  case (Inr r')
  then have "slot_start r 4 \<le> length r" by (simp add: AddRound_iff)
  moreover from this have "96 \<le> length r" by (simp add: slot_start_def)
  ultimately show ?thesis using Inr by (simp add: AddRound_iff not_less)
qed

text \<open>
  The check of the lowest used timestamp is the comparison of integers, with no wrap-around at either end
  of the 64-bit range: a response passes it exactly when its fourth slot, read as a number, plus the limit
  is beyond the start of the round.
\<close>

lemma lut_limit_exact:
  assumes "Response_LUT r = Inr lut"
  shows "validLUT lut lutLimit roundStart \<longleftrightarrow> uint roundStart < big_SetBytes (slot r 3) + uint lutLimit"
  using assms by (simp add: validLUT_iff LUT_iff)


end
