(* ===== verification/Config.thy ===== *)
theory Config
  imports Utils
begin

text \<open>
  \<^verbatim>\<open>client/config\<close>: the attestation types and sources a provider supports. The parsing of the TOML
  structures into the maps that requests are looked up in (\<^verbatim>\<open>parse.go\<close>) and the reading of an ABI file
  (\<^verbatim>\<open>ReadABI\<close>, \<^verbatim>\<open>WhiteSpaceStrip\<close> of \<^verbatim>\<open>read.go\<close>); file access and JSON decoding are parameters. Names are byte
  strings, a file's text a list of code points.

  Shown here: names are padded to 32 bytes and read back unchanged; parsing fails exactly when an entry
  fails, and otherwise every entry is found under its padded name.
\<close>

record Source =
  src_URL :: string
  src_APIKey :: string
  src_LUTLimit :: u64
  src_QueueName :: string

record sourceBig =
  sb_URL :: string
  sb_APIKey :: string
  sb_LUTLimit :: "int option"
  sb_QueueName :: string

record 'arg AttestationType =
  aty_ResponseArguments :: "'arg list"
  aty_ResponseABIString :: "nat list"
  aty_SourcesConfig :: "bytes \<rightharpoonup> Source"

record AttestationTypeUnparsed =
  atu_ABIPath :: string
  atu_Sources :: "(bytes \<times> sourceBig) list"

datatype ConfigError = StringTooLong bytes | NilLutLimit | LutLimitTooBig | ReadFileFailed string | BadABI string

definition StringToByte32 :: "bytes \<Rightarrow> ConfigError + bytes" where
  "StringToByte32 str =
     (if 32 < length str then Inl (StringTooLong str) else Inr (str @ replicate (32 - length str) 0))"

text \<open>The limit is a pointer in the code: a source without one makes \<^verbatim>\<open>parseSource\<close> panic (\<open>NilLutLimit\<close>).\<close>

definition parseSource :: "sourceBig \<Rightarrow> ConfigError + Source" where
  "parseSource s =
     (case sb_LUTLimit s of
        None \<Rightarrow> Inl NilLutLimit
      | Some limit \<Rightarrow>
          if \<not> big_IsUint64 limit then Inl LutLimitTooBig
          else Inr \<lparr>src_URL = sb_URL s, src_APIKey = sb_APIKey s, src_LUTLimit = of_int limit,
                    src_QueueName = sb_QueueName s\<rparr>)"

text \<open>
  The two loops have the same body: convert the name, parse the entry, store it, and leave at the
  first error.
\<close>

fun parseSources_loop :: "(bytes \<times> sourceBig) list \<Rightarrow> (bytes \<rightharpoonup> Source) \<Rightarrow> ConfigError + (bytes \<rightharpoonup> Source)" where
  "parseSources_loop [] sourcesConfig = Inr sourcesConfig"
| "parseSources_loop ((sourceName, cfg) # rest) sourcesConfig =
     (case StringToByte32 sourceName of
        Inl err \<Rightarrow> Inl err
      | Inr source \<Rightarrow>
          (case parseSource cfg of
             Inl err \<Rightarrow> Inl err
           | Inr sourceConfig \<Rightarrow> parseSources_loop rest (sourcesConfig(source \<mapsto> sourceConfig))))"

definition parseSources :: "(bytes \<times> sourceBig) list \<Rightarrow> ConfigError + (bytes \<rightharpoonup> Source)" where
  "parseSources sourcesConfigUnparsed = parseSources_loop sourcesConfigUnparsed Map.empty"

text \<open>\<^verbatim>\<open>unicode.IsSpace\<close>.\<close>

definition IsSpace :: "nat \<Rightarrow> bool" where
  "IsSpace r \<longleftrightarrow> r \<in> {9, 10, 11, 12, 13, 32, 133, 160, 5760, 8232, 8233, 8239, 8287, 12288} \<or> (8192 \<le> r \<and> r \<le> 8202)"

definition WhiteSpaceStrip :: "nat list \<Rightarrow> nat list" where
  "WhiteSpaceStrip str = foldl (\<lambda>b ch. if \<not> IsSpace ch then b @ [ch] else b) [] str"

definition ArgumentsFromABI :: "(nat list \<Rightarrow> 'arg option) \<Rightarrow> nat list \<Rightarrow> 'arg list option" where
  "ArgumentsFromABI UnmarshalJSON abiBytes = map_option (\<lambda>arg. [arg]) (UnmarshalJSON abiBytes)"

definition ReadABI ::
  "(string \<Rightarrow> nat list option) \<Rightarrow> (nat list \<Rightarrow> 'arg option) \<Rightarrow> string \<Rightarrow> ConfigError + 'arg list \<times> nat list" where
  "ReadABI ReadFile UnmarshalJSON path =
     (case ReadFile path of
        None \<Rightarrow> Inl (ReadFileFailed path)
      | Some file \<Rightarrow>
          (case ArgumentsFromABI UnmarshalJSON file of
             None \<Rightarrow> Inl (BadABI path)
           | Some args \<Rightarrow> Inr (args, WhiteSpaceStrip file)))"

definition ParseAttestationType ::
  "(string \<Rightarrow> nat list option) \<Rightarrow> (nat list \<Rightarrow> 'arg option) \<Rightarrow> AttestationTypeUnparsed \<Rightarrow>
   ConfigError + 'arg AttestationType" where
  "ParseAttestationType ReadFile UnmarshalJSON cfg =
     (case ReadABI ReadFile UnmarshalJSON (atu_ABIPath cfg) of
        Inl err \<Rightarrow> Inl err
      | Inr (responseArguments, responseAbiString) \<Rightarrow>
          (case parseSources (atu_Sources cfg) of
             Inl err \<Rightarrow> Inl err
           | Inr sourcesCfg \<Rightarrow>
               Inr \<lparr>aty_ResponseArguments = responseArguments, aty_ResponseABIString = responseAbiString,
                    aty_SourcesConfig = sourcesCfg\<rparr>))"

fun parseAttestationTypes_loop ::
  "(string \<Rightarrow> nat list option) \<Rightarrow> (nat list \<Rightarrow> 'arg option) \<Rightarrow> (bytes \<times> AttestationTypeUnparsed) list \<Rightarrow>
   (bytes \<rightharpoonup> 'arg AttestationType) \<Rightarrow> ConfigError + (bytes \<rightharpoonup> 'arg AttestationType)" where
  "parseAttestationTypes_loop ReadFile UnmarshalJSON [] attTypesConfig = Inr attTypesConfig"
| "parseAttestationTypes_loop ReadFile UnmarshalJSON ((attName, cfg) # rest) attTypesConfig =
     (case StringToByte32 attName of
        Inl err \<Rightarrow> Inl err
      | Inr attType \<Rightarrow>
          (case ParseAttestationType ReadFile UnmarshalJSON cfg of
             Inl err \<Rightarrow> Inl err
           | Inr attTypeConfig \<Rightarrow>
               parseAttestationTypes_loop ReadFile UnmarshalJSON rest (attTypesConfig(attType \<mapsto> attTypeConfig))))"

definition ParseAttestationTypes ::
  "(string \<Rightarrow> nat list option) \<Rightarrow> (nat list \<Rightarrow> 'arg option) \<Rightarrow> (bytes \<times> AttestationTypeUnparsed) list \<Rightarrow>
   ConfigError + (bytes \<rightharpoonup> 'arg AttestationType)" where
  "ParseAttestationTypes ReadFile UnmarshalJSON cfgs =
     parseAttestationTypes_loop ReadFile UnmarshalJSON cfgs Map.empty"

section \<open>Names\<close>

abbreviation padded :: "bytes \<Rightarrow> bytes" where
  "padded s \<equiv> s @ replicate (32 - length s) 0"

definition plain_name :: "bytes \<Rightarrow> bool" where
  "plain_name s \<longleftrightarrow> s \<noteq> [] \<and> hd s \<noteq> 0 \<and> last s \<noteq> 0"

lemma StringToByte32_length: "StringToByte32 s = Inr b \<Longrightarrow> length b = 32"
  by (auto simp: StringToByte32_def split: if_splits)

lemma dropWhile_hd_keep: "xs = [] \<or> \<not> P (hd xs) \<Longrightarrow> dropWhile P xs = xs"
  by (cases xs) auto

lemma Bytes32ToString_padded:
  assumes "plain_name s"
  shows "Bytes32ToString (s @ replicate n 0) = s"
proof -
  have lead: "dropWhile (\<lambda>b. b = 0) (s @ replicate n 0) = s @ replicate n 0"
    using assms by (intro dropWhile_hd_keep) (auto simp: plain_name_def)
  have "dropWhile (\<lambda>b. b = 0) (rev (s @ replicate n 0)) = dropWhile (\<lambda>b. b = 0) (rev s)"
    by (simp add: dropWhile_append)
  also have "\<dots> = rev s" using assms by (intro dropWhile_hd_keep) (auto simp: plain_name_def hd_rev)
  finally show ?thesis by (simp add: Bytes32ToString_def bytes_Trim_def lead)
qed

lemma padded_inj: "plain_name s \<Longrightarrow> plain_name t \<Longrightarrow> padded s = padded t \<Longrightarrow> s = t"
  using Bytes32ToString_padded by metis

section \<open>Parsing maps\<close>

text \<open>
  Both loops are instances of one: entries with names, an entry parser, and the map of the results.
\<close>

locale entry_parser =
  fixes entry :: "'c \<Rightarrow> ConfigError + 'd"
    and loop :: "(bytes \<times> 'c) list \<Rightarrow> (bytes \<rightharpoonup> 'd) \<Rightarrow> ConfigError + (bytes \<rightharpoonup> 'd)"
  assumes loop_Nil: "loop [] m = Inr m"
    and loop_Cons: "loop ((name, c) # rest) m =
      (case StringToByte32 name of Inl err \<Rightarrow> Inl err
       | Inr key \<Rightarrow> (case entry c of Inl err \<Rightarrow> Inl err | Inr d \<Rightarrow> loop rest (m(key \<mapsto> d))))"
begin

lemma loop_ok_iff:
  "(\<exists>m'. loop cs m = Inr m') \<longleftrightarrow> (\<forall>(name, c)\<in>set cs. length name \<le> 32 \<and> (\<exists>d. entry c = Inr d))"
proof (induction cs arbitrary: m)
  case Nil
  then show ?case by (simp add: loop_Nil)
next
  case (Cons p cs)
  obtain name c where p: "p = (name, c)" by fastforce
  show ?case
  proof (cases "length name \<le> 32 \<and> (\<exists>d. entry c = Inr d)")
    case True
    then obtain d where d: "entry c = Inr d" by blast
    have "loop (p # cs) m = loop cs (m(padded name \<mapsto> d))" using True d by (simp add: p loop_Cons StringToByte32_def)
    then show ?thesis using True by (simp only: Cons.IH) (auto simp: p)
  next
    case False
    then show ?thesis by (cases "entry c") (auto simp: p loop_Cons StringToByte32_def)
  qed
qed

lemma loop_keep:
  "loop cs m = Inr m' \<Longrightarrow> k \<notin> (\<lambda>(name, c). padded name) ` set cs \<Longrightarrow> m' k = m k"
proof (induction cs arbitrary: m)
  case (Cons p cs)
  obtain name c where p: "p = (name, c)" by fastforce
  from Cons.prems obtain d where "entry c = Inr d" "loop cs (m(padded name \<mapsto> d)) = Inr m'"
    by (auto simp: p loop_Cons StringToByte32_def split: if_splits sum.splits)
  from Cons.IH [OF this(2)] Cons.prems(2) show ?case by (auto simp: p)
qed (simp add: loop_Nil)

lemma loop_entry:
  assumes "loop cs m = Inr m'" "(name, c) \<in> set cs" "distinct (map (\<lambda>(name, c). padded name) cs)"
  shows "\<exists>d. entry c = Inr d \<and> m' (padded name) = Some d"
  using assms
proof (induction cs arbitrary: m)
  case (Cons p cs)
  obtain nm cc where p: "p = (nm, cc)" by fastforce
  from Cons.prems(1) obtain d where d: "entry cc = Inr d" "loop cs (m(padded nm \<mapsto> d)) = Inr m'"
    by (auto simp: p loop_Cons StringToByte32_def split: if_splits sum.splits)
  show ?case
  proof (cases "(name, c) = p")
    case True
    have "padded nm \<notin> (\<lambda>(name, c). padded name) ` set cs" using Cons.prems(3) by (simp add: p)
    from loop_keep [OF d(2) this] d(1) True p show ?thesis by simp
  next
    case False
    then show ?thesis using Cons.IH [OF d(2)] Cons.prems(2,3) by auto
  qed
qed simp

end

interpretation sourceEntries: entry_parser parseSource parseSources_loop
  by unfold_locales (auto split: sum.splits)

interpretation typeEntries: entry_parser "ParseAttestationType ReadFile UnmarshalJSON"
  "parseAttestationTypes_loop ReadFile UnmarshalJSON" for ReadFile UnmarshalJSON
  by unfold_locales (auto split: sum.splits)

lemma WhiteSpaceStrip_filter: "WhiteSpaceStrip s = filter (\<lambda>c. \<not> IsSpace c) s"
proof -
  have "foldl (\<lambda>b ch. if \<not> IsSpace ch then b @ [ch] else b) acc s = acc @ filter (\<lambda>c. \<not> IsSpace c) s" for acc
    by (induction s arbitrary: acc) auto
  then show ?thesis by (simp add: WhiteSpaceStrip_def)
qed

lemma parseSource_limit: "parseSource s = Inr c \<Longrightarrow> sb_LUTLimit s = Some (uint (src_LUTLimit c))"
  by (auto simp: parseSource_def big_IsUint64_def uint_word_of_int_eq take_bit_int_eq_self split: if_splits option.splits)

section \<open>Properties\<close>

text \<open>
  The name of an attestation type or a source survives the 32-byte field: for a name of at most 32 bytes
  that neither begins nor ends with a zero byte, \<^verbatim>\<open>Bytes32ToString\<close> reads back what \<^verbatim>\<open>StringToByte32\<close> wrote; a
  longer name is an error.
\<close>

lemma name_roundtrip:
  assumes "plain_name s"
  shows "case StringToByte32 s of Inl e \<Rightarrow> e = StringTooLong s \<and> 32 < length s
     | Inr b \<Rightarrow> length b = 32 \<and> Bytes32ToString b = s"
  using Bytes32ToString_padded [OF assms] by (auto simp: StringToByte32_def)

text \<open>
  C38. The configuration is accepted exactly when every type name has at most 32 bytes and every entry parses,
  which for an entry means that its ABI file can be read and decoded, and that each of its sources has a name
  of at most 32 bytes and a limit that is given and fits into 64 bits; nothing else is rejected.
\<close>

theorem configuration_accepted:
  "(\<exists>m. ParseAttestationTypes ReadFile UnmarshalJSON cfgs = Inr m) \<longleftrightarrow>
     (\<forall>(name, c)\<in>set cfgs. length name \<le> 32 \<and>
        (\<exists>file args. ReadFile (atu_ABIPath c) = Some file \<and> UnmarshalJSON file = Some args) \<and>
        (\<forall>(sname, s)\<in>set (atu_Sources c). length sname \<le> 32 \<and> (\<exists>n. sb_LUTLimit s = Some n \<and> 0 \<le> n \<and> n < 2 ^ 64)))"
proof -
  have source: "(\<exists>d. parseSource s = Inr d) \<longleftrightarrow> (\<exists>n. sb_LUTLimit s = Some n \<and> 0 \<le> n \<and> n < 2 ^ 64)" for s
    by (auto simp: parseSource_def big_IsUint64_def split: option.splits)
  have sources: "(\<exists>m. parseSources ss = Inr m) \<longleftrightarrow>
      (\<forall>(sname, s)\<in>set ss. length sname \<le> 32 \<and> (\<exists>n. sb_LUTLimit s = Some n \<and> 0 \<le> n \<and> n < 2 ^ 64))" for ss
    unfolding parseSources_def sourceEntries.loop_ok_iff source ..
  have abi: "(\<exists>p. ReadABI ReadFile UnmarshalJSON path = Inr p) \<longleftrightarrow>
      (\<exists>file args. ReadFile path = Some file \<and> UnmarshalJSON file = Some args)" for path
    by (auto simp: ReadABI_def ArgumentsFromABI_def split: option.splits)
  have "(\<exists>d. ParseAttestationType ReadFile UnmarshalJSON c = Inr d) \<longleftrightarrow>
      (\<exists>p. ReadABI ReadFile UnmarshalJSON (atu_ABIPath c) = Inr p) \<and> (\<exists>m. parseSources (atu_Sources c) = Inr m)" for c
    by (auto simp: ParseAttestationType_def split: sum.splits)
  then have "(\<exists>d. ParseAttestationType ReadFile UnmarshalJSON c = Inr d) \<longleftrightarrow>
      (\<exists>file args. ReadFile (atu_ABIPath c) = Some file \<and> UnmarshalJSON file = Some args) \<and>
      (\<forall>(sname, s)\<in>set (atu_Sources c). length sname \<le> 32 \<and> (\<exists>n. sb_LUTLimit s = Some n \<and> 0 \<le> n \<and> n < 2 ^ 64))" for c
    by (simp only: abi sources)
  then show ?thesis unfolding ParseAttestationTypes_def typeEntries.loop_ok_iff by simp
qed

theorem configuration_accepted_witness:
  "\<exists>m. ParseAttestationTypes (\<lambda>path. Some [91, 93]) (\<lambda>file. Some file)
     [([80], \<lparr>atu_ABIPath = ''p'', atu_Sources = [([66], \<lparr>sb_URL = ''u'', sb_APIKey = ''k'', sb_LUTLimit = Some (2 ^ 64 - 1),
        sb_QueueName = ''q''\<rparr>)]\<rparr>)] = Inr m"
  unfolding configuration_accepted by simp

end
