(* ===== verification/Timing.thy ===== *)
theory Timing
  imports FDC_Prelude
begin

text \<open>
  \<^verbatim>\<open>client/timing\<close>: rounds, phases and timestamps. The package variable \<^verbatim>\<open>Chain\<close> is the first argument
  of every function. Timestamps are \<^verbatim>\<open>uint64\<close> and round numbers \<^verbatim>\<open>uint32\<close>; the lemmas read them as
  numbers under \<open>chain_ok\<close>, which says that the time of the last representable round does not wrap.
\<close>

record Timing =
  T0 :: u64
  T0RewardDelay :: u64
  RewardEpochLength :: u64
  CollectDurationSec :: u64
  ChooseDurationSec :: u64

datatype TimingError = BeforeFirstRound | DivideByZero

definition Chain_default :: Timing where
  "Chain_default = \<lparr>T0 = 1658429955, T0RewardDelay = 0, RewardEpochLength = 240, CollectDurationSec = 90,
     ChooseDurationSec = 45\<rparr>"

definition Timing_Set :: "Timing \<Rightarrow> Timing \<Rightarrow> Timing" where
  "Timing_Set Chain chainTiming =
     (let Chain = (if T0 chainTiming \<noteq> 0 then Chain\<lparr>T0 := T0 chainTiming\<rparr> else Chain);
          Chain = (if T0RewardDelay chainTiming \<noteq> 0 then Chain\<lparr>T0RewardDelay := T0RewardDelay chainTiming\<rparr> else Chain);
          Chain = (if RewardEpochLength chainTiming \<noteq> 0 then Chain\<lparr>RewardEpochLength := RewardEpochLength chainTiming\<rparr> else Chain);
          Chain = (if CollectDurationSec chainTiming \<noteq> 0 then Chain\<lparr>CollectDurationSec := CollectDurationSec chainTiming\<rparr> else Chain);
          Chain = (if ChooseDurationSec chainTiming \<noteq> 0 then Chain\<lparr>ChooseDurationSec := ChooseDurationSec chainTiming\<rparr> else Chain)
      in Chain)"

definition RoundIDForTS :: "Timing \<Rightarrow> u64 \<Rightarrow> TimingError + u32" where
  "RoundIDForTS Chain t =
     (if t < T0 Chain then Inl BeforeFirstRound
      else if CollectDurationSec Chain = 0 then Inl DivideByZero
      else Inr (ucast ((t - T0 Chain) div CollectDurationSec Chain)))"

definition RoundStartTS :: "Timing \<Rightarrow> u32 \<Rightarrow> u64" where
  "RoundStartTS Chain n = T0 Chain + ucast n * CollectDurationSec Chain"

definition ChooseStartTS :: "Timing \<Rightarrow> u32 \<Rightarrow> u64" where
  "ChooseStartTS Chain n = RoundStartTS Chain (n + 1)"

definition ChooseEndTS :: "Timing \<Rightarrow> u32 \<Rightarrow> u64" where
  "ChooseEndTS Chain n = ChooseStartTS Chain n + ChooseDurationSec Chain"

definition NextChooseEnd :: "Timing \<Rightarrow> u64 \<Rightarrow> TimingError + u32 \<times> u64" where
  "NextChooseEnd Chain t =
     (if t < T0 Chain + ChooseDurationSec Chain + 1 then Inr (0, ChooseEndTS Chain 0)
      else if CollectDurationSec Chain = 0 then Inl DivideByZero
      else let roundID = (t - T0 Chain - ChooseDurationSec Chain - 1) div CollectDurationSec Chain;
               endTimestamp = ChooseEndTS Chain (ucast roundID)
           in Inr (ucast roundID, endTimestamp))"

definition LastCollectPhaseStart :: "Timing \<Rightarrow> u64 \<Rightarrow> TimingError + u32 \<times> u64" where
  "LastCollectPhaseStart Chain t =
     (case RoundIDForTS Chain t of
        Inl err \<Rightarrow> Inl err
      | Inr roundID \<Rightarrow> Inr (roundID, RoundStartTS Chain roundID))"

definition ExpectedRewardEpochStartTS :: "Timing \<Rightarrow> u64 \<Rightarrow> u64" where
  "ExpectedRewardEpochStartTS Chain rewardEpochID =
     T0 Chain + T0RewardDelay Chain + RewardEpochLength Chain * CollectDurationSec Chain * rewardEpochID"

section \<open>Lemmas\<close>

definition chain_ok :: "Timing \<Rightarrow> bool" where
  "chain_ok Chain \<longleftrightarrow> CollectDurationSec Chain \<noteq> 0 \<and>
     unat (T0 Chain) + 2 ^ 32 * unat (CollectDurationSec Chain) + unat (ChooseDurationSec Chain) + 1 < 2 ^ 64"

abbreviation round_start :: "Timing \<Rightarrow> nat \<Rightarrow> nat" where
  "round_start C n \<equiv> unat (T0 C) + n * unat (CollectDurationSec C)"

abbreviation choose_end :: "Timing \<Rightarrow> nat \<Rightarrow> nat" where
  "choose_end C n \<equiv> round_start C (Suc n) + unat (ChooseDurationSec C)"

lemma Timing_Set_durations:
  "CollectDurationSec C \<noteq> 0 \<Longrightarrow> CollectDurationSec (Timing_Set C c) \<noteq> 0"
  "ChooseDurationSec C \<noteq> 0 \<Longrightarrow> ChooseDurationSec (Timing_Set C c) \<noteq> 0"
  by (simp_all add: Timing_Set_def Let_def)

lemma chain_ok_default: "chain_ok Chain_default"
  by (simp add: chain_ok_def Chain_default_def)

lemma chain_ok_collect: "chain_ok C \<Longrightarrow> 0 < unat (CollectDurationSec C)"
  by (simp add: chain_ok_def unat_gt_0)

lemma chain_ok_limit:
  assumes "chain_ok C" "n \<le> 2 ^ 32"
  shows "round_start C n + unat (ChooseDurationSec C) + 1 < 2 ^ 64"
proof -
  have "n * unat (CollectDurationSec C) \<le> 2 ^ 32 * unat (CollectDurationSec C)" using assms(2) by (rule mult_le_mono1)
  moreover have "unat (T0 C) + 2 ^ 32 * unat (CollectDurationSec C) + unat (ChooseDurationSec C) + 1 < 2 ^ 64"
    using assms(1) unfolding chain_ok_def by blast
  ultimately show ?thesis by linarith
qed

lemma unat_u32_less: "unat (n :: u32) < 2 ^ 32"
  using unsigned_less [where 'a = nat, of n] by simp

lemma unat_ucast_u32 [simp]: "unat (ucast (n :: u32) :: u64) = unat n"
  using unat_u32_less [of n] by (simp add: unsigned_ucast_eq take_bit_nat_eq_self)

lemma unat_RoundStartTS [nowrap]:
  assumes "chain_ok C"
  shows "unat (RoundStartTS C n) = round_start C (unat n)"
proof -
  have lim: "round_start C (unat n) < 2 ^ 64" using chain_ok_limit [OF assms, of "unat n"] unat_u32_less [of n] by linarith
  then have m: "unat (ucast n * CollectDurationSec C :: u64) = unat n * unat (CollectDurationSec C)"
    using unat_mult_lem [of "ucast n :: u64" "CollectDurationSec C"] by simp
  show ?thesis
    unfolding RoundStartTS_def using lim by (subst unat_plus_nowrap) (simp_all add: m)
qed

lemma unat_ChooseStartTS [nowrap]:
  assumes "chain_ok C" "unat n < 2 ^ 32 - 1"
  shows "unat (ChooseStartTS C n) = round_start C (Suc (unat n))"
proof -
  have "unat (n + 1) = Suc (unat n)" using assms(2) by (subst unat_plus_nowrap) simp_all
  then show ?thesis by (simp only: ChooseStartTS_def unat_RoundStartTS [OF assms(1)])
qed

lemma unat_ChooseEndTS [nowrap]:
  assumes "chain_ok C" "unat n < 2 ^ 32 - 1"
  shows "unat (ChooseEndTS C n) = choose_end C (unat n)"
proof -
  have "choose_end C (unat n) < 2 ^ 64"
    using chain_ok_limit [OF assms(1), of "Suc (unat n)"] assms(2) by linarith
  then have "unat (ChooseStartTS C n) + unat (ChooseDurationSec C) < 2 ^ 64"
    by (simp only: unat_ChooseStartTS [OF assms])
  then have "unat (ChooseEndTS C n) = unat (ChooseStartTS C n) + unat (ChooseDurationSec C)"
    unfolding ChooseEndTS_def by (intro unat_plus_nowrap) simp
  then show ?thesis by (simp only: unat_ChooseStartTS [OF assms])
qed

lemma unat_ucast_down: "unat (x :: u64) < 2 ^ 32 \<Longrightarrow> unat (ucast x :: u32) = unat x"
  by (simp add: unsigned_ucast_eq take_bit_nat_eq_self)

text \<open>The round of a timestamp is the one whose collect phase holds it.\<close>

lemma RoundIDForTS_interval:
  assumes C: "chain_ok C" and t: "T0 C \<le> t" "unat t < round_start C (2 ^ 32)"
  obtains n where "RoundIDForTS C t = Inr n" "round_start C (unat n) \<le> unat t" "unat t < round_start C (Suc (unat n))"
proof -
  let ?c = "unat (CollectDurationSec C)" and ?d = "unat t - unat (T0 C)"
  let ?n = "(t - T0 C) div CollectDurationSec C"
  have pos: "0 < ?c" by (rule chain_ok_collect [OF C])
  have le: "unat (T0 C) \<le> unat t" using t(1) by (simp add: word_le_unat)
  have q: "unat ?n = ?d div ?c" using le by (simp add: unat_div unat_minus_nowrap)
  have "?d < 2 ^ 32 * ?c" using t(2) le by linarith
  then have lt: "?d div ?c < 2 ^ 32" using pos by (simp add: less_mult_imp_div_less)
  have n: "unat (ucast ?n :: u32) = ?d div ?c" using lt q by (simp add: unat_ucast_down)
  have "?d div ?c * ?c \<le> ?d" by simp
  moreover have "?d < Suc (?d div ?c) * ?c" using pos by (metis dividend_less_div_times mult_Suc add.commute)
  ultimately have "round_start C (?d div ?c) \<le> unat t" "unat t < round_start C (Suc (?d div ?c))" using le by linarith+
  moreover have "RoundIDForTS C t = Inr (ucast ?n)" using C t(1) by (simp add: RoundIDForTS_def chain_ok_def not_less)
  ultimately show thesis using that [of "ucast ?n"] unfolding n by blast
qed

lemma round_start_inject:
  assumes "chain_ok C" "round_start C m \<le> t" "t < round_start C (Suc m)" "round_start C n \<le> t" "t < round_start C (Suc n)"
  shows "m = n"
proof -
  let ?c = "unat (CollectDurationSec C)"
  have "m * ?c < Suc n * ?c" "n * ?c < Suc m * ?c" using assms(2-5) by linarith+
  then have "m < Suc n" "n < Suc m" by (simp_all only: mult_less_cancel2)
  then show ?thesis by simp
qed

text \<open>
  \<^verbatim>\<open>NextChooseEnd\<close> returns the first round whose choose phase ends at \<open>t\<close> or later, and that end.
\<close>

lemma NextChooseEnd_first:
  assumes C: "chain_ok C" and t: "unat t \<le> choose_end C (2 ^ 32 - 2)"
  obtains n where "NextChooseEnd C t = Inr (n, ChooseEndTS C n)" "unat (ChooseEndTS C n) = choose_end C (unat n)"
    "unat t \<le> choose_end C (unat n)" "\<And>m. m < unat n \<Longrightarrow> choose_end C m < unat t"
proof -
  let ?c = "unat (CollectDurationSec C)" and ?s = "unat (T0 C) + unat (ChooseDurationSec C)"
  have pos: "0 < ?c" by (rule chain_ok_collect [OF C])
  have "?s + 1 < 2 ^ 64" using C by (simp add: chain_ok_def)
  then have s: "unat (T0 C + ChooseDurationSec C) = ?s" "unat (T0 C + ChooseDurationSec C + 1) = Suc ?s"
    by (subst unat_plus_nowrap; simp add: unat_plus_nowrap)+
  show thesis
  proof (cases "t < T0 C + ChooseDurationSec C + 1")
    case True
    then have le: "unat t \<le> ?s" using s by (simp add: word_less_unat)
    show thesis
    proof (rule that [of 0])
      show "NextChooseEnd C t = Inr (0, ChooseEndTS C 0)" using True by (simp add: NextChooseEnd_def)
      show "unat (ChooseEndTS C 0) = choose_end C (unat (0 :: u32))" by (rule unat_ChooseEndTS [OF C]) simp
    qed (use le in simp_all)
  next
    case False
    let ?d = "unat t - Suc ?s"
    let ?n = "(t - T0 C - ChooseDurationSec C - 1) div CollectDurationSec C"
    have ge: "Suc ?s \<le> unat t" using False s by (simp add: word_less_unat not_less)
    have diff: "t - T0 C - ChooseDurationSec C - 1 = t - (T0 C + ChooseDurationSec C + 1)" by (simp only: diff_diff_add)
    have "unat (t - T0 C - ChooseDurationSec C - 1) = ?d"
      unfolding diff using unat_minus_nowrap [of "T0 C + ChooseDurationSec C + 1" t] ge s by simp
    then have q: "unat ?n = ?d div ?c" by (simp add: unat_div)
    have "?d < (2 ^ 32 - 1) * ?c" using t ge pos by (simp add: algebra_simps)
    then have lt: "?d div ?c < 2 ^ 32 - 1" using pos by (simp add: less_mult_imp_div_less)
    have n: "unat (ucast ?n :: u32) = ?d div ?c" using lt q by (simp add: unat_ucast_down)
    have end_eq: "unat (ChooseEndTS C (ucast ?n)) = choose_end C (?d div ?c)"
      using unat_ChooseEndTS [OF C, of "ucast ?n"] lt n by simp
    have up: "unat t \<le> choose_end C (?d div ?c)"
      using dividend_less_div_times [OF pos, of ?d] ge by simp
    have down: "choose_end C m < unat t" if "m < ?d div ?c" for m
    proof -
      have "Suc m * ?c \<le> (?d div ?c) * ?c" using that by (intro mult_le_mono1) simp
      also have "\<dots> \<le> ?d" by simp
      finally show ?thesis using ge by simp
    qed
    show thesis
    proof (rule that [of "ucast ?n"])
      show "NextChooseEnd C t = Inr (ucast ?n, ChooseEndTS C (ucast ?n))"
        using False C by (simp add: NextChooseEnd_def chain_ok_def Let_def)
    qed (use end_eq n up down in simp_all)
  qed
qed

section \<open>Properties\<close>

text \<open>
  The round of a timestamp is the one whose collect phase contains it: for every configuration in which
  the 2^32 rounds fit into 64 bits and every timestamp of one of these rounds, \<^verbatim>\<open>RoundIDForTS\<close> returns \<open>n\<close>
  exactly when the timestamp is at or after the start of round \<open>n\<close> and less than one collect phase after it.
\<close>

lemma round_of_timestamp:
  assumes C: "chain_ok C" and t: "T0 C \<le> t" "unat t < round_start C (2 ^ 32)"
  shows "RoundIDForTS C t = Inr n \<longleftrightarrow>
    RoundStartTS C n \<le> t \<and> unat t < unat (RoundStartTS C n) + unat (CollectDurationSec C)"
proof -
  obtain k where k: "RoundIDForTS C t = Inr k" "round_start C (unat k) \<le> unat t" "unat t < round_start C (Suc (unat k))"
    using RoundIDForTS_interval [OF C t] by blast
  have start: "RoundStartTS C n \<le> t \<longleftrightarrow> round_start C (unat n) \<le> unat t" for n
    by (simp add: word_le_unat unat_RoundStartTS [OF C])
  have "k = n" if "round_start C (unat n) \<le> unat t" "unat t < round_start C (Suc (unat n))"
    using round_start_inject [OF C k(2,3) that] by (rule word_unat_eq_iff [THEN iffD2])
  with k show ?thesis by (auto simp: start unat_RoundStartTS [OF C] add.assoc)
qed

text \<open>
  \<^verbatim>\<open>NextChooseEnd\<close> returns the first choose phase that has not ended: its end is at or after the
  timestamp, the ends of all earlier rounds are before it, and the returned end is the one of the returned
  round.
\<close>

lemma next_choose_end_first:
  assumes C: "chain_ok C" and t: "t \<le> ChooseEndTS C (2 ^ 32 - 2)"
  shows "\<exists>n. NextChooseEnd C t = Inr (n, ChooseEndTS C n) \<and> t \<le> ChooseEndTS C n \<and> (\<forall>m<n. ChooseEndTS C m < t)"
proof -
  have "unat (2 ^ 32 - 2 :: u32) = 2 ^ 32 - 2" by simp
  then have "unat t \<le> choose_end C (2 ^ 32 - 2)"
    using t unat_ChooseEndTS [OF C, of "2 ^ 32 - 2"] by (simp add: word_le_unat)
  then obtain n where n: "NextChooseEnd C t = Inr (n, ChooseEndTS C n)" "unat (ChooseEndTS C n) = choose_end C (unat n)"
    "unat t \<le> choose_end C (unat n)" "\<And>m. m < unat n \<Longrightarrow> choose_end C m < unat t"
    by (rule NextChooseEnd_first [OF C]) iprover
  have "ChooseEndTS C m < t" if "m < n" for m
  proof -
    have "unat m < unat n" using that by (simp add: word_less_unat)
    moreover from this have "unat m < 2 ^ 32 - 1" using unat_u32_less [of n] by linarith
    ultimately show ?thesis using n(4) by (simp add: word_less_unat unat_ChooseEndTS [OF C])
  qed
  with n(1-3) show ?thesis by (auto simp: word_le_unat)
qed

end
