(* ===== verification/Go_Sort.thy ===== *)
theory Go_Sort
  imports FDC_Prelude
begin

text \<open>
  The sorts of the standard library. \<^verbatim>\<open>slices.SortStableFunc\<close> takes a comparator and is modelled by
  a stable insertion sort; \<^verbatim>\<open>sort.Slice\<close> takes a strict order and is modelled by the same sort over
  the comparator made from it. The locale \<open>comparator\<close> is what the code promises to the library (a
  total preorder given by signs), and its lemmas are what the library returns: a sorted permutation
  that is unique when no two elements compare as equal, so the result does not depend on the order
  in which a Go map was enumerated.
\<close>

fun insort_cmp :: "('a \<Rightarrow> 'a \<Rightarrow> int) \<Rightarrow> 'a \<Rightarrow> 'a list \<Rightarrow> 'a list" where
  "insort_cmp cmp x [] = [x]"
| "insort_cmp cmp x (y # ys) = (if cmp x y \<le> 0 then x # y # ys else y # insort_cmp cmp x ys)"

definition SortStableFunc :: "('a \<Rightarrow> 'a \<Rightarrow> int) \<Rightarrow> 'a list \<Rightarrow> 'a list" where
  "SortStableFunc cmp xs = foldr (insort_cmp cmp) xs []"

definition cmp_of_less :: "('a \<Rightarrow> 'a \<Rightarrow> bool) \<Rightarrow> 'a \<Rightarrow> 'a \<Rightarrow> int" where
  "cmp_of_less lt x y = (if lt x y then -1 else if lt y x then 1 else 0)"

definition sort_Slice :: "('a \<Rightarrow> 'a \<Rightarrow> bool) \<Rightarrow> 'a list \<Rightarrow> 'a list" where
  "sort_Slice lt xs = SortStableFunc (cmp_of_less lt) xs"

lemma mset_insort_cmp [simp]: "mset (insort_cmp cmp x xs) = add_mset x (mset xs)"
  by (induction xs) auto

lemma mset_SortStableFunc [simp]: "mset (SortStableFunc cmp xs) = mset xs"
  by (induction xs) (auto simp: SortStableFunc_def)

lemma set_SortStableFunc [simp]: "set (SortStableFunc cmp xs) = set xs"
  by (rule mset_eq_setD) simp

lemma length_SortStableFunc [simp]: "length (SortStableFunc cmp xs) = length xs"
  by (rule mset_eq_length) simp

lemma mset_sort_Slice [simp]: "mset (sort_Slice lt xs) = mset xs"
  by (simp add: sort_Slice_def)

lemma set_sort_Slice [simp]: "set (sort_Slice lt xs) = set xs"
  by (simp add: sort_Slice_def)

lemma length_sort_Slice [simp]: "length (sort_Slice lt xs) = length xs"
  by (simp add: sort_Slice_def)

locale comparator =
  fixes cmp :: "'a \<Rightarrow> 'a \<Rightarrow> int"
  assumes cmp_flip: "cmp y x = - cmp x y"
    and cmp_trans: "cmp x y \<le> 0 \<Longrightarrow> cmp y z \<le> 0 \<Longrightarrow> cmp x z \<le> 0"
begin

lemma set_insort: "set (insort_cmp cmp x xs) = insert x (set xs)"
  by (induction xs) auto

lemma sorted_insort:
  "sorted_wrt (\<lambda>a b. cmp a b \<le> 0) xs \<Longrightarrow> sorted_wrt (\<lambda>a b. cmp a b \<le> 0) (insort_cmp cmp x xs)"
proof (induction xs)
  case Nil
  then show ?case by simp
next
  case (Cons y ys)
  show ?case
  proof (cases "cmp x y \<le> 0")
    case True
    with Cons.prems show ?thesis by (auto intro: cmp_trans)
  next
    case False
    then have "cmp y x \<le> 0" using cmp_flip [of y x] by simp
    with False Cons show ?thesis by (auto simp: set_insort)
  qed
qed

lemma sorted_SortStableFunc: "sorted_wrt (\<lambda>a b. cmp a b \<le> 0) (SortStableFunc cmp xs)"
  by (induction xs) (auto simp: SortStableFunc_def sorted_insort)

lemma sorted_unique:
  assumes "sorted_wrt (\<lambda>a b. cmp a b \<le> 0) xs" "sorted_wrt (\<lambda>a b. cmp a b \<le> 0) ys"
    and "mset xs = mset ys"
    and "\<And>a b. a \<in> set xs \<Longrightarrow> b \<in> set xs \<Longrightarrow> cmp a b = 0 \<Longrightarrow> a = b"
  shows "xs = ys"
  using assms
proof (induction xs arbitrary: ys)
  case Nil
  then show ?case by simp
next
  case (Cons x xs)
  then obtain y zs where ys: "ys = y # zs" by (cases ys) auto
  have sets: "set (x # xs) = set ys" using Cons.prems(3) by (rule mset_eq_setD)
  have "cmp x y \<le> 0 \<or> x = y" using Cons.prems(1) sets ys by auto
  moreover have "cmp y x \<le> 0 \<or> x = y" using Cons.prems(2) sets ys by auto
  ultimately have "cmp x y = 0 \<or> x = y" using cmp_flip [of y x] by auto
  then have "x = y" using Cons.prems(4) [of x y] sets ys by auto
  moreover from this have "xs = zs"
    using Cons.prems ys by (intro Cons.IH) auto
  ultimately show ?case using ys by simp
qed

lemma SortStableFunc_unique:
  assumes "mset xs = mset ys"
    and "\<And>a b. a \<in> set xs \<Longrightarrow> b \<in> set xs \<Longrightarrow> cmp a b = 0 \<Longrightarrow> a = b"
  shows "SortStableFunc cmp xs = SortStableFunc cmp ys"
  using assms by (intro sorted_unique sorted_SortStableFunc) auto

lemma SortStableFunc_sorted_id:
  assumes "sorted_wrt (\<lambda>a b. cmp a b \<le> 0) xs"
    and "\<And>a b. a \<in> set xs \<Longrightarrow> b \<in> set xs \<Longrightarrow> cmp a b = 0 \<Longrightarrow> a = b"
  shows "SortStableFunc cmp xs = xs"
  using assms by (intro sorted_unique sorted_SortStableFunc) auto

end

locale less_order =
  fixes lt :: "'a \<Rightarrow> 'a \<Rightarrow> bool"
  assumes less_asym: "lt x y \<Longrightarrow> \<not> lt y x"
    and less_negtrans: "lt x z \<Longrightarrow> lt x y \<or> lt y z"
begin

lemma cmp_of_less_iff:
  "cmp_of_less lt x y \<le> 0 \<longleftrightarrow> \<not> lt y x"
  by (auto simp: cmp_of_less_def dest: less_asym)

end

sublocale less_order \<subseteq> by_less: comparator "cmp_of_less lt"
proof unfold_locales
  show "cmp_of_less lt y x = - cmp_of_less lt x y" for x y
    by (auto simp: cmp_of_less_def dest: less_asym)
  show "cmp_of_less lt x y \<le> 0 \<Longrightarrow> cmp_of_less lt y z \<le> 0 \<Longrightarrow> cmp_of_less lt x z \<le> 0" for x y z
    unfolding cmp_of_less_iff using less_negtrans [of z x y] by blast
qed

context less_order
begin

lemma sorted_sort_Slice: "sorted_wrt (\<lambda>a b. \<not> lt b a) (sort_Slice lt xs)"
  using by_less.sorted_SortStableFunc [of xs] by (simp add: sort_Slice_def cmp_of_less_iff)

lemma sort_Slice_unique:
  assumes "mset xs = mset ys"
    and "\<And>a b. a \<in> set xs \<Longrightarrow> b \<in> set xs \<Longrightarrow> \<not> lt a b \<Longrightarrow> \<not> lt b a \<Longrightarrow> a = b"
  shows "sort_Slice lt xs = sort_Slice lt ys"
  unfolding sort_Slice_def
  using assms by (intro by_less.SortStableFunc_unique) (auto simp: cmp_of_less_def split: if_splits)

lemma sort_Slice_idem:
  assumes "\<And>a b. a \<in> set xs \<Longrightarrow> b \<in> set xs \<Longrightarrow> \<not> lt a b \<Longrightarrow> \<not> lt b a \<Longrightarrow> a = b"
  shows "sort_Slice lt (sort_Slice lt xs) = sort_Slice lt xs"
  using assms by (intro sort_Slice_unique) auto

end

end
