(* ===== verification/BitVote.thy ===== *)
theory BitVote
  imports Go_Std Go_Sort
begin

text \<open>
  \<^verbatim>\<open>client/attestation/bitVotes/bitvote.go\<close>: the bit vote of a provider, its position on chain, its
  weight, and its byte encoding. Shown here: the order on transaction positions is strict and total
  (an interpretation of \<open>less_order\<close>), and the encoding and the decoding are inverse to each other
  up to leading zero bytes.
\<close>

record BitVote =
  bv_Length :: u16
  bv_BitVector :: int

record IndexTx =
  tx_BlockNumber :: u64
  tx_TransactionIndex :: u64

definition EarlierTx :: "IndexTx \<Rightarrow> IndexTx \<Rightarrow> bool" where
  "EarlierTx a b =
     (if tx_BlockNumber a < tx_BlockNumber b then True
      else if tx_BlockNumber a = tx_BlockNumber b \<and> tx_TransactionIndex a < tx_TransactionIndex b then True
      else False)"

record WeightedBitVote =
  wbv_Index :: int
  wbv_IndexTx :: IndexTx
  wbv_Weight :: u16
  wbv_BitVote :: BitVote

datatype BitVoteError = BitVoteTooShort | BadBitVote

definition EncodeBitVote :: "BitVote \<Rightarrow> bytes" where
  "EncodeBitVote b = BigEndian_PutUint16 (bv_Length b) @ big_Bytes (bv_BitVector b)"

definition EncodeBitVoteHex :: "BitVote \<Rightarrow> string" where
  "EncodeBitVoteHex b = hex_EncodeToString (EncodeBitVote b)"

fun DecodeBitVoteBytes :: "bytes \<Rightarrow> BitVoteError + BitVote" where
  "DecodeBitVoteBytes (b0 # b1 # bitVector) =
     (let length = BigEndian_Uint16 b0 b1;
          bigBV = big_SetBytes bitVector
      in if unat length < big_BitLen bigBV then Inl BadBitVote
         else Inr \<lparr>bv_Length = length, bv_BitVector = bigBV\<rparr>)"
| "DecodeBitVoteBytes _ = Inl BitVoteTooShort"

fun_cases DecodeBitVoteBytes_InrE: "DecodeBitVoteBytes bs = Inr b"

text \<open>A bit vote as the protocol means it: no bit beyond its length.\<close>

definition wf_BitVote :: "BitVote \<Rightarrow> bool" where
  "wf_BitVote b \<longleftrightarrow> 0 \<le> bv_BitVector b \<and> big_BitLen (bv_BitVector b) \<le> unat (bv_Length b)"

interpretation tx: less_order EarlierTx
  by unfold_locales (auto simp: EarlierTx_def split: if_splits)

lemma EarlierTx_total: "EarlierTx a b \<or> a = b \<or> EarlierTx b a"
  by (auto simp: EarlierTx_def intro: IndexTx.equality)

lemma wf_BitVote_bit: "wf_BitVote b \<Longrightarrow> bit (bv_BitVector b) i \<Longrightarrow> i < unat (bv_Length b)"
  using bit_less_BitLen [of "bv_BitVector b" i] by (auto simp: wf_BitVote_def)

lemma Decode_too_short: "DecodeBitVoteBytes bs = Inl BitVoteTooShort \<longleftrightarrow> length bs < 2"
  by (cases bs rule: DecodeBitVoteBytes.cases) (auto simp: Let_def)

lemma Decode_wf: "DecodeBitVoteBytes bs = Inr b \<Longrightarrow> wf_BitVote b"
  by (elim DecodeBitVoteBytes_InrE) (auto simp: Let_def wf_BitVote_def split: if_splits)

lemma Decode_Encode: "wf_BitVote b \<Longrightarrow> DecodeBitVoteBytes (EncodeBitVote b) = Inr b"
  by (simp add: wf_BitVote_def EncodeBitVote_def BigEndian_PutUint16_def BigEndian_Uint16_Put
      big_SetBytes_Bytes)

lemma PutUint16_Uint16: "BigEndian_PutUint16 (BigEndian_Uint16 b0 b1) = [b0, b1]"
proof -
  have "\<not> bit b1 (8 + n)" for n
    using bit_imp_le_length [of b1 "8 + n"] by auto
  then show ?thesis
    unfolding BigEndian_PutUint16_def BigEndian_Uint16_def
    by (auto intro!: bit_word_eqI simp: bit_simps)
qed

lemma Encode_Decode:
  "DecodeBitVoteBytes bs = Inr b \<Longrightarrow>
   EncodeBitVote b = take 2 bs @ dropWhile (\<lambda>x. x = 0) (drop 2 bs)"
  by (elim DecodeBitVoteBytes_InrE)
    (auto simp: Let_def EncodeBitVote_def PutUint16_Uint16 big_Bytes_def big_SetBytes_def
      nat_bytes_nat_of_bytes split: if_splits)

section \<open>Properties\<close>

text \<open>
  C39. Decoding an encoded bit vote returns it, for every bit vote without bits beyond its length.
\<close>

theorem bitvote_roundtrip: "wf_BitVote b \<Longrightarrow> DecodeBitVoteBytes (EncodeBitVote b) = Inr b"
  by (rule Decode_Encode)

theorem bitvote_roundtrip_witness:
  "DecodeBitVoteBytes (EncodeBitVote \<lparr>bv_Length = 9, bv_BitVector = 261\<rparr>) =
     Inr \<lparr>bv_Length = 9, bv_BitVector = 261\<rparr>"
proof -
  have "wf_BitVote \<lparr>bv_Length = 9, bv_BitVector = 261\<rparr>" by code_simp
  then show ?thesis by (rule bitvote_roundtrip)
qed

text \<open>
  Decoding is canonical: encoding a decoded bit vote gives the bytes back, less the leading zero bytes
  of the vector, which carry no bit; so two byte strings decode to the same bit vote exactly when they
  differ in leading zeros only.
\<close>

lemma bitvote_decode_canonical:
  assumes "DecodeBitVoteBytes bs = Inr b"
  shows "EncodeBitVote b = take 2 bs @ dropWhile (\<lambda>x. x = 0) (drop 2 bs) \<and> wf_BitVote b"
  using Encode_Decode [OF assms] Decode_wf [OF assms] by simp

end
