(* ===== verification/Attestation.thy ===== *)
theory Attestation
  imports Verification Config Timing BitVote
begin

text \<open>
  \<^verbatim>\<open>client/attestation/attestation.go\<close> and \<^verbatim>\<open>verifiers.go\<close>: one attestation request, from the event log it is
  made of to the validated response of the verifier.

  The round status an attestation points to is a cell shared with its round; it is named by a
  \<open>StatusRef\<close>, a private cell until \<^verbatim>\<open>AddAttestation\<close> replaces it by the cell of the round. Locks are taken
  and released around each operation and are not part of these definitions. The event parser, the
  HTTP client, the ABI codec and \<^verbatim>\<open>Keccak256\<close> are parameters. A panic is an error value; the state next to it
  is of no further use. \<^verbatim>\<open>QueuePointer\<close>, which the code only stores, is
  left out.

  Shown here: the order on log positions is strict and total; what each branch of \<^verbatim>\<open>Handle\<close>,
  \<^verbatim>\<open>PrepareRequest\<close> and \<^verbatim>\<open>Discard\<close> leaves behind; an attestation is confirmed (\<^verbatim>\<open>Success\<close>) only with a
  response whose code and lowest used timestamp were checked and whose hash is that of the response
  with the round written into it; and the bit vote of a list of attestations.
\<close>

datatype RoundStatus = Unassigned | PreConsensus | Consensus | Done | Failed

datatype Status =
  Unprocessed | UnsupportedPair | Waiting | Processing | Success | WrongMIC | InvalidLUT | Retrying
| ProcessError | Unconfirmed

datatype StatusRef = OwnStatus RoundStatus | RoundStatusOf nat

record IndexLog =
  il_BlockNumber :: u64
  il_LogIndex :: u64

record VerifierCredentials =
  vc_URL :: string
  vc_apiKey :: string

record 'arg Attestation =
  at_Indexes :: "IndexLog list"
  at_RoundID :: u32
  at_RoundStatus :: StatusRef
  at_Request :: bytes
  at_Response :: bytes
  at_Fee :: int
  at_Status :: Status
  at_Consensus :: bool
  at_Hash :: bytes
  at_ResponseABI :: "'arg list option"
  at_ResponseABIString :: "nat list option"
  at_LUTLimit :: u64
  at_QueueName :: string
  at_Credentials :: "VerifierCredentials option"

definition EarlierLog :: "IndexLog \<Rightarrow> IndexLog \<Rightarrow> bool" where
  "EarlierLog a b =
     (if il_BlockNumber a < il_BlockNumber b then True
      else if il_BlockNumber a = il_BlockNumber b \<and> il_LogIndex a < il_LogIndex b then True
      else False)"

text \<open>\<^verbatim>\<open>Weight.Less\<close> of the priority queues: \<open>x\<close> has lower priority when it is later.\<close>

record Weight =
  wt_Index :: IndexLog

definition Weight_Less :: "Weight \<Rightarrow> Weight \<Rightarrow> bool" where
  "Weight_Less x y = EarlierLog (wt_Index y) (wt_Index x)"

section \<open>From the event log\<close>

record dbLog =
  log_Timestamp :: u64
  log_BlockNumber :: u64
  log_LogIndex :: u64

datatype AttError =
  ParseLogError | LogRoundError TimingError | VerErr VerError | NoTypeConfig bytes | NoSourceConfig bytes bytes
| ResolveError | NilPointer

definition ParseAttestationRequestLog ::
  "('m dbLog_scheme \<Rightarrow> 'c option) \<Rightarrow> ('c \<Rightarrow> (bytes \<times> int) option) \<Rightarrow> 'm dbLog_scheme \<Rightarrow> (bytes \<times> int) option" where
  "ParseAttestationRequestLog ConvertDatabaseLogToChainLog ParseAttestationRequest dbLog =
     (case ConvertDatabaseLogToChainLog dbLog of
        None \<Rightarrow> None
      | Some contractLog \<Rightarrow> ParseAttestationRequest contractLog)"

definition AttestationFromDatabaseLog ::
  "('m dbLog_scheme \<Rightarrow> (bytes \<times> int) option) \<Rightarrow> Timing \<Rightarrow> 'm dbLog_scheme \<Rightarrow> AttError + 'arg Attestation" where
  "AttestationFromDatabaseLog parse Chain request =
     (case parse request of
        None \<Rightarrow> Inl ParseLogError
      | Some (data, fee) \<Rightarrow>
          (case RoundIDForTS Chain (log_Timestamp request) of
             Inl err \<Rightarrow> Inl (LogRoundError err)
           | Inr rID \<Rightarrow>
               Inr \<lparr>at_Indexes = [\<lparr>il_BlockNumber = log_BlockNumber request, il_LogIndex = log_LogIndex request\<rparr>],
                    at_RoundID = rID, at_RoundStatus = OwnStatus Unassigned, at_Request = data, at_Response = [],
                    at_Fee = fee, at_Status = Waiting, at_Consensus = False, at_Hash = replicate 32 0,
                    at_ResponseABI = None, at_ResponseABIString = None, at_LUTLimit = 0, at_QueueName = [],
                    at_Credentials = None\<rparr>))"

section \<open>Discarding\<close>

definition status_value :: "(nat \<Rightarrow> RoundStatus) \<Rightarrow> StatusRef \<Rightarrow> RoundStatus" where
  "status_value cells ref = (case ref of OwnStatus s \<Rightarrow> s | RoundStatusOf a \<Rightarrow> cells a)"

definition Discard :: "(nat \<Rightarrow> RoundStatus) \<Rightarrow> 'arg Attestation \<Rightarrow> bool" where
  "Discard cells a =
     (if at_Status a = Success then True
      else if status_value cells (at_RoundStatus a) = Done then True
      else if status_value cells (at_RoundStatus a) = Consensus \<and> \<not> at_Consensus a then True
      else False)"

section \<open>The verifier's answer\<close>

text \<open>
  What the code observes of the HTTP exchange: whether the URL makes a request, and for URL, API key
  and body either a transport error or a status code with the decoded JSON body, if it decodes.
\<close>

record http =
  http_NewRequest :: "string \<Rightarrow> bool"
  http_Do :: "string \<Rightarrow> string \<Rightarrow> string \<Rightarrow> (nat \<times> (string \<times> string) option) option"

definition ResolveAttestationRequest :: "http \<Rightarrow> 'arg Attestation \<Rightarrow> AttError + bytes \<times> bool" where
  "ResolveAttestationRequest H att =
     (case at_Credentials att of
        None \<Rightarrow> Inl NilPointer
      | Some credentials \<Rightarrow>
          (let encoded = hex_EncodeToString (at_Request att);
               payload = ''0x'' @ encoded
           in if \<not> http_NewRequest H (vc_URL credentials) then Inl ResolveError
              else case http_Do H (vc_URL credentials) (vc_apiKey credentials) payload of
                     None \<Rightarrow> Inl ResolveError
                   | Some (statusCode, body) \<Rightarrow>
                       if statusCode \<noteq> 200 then Inl ResolveError
                       else (case body of
                               None \<Rightarrow> Inl ResolveError
                             | Some (status, abiEncodedResponse) \<Rightarrow>
                                 if status \<noteq> ''VALID'' then Inr ([], False)
                                 else (case hex_DecodeString (TrimPrefix abiEncodedResponse ''0x'') of
                                         None \<Rightarrow> Inl ResolveError
                                       | Some responseBytes \<Rightarrow> Inr (responseBytes, True)))))"

text \<open>
  The error branches of \<^verbatim>\<open>validateResponse\<close>: an error is recorded in the status; a panic ends the program
  before the assignment.
\<close>

definition verification_failed :: "'arg Attestation \<Rightarrow> VerError \<Rightarrow> 'arg Attestation \<times> AttError option" where
  "verification_failed a err =
     ((if is_panic err then a else a\<lparr>at_Status := ProcessError\<rparr>), Some (VerErr err))"

definition validateResponse ::
  "('arg, 'val) abi \<Rightarrow> (bytes \<Rightarrow> bytes) \<Rightarrow> Timing \<Rightarrow> 'arg Attestation \<Rightarrow> 'arg Attestation \<times> AttError option" where
  "validateResponse A Keccak256Hash Chain a =
     (case Request_MIC (at_Request a) of
        Inl err \<Rightarrow> (a\<lparr>at_Status := ProcessError\<rparr>, Some (VerErr err))
      | Inr micReq \<Rightarrow>
     (case at_ResponseABI a of
        None \<Rightarrow> (a, Some NilPointer)
      | Some responseABI \<Rightarrow>
     (case Response_ComputeMIC A Keccak256Hash (at_Response a) responseABI of
        Inl err \<Rightarrow> verification_failed a err
      | Inr micRes \<Rightarrow>
          if micReq \<noteq> micRes then (a\<lparr>at_Status := WrongMIC\<rparr>, None)
          else
     (case Response_LUT (at_Response a) of
        Inl err \<Rightarrow> verification_failed a err
      | Inr lut \<Rightarrow>
          let roundStart = ChooseStartTS Chain (at_RoundID a) in
          if \<not> validLUT lut (at_LUTLimit a) roundStart then (a\<lparr>at_Status := InvalidLUT\<rparr>, None)
          else
     (case Response_Hash Keccak256Hash (at_Response a) (at_RoundID a) of
        Inl err \<Rightarrow> (a\<lparr>at_Hash := replicate 32 0, at_Status := ProcessError\<rparr>, Some (VerErr err))
      | Inr (response, hash) \<Rightarrow>
          (a\<lparr>at_Response := response, at_Hash := hash, at_Status := Success\<rparr>, None))))))"

definition Handle ::
  "http \<Rightarrow> ('arg, 'val) abi \<Rightarrow> (bytes \<Rightarrow> bytes) \<Rightarrow> Timing \<Rightarrow> 'arg Attestation \<Rightarrow> 'arg Attestation \<times> AttError option" where
  "Handle H A Keccak256Hash Chain a =
     (case ResolveAttestationRequest H a of
        Inl err \<Rightarrow> ((if err = NilPointer then a else a\<lparr>at_Status := ProcessError\<rparr>), Some err)
      | Inr (responseBytes, confirmed) \<Rightarrow>
          if \<not> confirmed then (a\<lparr>at_Status := Unconfirmed\<rparr>, None)
          else validateResponse A Keccak256Hash Chain (a\<lparr>at_Response := responseBytes\<rparr>))"

definition PrepareRequest ::
  "(bytes \<rightharpoonup> 'arg AttestationType) \<Rightarrow> 'arg Attestation \<Rightarrow> 'arg Attestation \<times> AttError option" where
  "PrepareRequest attestationTypesConfigs a =
     (case Request_AttestationType (at_Request a) of
        Inl err \<Rightarrow> (a\<lparr>at_Status := ProcessError\<rparr>, Some (VerErr err))
      | Inr attType \<Rightarrow>
     (case Request_Source (at_Request a) of
        Inl err \<Rightarrow> (a\<lparr>at_Status := ProcessError\<rparr>, Some (VerErr err))
      | Inr source \<Rightarrow>
     (case attestationTypesConfigs attType of
        None \<Rightarrow> (a\<lparr>at_Status := UnsupportedPair\<rparr>, Some (NoTypeConfig attType))
      | Some cfg \<Rightarrow>
          (let a = a\<lparr>at_ResponseABI := Some (aty_ResponseArguments cfg),
                     at_ResponseABIString := Some (aty_ResponseABIString cfg)\<rparr> in
           case aty_SourcesConfig cfg source of
             None \<Rightarrow> (a\<lparr>at_Status := UnsupportedPair\<rparr>, Some (NoSourceConfig attType source))
           | Some sourceConfig \<Rightarrow>
               (a\<lparr>at_LUTLimit := src_LUTLimit sourceConfig,
                  at_Credentials := Some \<lparr>vc_URL = src_URL sourceConfig, vc_apiKey = src_APIKey sourceConfig\<rparr>,
                  at_QueueName := src_QueueName sourceConfig,
                  at_Status := Processing\<rparr>, None)))))"

section \<open>Positions and bit votes\<close>

text \<open>\<^verbatim>\<open>Index\<close> panics on an attestation without a position (\<open>None\<close>).\<close>

definition Index :: "'arg Attestation \<Rightarrow> IndexLog option" where
  "Index a = (if length (at_Indexes a) > 0 then Some (at_Indexes a ! 0) else None)"

fun bitVoteFrom_loop :: "nat \<Rightarrow> Status list \<Rightarrow> int \<Rightarrow> int" where
  "bitVoteFrom_loop i [] bitVector = bitVector"
| "bitVoteFrom_loop i (s # ss) bitVector =
     bitVoteFrom_loop (Suc i) ss (if s = Success then set_bit i bitVector else bitVector)"

datatype TooMany = MoreThanMax

definition BitVoteFromAttestations :: "'arg Attestation list \<Rightarrow> TooMany + BitVote" where
  "BitVoteFromAttestations attestations =
     (if 65535 < length attestations then Inl MoreThanMax
      else Inr \<lparr>bv_Length = of_nat (length attestations),
                bv_BitVector = bitVoteFrom_loop 0 (map at_Status attestations) 0\<rparr>)"


section \<open>Orders\<close>

interpretation logs: less_order EarlierLog
  by unfold_locales (auto simp: EarlierLog_def split: if_splits)

interpretation weights: less_order Weight_Less
  by unfold_locales (auto simp: Weight_Less_def EarlierLog_def split: if_splits)

lemma EarlierLog_total: "EarlierLog a b \<or> a = b \<or> EarlierLog b a"
  by (auto simp: EarlierLog_def intro: IndexLog.equality)

lemma EarlierLog_trans: "EarlierLog a b \<Longrightarrow> EarlierLog b c \<Longrightarrow> EarlierLog a c"
  by (auto simp: EarlierLog_def split: if_splits)

section \<open>Handling\<close>

text \<open>
  The checked response: the request's integrity code is that of the response, the lowest used
  timestamp is within the limit at the start of the choose phase, and response and hash are the ones
  with the round written in.
\<close>

definition response_ok ::
  "('arg, 'val) abi \<Rightarrow> (bytes \<Rightarrow> bytes) \<Rightarrow> Timing \<Rightarrow> 'arg Attestation \<Rightarrow> bytes \<Rightarrow> bytes \<Rightarrow> bytes \<Rightarrow> bool" where
  "response_ok A K C a raw response hash \<longleftrightarrow>
     (\<exists>mic args lut. Request_MIC (at_Request a) = Inr mic \<and> at_ResponseABI a = Some args \<and>
        Response_ComputeMIC A K raw args = Inr mic \<and> Response_LUT raw = Inr lut \<and>
        validLUT lut (at_LUTLimit a) (ChooseStartTS C (at_RoundID a)) \<and>
        Response_AddRound raw (at_RoundID a) = Inr response \<and> hash = K response)"

definition same_request :: "'arg Attestation \<Rightarrow> 'arg Attestation \<Rightarrow> bool" where
  "same_request a b \<longleftrightarrow>
     at_Request b = at_Request a \<and> at_Fee b = at_Fee a \<and> at_Indexes b = at_Indexes a \<and> at_RoundID b = at_RoundID a \<and>
     at_RoundStatus b = at_RoundStatus a \<and> at_Consensus b = at_Consensus a"

lemma same_request_refl [simp]: "same_request a a"
  by (simp add: same_request_def)

lemma validateResponse_same [frame]: "same_request a (fst (validateResponse A K C a))"
  by (auto simp: validateResponse_def verification_failed_def same_request_def Let_def split: sum.splits option.splits prod.splits)

lemma PrepareRequest_same [frame]: "same_request a (fst (PrepareRequest cfgs a))"
  by (auto simp: PrepareRequest_def same_request_def Let_def split: sum.splits option.splits)

lemma Handle_same [frame]: "same_request a (fst (Handle H A K C a))"
proof -
  have upd: "same_request a (fst (validateResponse A K C (a\<lparr>at_Response := r\<rparr>)))" for r
    using validateResponse_same [of "a\<lparr>at_Response := r\<rparr>" A K C] by (simp add: same_request_def)
  show ?thesis
    by (auto simp: Handle_def upd same_request_def [of a "a\<lparr>at_Status := _\<rparr>"] split: sum.splits)
qed

lemma Response_Hash_Inr:
  "Response_Hash K r n = Inr (r', h) \<longleftrightarrow> Response_AddRound r n = Inr r' \<and> h = K r'"
proof -
  have "128 \<le> length r" if "Response_AddRound r n = Inr r'"
    using that by (simp add: AddRound_iff slot_start_def)
  then show ?thesis by (auto simp: Response_Hash_def split: sum.splits)
qed

lemma validateResponse_Success:
  assumes "validateResponse A K C a = (a', e)" "at_Status a' = Success" "at_Status a \<noteq> Success"
  shows "e = None \<and> response_ok A K C a (at_Response a) (at_Response a') (at_Hash a')"
  using assms
  by (auto simp: validateResponse_def verification_failed_def response_ok_def Let_def Response_Hash_Inr
      split: sum.splits option.splits prod.splits if_splits)

lemma validateResponse_ok:
  assumes "response_ok A K C a (at_Response a) r h"
  shows "validateResponse A K C a = (a\<lparr>at_Response := r, at_Hash := h, at_Status := Success\<rparr>, None)"
proof -
  from assms obtain mic args lut where *: "Request_MIC (at_Request a) = Inr mic" "at_ResponseABI a = Some args"
    "Response_ComputeMIC A K (at_Response a) args = Inr mic" "Response_LUT (at_Response a) = Inr lut"
    "validLUT lut (at_LUTLimit a) (ChooseStartTS C (at_RoundID a))"
    "Response_AddRound (at_Response a) (at_RoundID a) = Inr r" "h = K r"
    unfolding response_ok_def by blast
  then have "Response_Hash K (at_Response a) (at_RoundID a) = Inr (r, h)" by (simp add: Response_Hash_Inr)
  with * show ?thesis by (simp add: validateResponse_def Let_def)
qed

lemma Handle_Success_iff:
  assumes "at_Status a \<noteq> Success"
  shows "at_Status (fst (Handle H A K C a)) = Success \<longleftrightarrow>
     (\<exists>raw r h. ResolveAttestationRequest H a = Inr (raw, True) \<and> response_ok A K C a raw r h \<and>
        Handle H A K C a = (a\<lparr>at_Response := r, at_Hash := h, at_Status := Success\<rparr>, None))"
proof
  assume s: "at_Status (fst (Handle H A K C a)) = Success"
  then obtain raw where raw: "ResolveAttestationRequest H a = Inr (raw, True)"
    using assms by (cases "ResolveAttestationRequest H a") (auto simp: Handle_def split: if_splits)
  let ?a = "a\<lparr>at_Response := raw\<rparr>"
  have h: "Handle H A K C a = validateResponse A K C ?a" using raw by (simp add: Handle_def)
  obtain a' e where v: "validateResponse A K C ?a = (a', e)" by fastforce
  have "response_ok A K C ?a (at_Response ?a) (at_Response a') (at_Hash a')"
    using validateResponse_Success [OF v] s assms by (simp add: h v)
  then have ok: "response_ok A K C a raw (at_Response a') (at_Hash a')" by (simp add: response_ok_def)
  then have "validateResponse A K C ?a = (a\<lparr>at_Response := at_Response a', at_Hash := at_Hash a', at_Status := Success\<rparr>, None)"
    using validateResponse_ok [of A K C ?a "at_Response a'" "at_Hash a'"] by (simp add: response_ok_def)
  with raw ok h show "\<exists>raw r h. ResolveAttestationRequest H a = Inr (raw, True) \<and> response_ok A K C a raw r h \<and>
        Handle H A K C a = (a\<lparr>at_Response := r, at_Hash := h, at_Status := Success\<rparr>, None)"
    by (intro exI [of _ raw] exI [of _ "at_Response a'"] exI [of _ "at_Hash a'"]) simp
next
  assume "\<exists>raw r h. ResolveAttestationRequest H a = Inr (raw, True) \<and> response_ok A K C a raw r h \<and>
        Handle H A K C a = (a\<lparr>at_Response := r, at_Hash := h, at_Status := Success\<rparr>, None)"
  then show "at_Status (fst (Handle H A K C a)) = Success" by auto
qed

section \<open>The bit vote of a list of attestations\<close>

lemma bit_bitVoteFrom_loop:
  "bit (bitVoteFrom_loop i ss bv) n \<longleftrightarrow> bit bv n \<or> (i \<le> n \<and> n < i + length ss \<and> ss ! (n - i) = Success)"
proof (induction i ss bv rule: bitVoteFrom_loop.induct)
  case (2 i s ss bv)
  have "(n = i \<and> s = Success) \<or> (Suc i \<le> n \<and> n < Suc i + length ss \<and> ss ! (n - Suc i) = Success) \<longleftrightarrow>
      i \<le> n \<and> n < i + length (s # ss) \<and> (s # ss) ! (n - i) = Success"
    by (cases "n = i") (auto simp: nth_Cons' not_le Suc_diff_Suc)
  with 2 show ?case by (auto simp: bit_simps)
qed auto

lemma bitVoteFrom_loop_nonneg: "0 \<le> bv \<Longrightarrow> 0 \<le> bitVoteFrom_loop i ss bv"
  by (induction i ss bv rule: bitVoteFrom_loop.induct) auto

lemma BitVoteFromAttestations_bits:
  assumes "BitVoteFromAttestations as = Inr b"
  shows "unat (bv_Length b) = length as" "wf_BitVote b"
    "bit (bv_BitVector b) i \<longleftrightarrow> i < length as \<and> at_Status (as ! i) = Success"
proof -
  have b: "length as \<le> 65535" "b = \<lparr>bv_Length = of_nat (length as), bv_BitVector = bitVoteFrom_loop 0 (map at_Status as) 0\<rparr>"
    using assms by (auto simp: BitVoteFromAttestations_def split: if_splits)
  show len: "unat (bv_Length b) = length as" using b by (simp add: unsigned_of_nat take_bit_nat_eq_self)
  show bits: "bit (bv_BitVector b) i \<longleftrightarrow> i < length as \<and> at_Status (as ! i) = Success" for i
    using b by (auto simp: bit_bitVoteFrom_loop)
  have nn: "0 \<le> bv_BitVector b" using b by (simp add: bitVoteFrom_loop_nonneg)
  then show "wf_BitVote b" using BitLen_le_bits [OF nn, of "length as"] bits len by (simp add: wf_BitVote_def)
qed

section \<open>Properties\<close>

text \<open>
  C11. An attestation becomes confirmed exactly when the verifier answers with a response whose integrity
  code is the request's, whose lowest used timestamp is within the limit at the start of the choose phase
  and in which the round can be written; then it stores that response with the round written in and its
  hash, and nothing else changes.
\<close>

theorem handle_confirms:
  assumes "at_Status a \<noteq> Success"
  shows "at_Status (fst (Handle H A K C a)) = Success \<longleftrightarrow>
     (\<exists>raw r h. ResolveAttestationRequest H a = Inr (raw, True) \<and> response_ok A K C a raw r h \<and>
        Handle H A K C a = (a\<lparr>at_Response := r, at_Hash := h, at_Status := Success\<rparr>, None))"
  by (rule Handle_Success_iff [OF assms])

text \<open>A verifier, an ABI coder and a hash for the examples, and an attestation as \<^verbatim>\<open>PrepareRequest\<close> leaves it.\<close>

definition sample_http :: http where
  "sample_http = \<lparr>http_NewRequest = (\<lambda>url. True),
     http_Do = (\<lambda>url key body. Some (200, Some (''VALID'', ''0x'' @ hex_EncodeToString (replicate 127 0 @ [100]))))\<rparr>"

definition sample_abi :: "(nat, nat) abi" where
  "sample_abi = \<lparr>abi_Unpack = (\<lambda>args r. Some [1]), abi_Pack = (\<lambda>args vals. Some (replicate 32 5)), abi_stringArgument = 0,
     abi_stringValue = (\<lambda>s. 2)\<rparr>"

definition sample_attestation :: "nat Attestation" where
  "sample_attestation =
     \<lparr>at_Indexes = [\<lparr>il_BlockNumber = 7, il_LogIndex = 1\<rparr>], at_RoundID = 0, at_RoundStatus = OwnStatus PreConsensus,
      at_Request = replicate 96 5, at_Response = [], at_Fee = 3, at_Status = Processing, at_Consensus = False,
      at_Hash = replicate 32 0, at_ResponseABI = Some [0], at_ResponseABIString = Some [], at_LUTLimit = 1700000000, at_QueueName = [],
      at_Credentials = Some \<lparr>vc_URL = [], vc_apiKey = []\<rparr>\<rparr>"

theorem handle_confirms_witness:
  "\<exists>raw r h. ResolveAttestationRequest sample_http sample_attestation = Inr (raw, True) \<and>
     response_ok sample_abi (take 32) Chain_default sample_attestation raw r h"
proof -
  have "at_Status sample_attestation \<noteq> Success" by (simp add: sample_attestation_def)
  moreover have "at_Status (fst (Handle sample_http sample_abi (take 32) Chain_default sample_attestation)) = Success"
  proof -
    have "ResolveAttestationRequest sample_http sample_attestation = Inr (replicate 127 0 @ [100], True)"
      by (simp add: ResolveAttestationRequest_def sample_http_def sample_attestation_def TrimPrefix_def del: replicate.simps)
    moreover have "at_Status (fst (validateResponse sample_abi (take 32) Chain_default
        (sample_attestation\<lparr>at_Response := replicate 127 0 @ [100]\<rparr>))) = Success"
      by code_simp
    ultimately show ?thesis by (simp add: Handle_def)
  qed
  ultimately show ?thesis using handle_confirms by blast
qed


end
