(* ===== verification/BB_Value.thy ===== *)
theory BB_Value
  imports BitVote
begin

text \<open>
  The value of a candidate consensus (\<^verbatim>\<open>branchAndBoundBits.go\<close>: \<^verbatim>\<open>Value\<close>, \<^verbatim>\<open>Cmp\<close>, \<^verbatim>\<open>CalcValue\<close>) and
  the aggregated bits and votes with the comparators that sort them (\<^verbatim>\<open>preprocess.go\<close>,
  \<^verbatim>\<open>branchAndBoundBits.go\<close>, \<^verbatim>\<open>branchAndBoundVotes.go\<close>).

  The cap on the weight is computed by the code in \<^verbatim>\<open>float64\<close>: the constant \<^verbatim>\<open>4.0 / 5.0\<close> is the double
  \<open>7205759403792794 / 2^53\<close>, the product is rounded to 53 significant bits, half to even, and
  \<^verbatim>\<open>math.Ceil\<close> is applied. The model keeps this arithmetic on integers scaled by \<open>2^53\<close>, and
  \<open>weightCap_exact\<close> shows that it is the exact \<open>\<lceil>4/5 * total\<rceil>\<close> for every \<^verbatim>\<open>uint16\<close>.
\<close>

section \<open>Values and their order\<close>

datatype Value = Value (CappedValue: int) (UncappedValue: int)

definition Value_Copy :: "Value \<Rightarrow> Value" where
  "Value_Copy v = Value (CappedValue v) (UncappedValue v)"

definition Value_Cmp :: "Value \<Rightarrow> Value \<Rightarrow> int" where
  "Value_Cmp v0 v1 =
     (let firstCompare = big_Cmp (CappedValue v0) (CappedValue v1)
      in if firstCompare \<noteq> 0 then firstCompare else big_Cmp (UncappedValue v0) (UncappedValue v1))"

instantiation Value :: linorder
begin

definition less_eq_Value :: "Value \<Rightarrow> Value \<Rightarrow> bool" where
  "v \<le> w \<longleftrightarrow> CappedValue v < CappedValue w \<or>
     CappedValue v = CappedValue w \<and> UncappedValue v \<le> UncappedValue w"

definition less_Value :: "Value \<Rightarrow> Value \<Rightarrow> bool" where
  "v < w \<longleftrightarrow> CappedValue v < CappedValue w \<or>
     CappedValue v = CappedValue w \<and> UncappedValue v < UncappedValue w"

instance
  by standard (auto simp: less_eq_Value_def less_Value_def intro: Value.expand)

end

lemma Value_Copy_id [simp]: "Value_Copy v = v"
  by (simp add: Value_Copy_def)

lemma Value_Cmp_one [simp]: "Value_Cmp v w = 1 \<longleftrightarrow> w < v"
  by (auto simp: Value_Cmp_def big_Cmp_def Let_def less_Value_def)

lemma Value_Cmp_minus_one [simp]: "Value_Cmp v w = -1 \<longleftrightarrow> v < w"
  by (auto simp: Value_Cmp_def big_Cmp_def Let_def less_Value_def)

lemma Value_Cmp_zero [simp]: "Value_Cmp v w = 0 \<longleftrightarrow> v = w"
  by (cases v; cases w) (auto simp: Value_Cmp_def big_Cmp_def Let_def)

lemma Value_Cmp_sign: "Value_Cmp v w = (if v < w then -1 else if v = w then 0 else 1)"
  by (cases v; cases w) (auto simp: Value_Cmp_def big_Cmp_def Let_def less_Value_def)

section \<open>The value of a set of bits with a weight\<close>

definition valueCap_mantissa :: nat where
  "valueCap_mantissa = 7205759403792794"

definition float64_round :: "nat \<Rightarrow> nat" where
  "float64_round n =
     (let e = nat_bitlen n - 53 in
      if e = 0 then n
      else let q = n div 2 ^ e; r = n mod 2 ^ e; half = 2 ^ (e - 1)
           in (if half < r \<or> (r = half \<and> odd q) then q + 1 else q) * 2 ^ e)"

definition math_Ceil53 :: "nat \<Rightarrow> nat" where
  "math_Ceil53 n = (n + (2 ^ 53 - 1)) div 2 ^ 53"

definition weightCap :: "u16 \<Rightarrow> int" where
  "weightCap totalWeight = int (math_Ceil53 (float64_round (unat totalWeight * valueCap_mantissa)))"

definition CalcValue :: "int \<Rightarrow> u16 \<Rightarrow> u16 \<Rightarrow> Value" where
  "CalcValue feeSum weight totalWeight =
     (let weightCaped = min (weightCap totalWeight) (int (unat weight))
      in Value (feeSum * weightCaped) (feeSum * int (unat weight)))"

text \<open>The specification the code rounds towards: exact arithmetic on natural weights.\<close>

definition value_of :: "int \<Rightarrow> nat \<Rightarrow> nat \<Rightarrow> Value" where
  "value_of fee w T = Value (fee * min (int ((4 * T + 4) div 5)) (int w)) (fee * int w)"

lemma valueCap_times_5: "5 * valueCap_mantissa = 2 ^ 55 + 2"
  by (simp add: valueCap_mantissa_def)

lemma float64_round_exact: "n < 2 ^ 53 \<Longrightarrow> float64_round n = n"
  using nat_bitlen_le_iff [of n 53] by (simp add: float64_round_def)

text \<open>A multiple of \<open>2^53\<close> plus less than half a unit in the last place is rounded down to it.\<close>

lemma float64_round_down:
  assumes "0 < m" "m < 2 ^ 53" "2 * d < 2 ^ nat_bitlen m" "d < 2 ^ 53"
  shows "float64_round (m * 2 ^ 53 + d) = m * 2 ^ 53"
proof -
  let ?e = "nat_bitlen m"
  have e: "0 < ?e" "?e \<le> 53"
    using assms(1,2) by (simp_all add: nat_bitlen_pos nat_bitlen_le_iff)
  have m: "2 ^ (?e - 1) \<le> m" "m < 2 ^ ?e"
    by (rule nat_bitlen_ge_power [OF assms(1)], rule less_two_power_nat_bitlen)
  have "nat_bitlen (m * 2 ^ 53 + d) = Suc (?e - 1 + 53)"
  proof (rule nat_bitlen_unique)
    have "2 ^ (?e - 1 + 53) = (2 ^ (?e - 1) * 2 ^ 53 :: nat)" by (rule power_add)
    also have "\<dots> \<le> m * 2 ^ 53" using m(1) by (rule mult_le_mono1)
    finally show "2 ^ (?e - 1 + 53) \<le> m * 2 ^ 53 + d" by simp
    have "m * 2 ^ 53 + d < (m + 1) * 2 ^ 53" using assms(4) by simp
    also have "\<dots> \<le> 2 ^ ?e * 2 ^ 53" using m(2) by (intro mult_le_mono1) simp
    also have "\<dots> = 2 ^ (?e + 53)" by (rule power_add [symmetric])
    also have "\<dots> = 2 ^ Suc (?e - 1 + 53)" using e(1) by simp
    finally show "m * 2 ^ 53 + d < 2 ^ Suc (?e - 1 + 53)" .
  qed
  then have bl: "nat_bitlen (m * 2 ^ 53 + d) - 53 = ?e" using e by simp
  have half: "(2 :: nat) ^ ?e = 2 * 2 ^ (?e - 1)" using e(1) by (cases ?e) auto
  have split: "(2 :: nat) ^ 53 = 2 ^ (53 - ?e) * 2 ^ ?e"
    using e(2) power_add [of "2 :: nat" "53 - ?e" ?e] by simp
  have d: "d < 2 ^ (?e - 1)" using assms(3) half by simp
  then have d': "d < 2 ^ ?e" using half by simp
  have eq: "m * 2 ^ 53 + d = d + m * 2 ^ (53 - ?e) * 2 ^ ?e" by (simp only: split mult.assoc add.commute)
  have "(m * 2 ^ 53 + d) div 2 ^ ?e = m * 2 ^ (53 - ?e)" and "(m * 2 ^ 53 + d) mod 2 ^ ?e = d"
    unfolding eq using d' by simp_all
  then show ?thesis
    unfolding float64_round_def Let_def bl using e(1) d split by simp
qed

text \<open>Rounding moves a product of the client (below \<open>2^69\<close>) by at most \<open>2^15\<close> units of \<open>2^-53\<close>.\<close>

lemma float64_round_near:
  assumes "n < 2 ^ 69"
  shows "n \<le> float64_round n + 2 ^ 15" and "float64_round n \<le> n + 2 ^ 15"
proof -
  define e where "e = nat_bitlen n - 53"
  have "e \<le> 16" using nat_bitlen_le_iff [of n 69] assms by (simp add: e_def)
  then have step: "e = 0 \<or> 2 ^ e = 2 * (2 :: nat) ^ (e - 1) \<and> 2 ^ (e - 1) \<le> (2 :: nat) ^ 15"
    by (cases e) (auto intro!: power_increasing simp del: power_numeral)
  define q r where "q = n div 2 ^ e" and "r = n mod 2 ^ e"
  have n: "n = q * 2 ^ e + r" by (simp only: q_def r_def div_mult_mod_eq)
  have r: "r < 2 ^ e" by (simp add: r_def)
  define A E H where "A = q * 2 ^ e" and "E = (2 :: nat) ^ e" and "H = (2 :: nat) ^ (e - 1)"
  have up: "(q + 1) * 2 ^ e = A + E" by (simp add: A_def E_def)
  have round: "float64_round n = (if e = 0 then n else if H < r \<or> (r = H \<and> odd q) then A + E else A)"
    unfolding float64_round_def Let_def e_def [symmetric] q_def [symmetric] r_def [symmetric]
    using up by (simp add: A_def H_def)
  have "e = 0 \<or> E = 2 * H \<and> H \<le> 2 ^ 15" "n = A + r" "r < E"
    using step n r by (simp_all add: A_def E_def H_def)
  then show "n \<le> float64_round n + 2 ^ 15" and "float64_round n \<le> n + 2 ^ 15"
    unfolding round by auto
qed

lemma math_Ceil53_eqI: "(M - 1) * 2 ^ 53 < n \<Longrightarrow> n \<le> M * 2 ^ 53 \<Longrightarrow> 0 < M \<Longrightarrow> math_Ceil53 n = M"
  unfolding math_Ceil53_def by (rule div_nat_eqI) (auto simp: algebra_simps)

lemma weightCap_exact: "weightCap totalWeight = int ((4 * unat totalWeight + 4) div 5)"
proof -
  define T k r where "T = unat totalWeight" and "k = T div 5" and "r = T mod 5"
  have T: "T < 65536" "T = 5 * k + r" "r < 5" by (simp_all add: T_def k_def r_def)
  have p5: "5 * (T * valueCap_mantissa) = 4 * T * 2 ^ 53 + 2 * T"
    by (simp add: valueCap_mantissa_def)
  have "math_Ceil53 (float64_round (T * valueCap_mantissa)) = (4 * T + 4) div 5"
  proof (cases "r = 0")
    case True
    with T p5 have p: "T * valueCap_mantissa = 4 * k * 2 ^ 53 + 2 * k" by simp
    have "float64_round (T * valueCap_mantissa) = 4 * k * 2 ^ 53"
    proof (cases "k = 0")
      case False
      then show ?thesis
        unfolding p using T less_two_power_nat_bitlen [of "4 * k"]
        by (intro float64_round_down) auto
    qed (use T True in \<open>simp add: float64_round_exact\<close>)
    moreover have "math_Ceil53 (4 * k * 2 ^ 53) = 4 * k" by (simp add: math_Ceil53_def)
    moreover have "(4 * T + 4) div 5 = 4 * k" using True T by simp
    ultimately show ?thesis by simp
  next
    case False
    define M where "M = (4 * T + 4) div 5"
    have "r = 1 \<or> r = 2 \<or> r = 3 \<or> r = 4" using T(3) False by auto
    then have M: "5 * M = 4 * T + r" unfolding M_def T(2) by (elim disjE; presburger)
    define P n where "P = T * valueCap_mantissa" and "n = float64_round P"
    have "P < 2 ^ 69" using T(1) by (simp add: P_def valueCap_mantissa_def)
    from float64_round_near [OF this] have near: "P \<le> n + 32768" "n \<le> P + 32768"
      by (simp_all add: n_def)
    have p: "5 * P = 36028797018963968 * T + 2 * T" using p5 by (simp add: P_def)
    obtain M' where M': "M = Suc M'" using M T False by (cases M) auto
    have "M' * 9007199254740992 < n" using near p M M' T False by linarith
    moreover have "n \<le> M * 9007199254740992" using near p M T False by linarith
    ultimately have "(M - 1) * 2 ^ 53 < n" and "n \<le> M * 2 ^ 53" by (simp_all add: M')
    then show ?thesis
      unfolding P_def [symmetric] n_def [symmetric] M_def [symmetric] using M'
      by (intro math_Ceil53_eqI) simp_all
  qed
  then show ?thesis by (simp add: weightCap_def T_def)
qed

text \<open>For evaluation: the cap without going through unary numbers.\<close>

lemma weightCap_code [code]: "weightCap totalWeight = (4 * uint totalWeight + 4) div 5"
  by (simp only: weightCap_exact zdiv_int of_nat_add of_nat_mult of_nat_numeral uint_nat)

lemma CalcValue_exact: "CalcValue fee w T = value_of fee (unat w) (unat T)"
  by (simp add: CalcValue_def value_of_def weightCap_exact Let_def)

text \<open>The value grows with the fee and with the weight: the bound of a branch bounds its leaves.\<close>

lemma value_of_mono:
  assumes "0 \<le> fee" "fee \<le> fee'" "w \<le> w'"
  shows "value_of fee w T \<le> value_of fee' w' T"
proof -
  let ?c = "\<lambda>w. min (int ((4 * T + 4) div 5)) (int w)"
  have "fee * ?c w \<le> fee' * ?c w'" using assms by (intro mult_mono) auto
  moreover have "fee * int w \<le> fee' * int w'" using assms by (intro mult_mono) auto
  ultimately show ?thesis by (auto simp: value_of_def less_eq_Value_def)
qed

section \<open>Aggregated bits and votes, and the orders they are explored in\<close>

record AggregatedBit =
  ab_Fee :: int
  ab_Indexes :: "nat list"
  ab_Support :: u16
  ab_value :: "Value option"

record AggregatedVote =
  av_BitVector :: int
  av_Weight :: u16
  av_Indexes :: "nat list"
  av_Fees :: int

text \<open>
  \<^verbatim>\<open>AggregatedBit.Value\<close> with its cache: the result and the bit as it is left behind. A \<^verbatim>\<open>nil\<close>
  \<^verbatim>\<open>CappedValue\<close> (nothing cached) is \<open>None\<close>.
\<close>

definition AggregatedBit_Value :: "AggregatedBit \<Rightarrow> u16 \<Rightarrow> bool \<Rightarrow> Value \<times> AggregatedBit" where
  "AggregatedBit_Value f totalWeight cache =
     (case (cache, ab_value f) of
        (True, Some v) \<Rightarrow> (v, f)
      | (True, None) \<Rightarrow>
          (let v = CalcValue (ab_Fee f) (ab_Support f) totalWeight in (v, f\<lparr>ab_value := Some v\<rparr>))
      | (False, _) \<Rightarrow> (CalcValue (ab_Fee f) (ab_Support f) totalWeight, f))"

definition cmpVal :: "u16 \<Rightarrow> int \<Rightarrow> AggregatedBit \<Rightarrow> AggregatedBit \<Rightarrow> int" where
  "cmpVal totalWeight sign bit0 bit1 =
     (let val0 = fst (AggregatedBit_Value bit0 totalWeight True);
          val1 = fst (AggregatedBit_Value bit1 totalWeight True);
          cmp = Value_Cmp val0 val1
      in if cmp \<noteq> 0 then sign * cmp
         else if hd (ab_Indexes bit0) < hd (ab_Indexes bit1) then -1
         else if hd (ab_Indexes bit1) < hd (ab_Indexes bit0) then 1
         else 0)"

definition cmpValAsc :: "u16 \<Rightarrow> AggregatedBit \<Rightarrow> AggregatedBit \<Rightarrow> int" where
  "cmpValAsc totalWeight = cmpVal totalWeight 1"

definition cmpValDsc :: "u16 \<Rightarrow> AggregatedBit \<Rightarrow> AggregatedBit \<Rightarrow> int" where
  "cmpValDsc totalWeight = cmpVal totalWeight (-1)"

definition sortFees :: "AggregatedBit list \<Rightarrow> (AggregatedBit \<Rightarrow> AggregatedBit \<Rightarrow> int) \<Rightarrow> AggregatedBit list" where
  "sortFees bits sortFunc = SortStableFunc sortFunc bits"

definition CalcValueVote :: "int \<Rightarrow> u16 \<Rightarrow> int" where
  "CalcValueVote feeSum weight = feeSum * int (unat weight)"

definition cmpValVote :: "int \<Rightarrow> AggregatedVote \<Rightarrow> AggregatedVote \<Rightarrow> int" where
  "cmpValVote sign vote0 vote1 =
     (let val0 = CalcValueVote (av_Fees vote0) (av_Weight vote0);
          val1 = CalcValueVote (av_Fees vote1) (av_Weight vote1);
          cmp = big_Cmp val0 val1
      in if cmp \<noteq> 0 then sign * cmp
         else if hd (av_Indexes vote0) < hd (av_Indexes vote1) then -1
         else if hd (av_Indexes vote1) < hd (av_Indexes vote0) then 1
         else 0)"

definition cmpValVoteAsc :: "AggregatedVote \<Rightarrow> AggregatedVote \<Rightarrow> int" where
  "cmpValVoteAsc = cmpValVote 1"

definition cmpValVoteDsc :: "AggregatedVote \<Rightarrow> AggregatedVote \<Rightarrow> int" where
  "cmpValVoteDsc = cmpValVote (-1)"

definition sortVotes :: "AggregatedVote list \<Rightarrow> (AggregatedVote \<Rightarrow> AggregatedVote \<Rightarrow> int) \<Rightarrow> AggregatedVote list" where
  "sortVotes votes sortFunc = SortStableFunc sortFunc votes"

text \<open>
  The cache never changes what is compared: on bits whose cache is empty or was filled for the same
  total weight, the cached read is the computed value and leaves such a bit behind.
\<close>

definition cache_ok :: "u16 \<Rightarrow> AggregatedBit \<Rightarrow> bool" where
  "cache_ok T f \<longleftrightarrow> (case ab_value f of None \<Rightarrow> True | Some v \<Rightarrow> v = CalcValue (ab_Fee f) (ab_Support f) T)"

lemma AggregatedBit_Value_cached:
  assumes "cache_ok T f"
  shows "fst (AggregatedBit_Value f T c) = CalcValue (ab_Fee f) (ab_Support f) T"
    and "cache_ok T (snd (AggregatedBit_Value f T c))"
  using assms by (auto simp: AggregatedBit_Value_def cache_ok_def Let_def split: option.splits bool.splits)

lemma cmpVal_cache_irrelevant:
  assumes "cache_ok T f" "cache_ok T g"
  shows "cmpVal T s (snd (AggregatedBit_Value f T c)) (snd (AggregatedBit_Value g T d)) = cmpVal T s f g"
proof -
  have idx: "ab_Indexes (snd (AggregatedBit_Value h T c)) = ab_Indexes h" for h c
    by (simp add: AggregatedBit_Value_def Let_def split: option.splits bool.splits)
  have "fst (AggregatedBit_Value (snd (AggregatedBit_Value h T c)) T True) = fst (AggregatedBit_Value h T True)"
    if "cache_ok T h" for h c
    using that by (auto simp: AggregatedBit_Value_def cache_ok_def Let_def split: option.splits bool.splits)
  with assms show ?thesis by (simp add: cmpVal_def idx)
qed

lemma cmpVal_cases:
  "cmpVal T s a b =
     (let v = fst (AggregatedBit_Value a T True); w = fst (AggregatedBit_Value b T True);
          i = hd (ab_Indexes a); j = hd (ab_Indexes b)
      in if v < w then - s else if w < v then s else if i < j then -1 else if j < i then 1 else 0)"
  by (auto simp: cmpVal_def Let_def Value_Cmp_sign)

lemma cmpValVote_cases:
  "cmpValVote s a b =
     (let v = CalcValueVote (av_Fees a) (av_Weight a); w = CalcValueVote (av_Fees b) (av_Weight b);
          i = hd (av_Indexes a); j = hd (av_Indexes b)
      in if v < w then - s else if w < v then s else if i < j then -1 else if j < i then 1 else 0)"
  by (auto simp: cmpValVote_def Let_def big_Cmp_def)

interpretation bitsAsc: comparator "cmpValAsc T" for T
  by unfold_locales (auto simp: cmpValAsc_def cmpVal_cases Let_def split: if_splits)

interpretation bitsDsc: comparator "cmpValDsc T" for T
  by unfold_locales (auto simp: cmpValDsc_def cmpVal_cases Let_def split: if_splits)

interpretation votesAsc: comparator cmpValVoteAsc
  by unfold_locales (auto simp: cmpValVoteAsc_def cmpValVote_cases Let_def split: if_splits)

interpretation votesDsc: comparator cmpValVoteDsc
  by unfold_locales (auto simp: cmpValVoteDsc_def cmpValVote_cases Let_def split: if_splits)

section \<open>Properties\<close>

text \<open>
  C24. \<^verbatim>\<open>CalcValue\<close> agrees with exact arithmetic: the cap that the code computes with 64-bit floating point
  as \<^verbatim>\<open>math.Ceil(float64(totalWeight) * 0.8)\<close> is, for each of the 65536 total weights, four fifths of
  the total weight rounded up, so that no rounding error reaches the value of a solution.
\<close>

theorem calc_value_exact:
  "CalcValue fee w T =
     Value (fee * min (int ((4 * unat T + 4) div 5)) (int (unat w))) (fee * int (unat w))"
  by (simp add: CalcValue_exact value_of_def)

end
