(* ===== verification/BB_Search.thy ===== *)
theory BB_Search
  imports BB_Value
begin

text \<open>
  What the two branch-and-bound searches share: the structures of \<^verbatim>\<open>branchAndBoundBits.go\<close> and
  \<^verbatim>\<open>ensemble.go\<close> (status, process info, partial and final solutions), and the contract both recursions
  meet.

  A search walks a binary tree of a fixed depth. At a node it may exclude or include the element of
  that depth; each choice can be impossible. \<open>bb_node\<close> is one call of such a recursion with the
  recursive call as a parameter: count the call, answer at a leaf, stop when the operation budget is
  used up or when the bound of the node does not beat the best value found so far, otherwise visit
  the two branches in the configured order and join their results. The locale \<open>branch_search\<close> says
  that a concrete recursion is of this shape and that bounds decrease along branches; its lemmas are
  soundness (what is returned is a solution of the tree that beats the bound it started from) and,
  if the budget was not used up, optimality.
\<close>

record SharedStatus =
  ss_CurrentBound :: Value
  ss_NumOperations :: int

record ProcessInfo =
  pi_TotalWeight :: u16
  pi_LowerBoundWeight :: u16
  pi_BitVotes :: "AggregatedVote list"
  pi_Bits :: "AggregatedBit list"
  pi_NumAttestations :: nat
  pi_NumProviders :: nat
  pi_MaxOperations :: int
  pi_ExcludeFirst :: bool

record branchAndBoundPartialSolution =
  ps_Votes :: "nat list"
  ps_Bits :: "nat list"
  ps_Value :: Value

record ConsensusSolution =
  cs_Votes :: "AggregatedVote list"
  cs_Bits :: "AggregatedBit list"
  cs_Value :: Value
  cs_Optimal :: bool

abbreviation add_operations :: "SharedStatus \<Rightarrow> int \<Rightarrow> SharedStatus" where
  "add_operations st n \<equiv> st\<lparr>ss_NumOperations := ss_NumOperations st + n\<rparr>"

section \<open>One node of a search, and the solutions of its tree\<close>

definition bb_visit ::
  "(SharedStatus \<Rightarrow> 'x \<Rightarrow> SharedStatus \<times> 'r option) \<Rightarrow> int \<Rightarrow> 'x option \<Rightarrow> SharedStatus \<Rightarrow> SharedStatus \<times> 'r option" where
  "bb_visit rec c child st =
     (case child of None \<Rightarrow> (add_operations st c, None) | Some y \<Rightarrow> rec (add_operations st c) y)"

definition bb_join :: "('r \<Rightarrow> Value) \<Rightarrow> ('r \<Rightarrow> 'r) \<Rightarrow> 'r option \<Rightarrow> 'r option \<Rightarrow> 'r option" where
  "bb_join rval add r0 r1 =
     (case (r0, r1) of
        (None, None) \<Rightarrow> None
      | (Some a, None) \<Rightarrow> Some a
      | (None, Some b) \<Rightarrow> Some (add b)
      | (Some a, Some b) \<Rightarrow> if rval a < rval b then Some (add b) else Some a)"

definition bb_node ::
  "nat \<Rightarrow> int \<Rightarrow> bool \<Rightarrow> ('x \<Rightarrow> Value) \<Rightarrow> (nat \<Rightarrow> 'x \<Rightarrow> 'x option) \<Rightarrow> (nat \<Rightarrow> 'x \<Rightarrow> 'x option) \<Rightarrow>
   int \<Rightarrow> (nat \<Rightarrow> 'x \<Rightarrow> int) \<Rightarrow> ('x \<Rightarrow> 'r) \<Rightarrow> (nat \<Rightarrow> 'r \<Rightarrow> 'r) \<Rightarrow> ('r \<Rightarrow> Value) \<Rightarrow>
   (SharedStatus \<Rightarrow> nat \<Rightarrow> 'x \<Rightarrow> SharedStatus \<times> 'r option) \<Rightarrow>
   SharedStatus \<Rightarrow> nat \<Rightarrow> 'x \<Rightarrow> SharedStatus \<times> 'r option" where
  "bb_node depth maxops exclFirst ub excl incl ecost icost mk add rval rec st k x =
     (let st = add_operations st 1 in
      if depth \<le> k then
        (if ss_CurrentBound st < ub x then (st\<lparr>ss_CurrentBound := ub x\<rparr>, Some (mk x)) else (st, None))
      else if maxops \<le> ss_NumOperations st then (st, None)
      else if \<not> ss_CurrentBound st < ub x then (st, None)
      else if exclFirst then
        (let (st, r0) = bb_visit (\<lambda>st. rec st (Suc k)) ecost (excl k x) st;
             (st, r1) = bb_visit (\<lambda>st. rec st (Suc k)) (icost k x) (incl k x) st
         in (st, bb_join rval (add k) r0 r1))
      else
        (let (st, r1) = bb_visit (\<lambda>st. rec st (Suc k)) (icost k x) (incl k x) st;
             (st, r0) = bb_visit (\<lambda>st. rec st (Suc k)) ecost (excl k x) st
         in (st, bb_join rval (add k) r0 r1)))"

inductive bb_solution ::
  "nat \<Rightarrow> (nat \<Rightarrow> 'x \<Rightarrow> 'x option) \<Rightarrow> (nat \<Rightarrow> 'x \<Rightarrow> 'x option) \<Rightarrow> ('x \<Rightarrow> 'r) \<Rightarrow> (nat \<Rightarrow> 'r \<Rightarrow> 'r) \<Rightarrow>
   nat \<Rightarrow> 'x \<Rightarrow> 'r \<Rightarrow> bool"
  for depth excl incl mk add where
  bb_leaf: "depth \<le> k \<Longrightarrow> bb_solution depth excl incl mk add k x (mk x)"
| bb_exclude: "k < depth \<Longrightarrow> excl k x = Some y \<Longrightarrow> bb_solution depth excl incl mk add (Suc k) y r \<Longrightarrow>
     bb_solution depth excl incl mk add k x r"
| bb_include: "k < depth \<Longrightarrow> incl k x = Some y \<Longrightarrow> bb_solution depth excl incl mk add (Suc k) y r \<Longrightarrow>
     bb_solution depth excl incl mk add k x (add k r)"

inductive_cases bb_solution_nodeE: "bb_solution depth excl incl mk add k x r"

lemma bb_solution_leaf_iff: "depth \<le> k \<Longrightarrow> bb_solution depth excl incl mk add k x r \<longleftrightarrow> r = mk x"
  by (auto elim: bb_solution_nodeE intro: bb_solution.bb_leaf)

section \<open>The contract of a branch-and-bound search\<close>

text \<open>What one call promises about the status it leaves and the result it returns.\<close>

definition bb_found ::
  "('r \<Rightarrow> Value) \<Rightarrow> ('r \<Rightarrow> bool) \<Rightarrow> SharedStatus \<Rightarrow> SharedStatus \<times> 'r option \<Rightarrow> bool" where
  "bb_found rval P st out \<longleftrightarrow>
     ss_NumOperations st \<le> ss_NumOperations (fst out) \<and>
     (case snd out of
        None \<Rightarrow> ss_CurrentBound (fst out) = ss_CurrentBound st
      | Some r \<Rightarrow> P r \<and> ss_CurrentBound st < rval r \<and> ss_CurrentBound (fst out) = rval r)"

lemma bb_found_None [simp]:
  "bb_found rval P st (st', None) \<longleftrightarrow>
     ss_NumOperations st \<le> ss_NumOperations st' \<and> ss_CurrentBound st' = ss_CurrentBound st"
  by (simp add: bb_found_def)

lemma bb_found_Some [simp]:
  "bb_found rval P st (st', Some r) \<longleftrightarrow>
     ss_NumOperations st \<le> ss_NumOperations st' \<and> P r \<and> ss_CurrentBound st < rval r \<and>
     ss_CurrentBound st' = rval r"
  by (simp add: bb_found_def)

lemma bb_found_bound_mono:
  "bb_found rval P st out \<Longrightarrow> ss_CurrentBound st \<le> ss_CurrentBound (fst out)"
  by (auto simp: bb_found_def split: option.splits)

lemma bb_found_operations_mono:
  "bb_found rval P st out \<Longrightarrow> ss_NumOperations st \<le> ss_NumOperations (fst out)"
  by (simp add: bb_found_def)

lemma bb_visit_found:
  assumes "0 \<le> c"
    and "\<And>st y. child = Some y \<Longrightarrow> bb_found rval (P y) st (rec st y)"
  shows "bb_found rval (\<lambda>r. \<exists>y. child = Some y \<and> P y r) st (bb_visit rec c child st)"
proof (cases child)
  case None
  with assms(1) show ?thesis by (simp add: bb_visit_def)
next
  case (Some y)
  then have "bb_found rval (P y) (add_operations st c) (rec (add_operations st c) y)" by (rule assms(2))
  with Some assms(1) show ?thesis
    by (auto simp: bb_visit_def bb_found_def split: option.splits)
qed

text \<open>Joining two visits made one after the other, in either order, keeps the contract.\<close>

lemma bb_join_found_excl_first:
  assumes "bb_found rval P st (st1, r0)" "bb_found rval Q st1 (st2, r1)"
    and "\<And>r. rval (add r) = rval r"
  shows "bb_found rval (\<lambda>r. P r \<or> (\<exists>q. Q q \<and> r = add q)) st (st2, bb_join rval add r0 r1)"
  using assms by (cases r0; cases r1) (auto simp: bb_join_def)

lemma bb_join_found_incl_first:
  assumes "bb_found rval Q st (st1, r1)" "bb_found rval P st1 (st2, r0)"
    and "\<And>r. rval (add r) = rval r"
  shows "bb_found rval (\<lambda>r. P r \<or> (\<exists>q. Q q \<and> r = add q)) st (st2, bb_join rval add r0 r1)"
  using assms by (cases r0; cases r1) (auto simp: bb_join_def)

locale branch_search =
  fixes depth :: nat
    and maxops :: int
    and exclFirst :: bool
    and ub :: "'x \<Rightarrow> Value"
    and excl incl :: "nat \<Rightarrow> 'x \<Rightarrow> 'x option"
    and ecost :: int
    and icost :: "nat \<Rightarrow> 'x \<Rightarrow> int"
    and mk :: "'x \<Rightarrow> 'r"
    and add :: "nat \<Rightarrow> 'r \<Rightarrow> 'r"
    and rval :: "'r \<Rightarrow> Value"
    and inv :: "nat \<Rightarrow> 'x \<Rightarrow> bool"
    and search :: "SharedStatus \<Rightarrow> nat \<Rightarrow> 'x \<Rightarrow> SharedStatus \<times> 'r option"
  assumes search_node: "inv k x \<Longrightarrow> k \<le> depth \<Longrightarrow>
      search st k x = bb_node depth maxops exclFirst ub excl incl ecost icost mk add rval search st k x"
    and rval_mk: "rval (mk x) = ub x"
    and rval_add: "rval (add k r) = rval r"
    and costs: "0 \<le> ecost" "0 \<le> icost k x"
    and inv_excl: "inv k x \<Longrightarrow> k < depth \<Longrightarrow> excl k x = Some y \<Longrightarrow> inv (Suc k) y \<and> ub y \<le> ub x"
    and inv_incl: "inv k x \<Longrightarrow> k < depth \<Longrightarrow> incl k x = Some y \<Longrightarrow> inv (Suc k) y \<and> ub y \<le> ub x"
begin

lemma solution_le_ub:
  assumes "bb_solution depth excl incl mk add k x r" "inv k x"
  shows "rval r \<le> ub x"
  using assms
proof (induction rule: bb_solution.induct)
  case (bb_leaf k x)
  then show ?case by (simp add: rval_mk)
next
  case (bb_exclude k x y r)
  then show ?case using inv_excl [of k x y] by auto
next
  case (bb_include k x y r)
  then show ?case using inv_incl [of k x y] by (auto simp: rval_add)
qed

text \<open>Soundness: by induction on the remaining depth, over both visiting orders.\<close>

lemma visit_found:
  assumes IH: "\<And>st y. inv (Suc k) y \<Longrightarrow>
      bb_found rval (bb_solution depth excl incl mk add (Suc k) y) st (search st (Suc k) y)"
    and "0 \<le> c" and child: "\<And>y. child = Some y \<Longrightarrow> inv (Suc k) y"
  shows "bb_found rval (\<lambda>r. \<exists>y. child = Some y \<and> bb_solution depth excl incl mk add (Suc k) y r) st
      (bb_visit (\<lambda>st. search st (Suc k)) c child st)"
  using assms by (intro bb_visit_found) auto

lemma search_found:
  assumes "inv k x" "k \<le> depth"
  shows "bb_found rval (bb_solution depth excl incl mk add k x) st (search st k x)"
  using assms
proof (induction "depth - k" arbitrary: k x st)
  case 0
  then show ?case
    by (auto simp: search_node [of k x] bb_node_def Let_def rval_mk intro: bb_solution.bb_leaf)
next
  case (Suc n)
  let ?sol = "bb_solution depth excl incl mk add"
  have k: "k < depth" using Suc.hyps(2) by simp
  have IH: "bb_found rval (?sol (Suc k) y) st' (search st' (Suc k) y)" if "inv (Suc k) y" for st' y
    using Suc.hyps(1) [of "Suc k"] Suc.hyps(2) k that by simp
  have E: "bb_found rval (\<lambda>r. \<exists>y. excl k x = Some y \<and> ?sol (Suc k) y r) st'
      (bb_visit (\<lambda>st. search st (Suc k)) ecost (excl k x) st')" for st'
    using IH costs(1) inv_excl Suc.prems(1) k by (intro visit_found) auto
  have I: "bb_found rval (\<lambda>r. \<exists>y. incl k x = Some y \<and> ?sol (Suc k) y r) st'
      (bb_visit (\<lambda>st. search st (Suc k)) (icost k x) (incl k x) st')" for st'
    using IH costs(2) inv_incl Suc.prems(1) k by (intro visit_found) auto
  have sol: "?sol k x r" if "(\<exists>y. excl k x = Some y \<and> ?sol (Suc k) y r) \<or>
      (\<exists>q. (\<exists>y. incl k x = Some y \<and> ?sol (Suc k) y q) \<and> r = add k q)" for r
    using that k by (auto intro: bb_solution.bb_exclude bb_solution.bb_include)
  obtain a ra where a: "bb_visit (\<lambda>st. search st (Suc k)) ecost (excl k x) (add_operations st 1) = (a, ra)"
    by fastforce
  obtain a' ra' where a': "bb_visit (\<lambda>st. search st (Suc k)) (icost k x) (incl k x) a = (a', ra')" by fastforce
  obtain b rb where b: "bb_visit (\<lambda>st. search st (Suc k)) (icost k x) (incl k x) (add_operations st 1) = (b, rb)"
    by fastforce
  obtain b' rb' where b': "bb_visit (\<lambda>st. search st (Suc k)) ecost (excl k x) b = (b', rb')" by fastforce
  note ex = bb_join_found_excl_first [OF E [of "add_operations st 1", unfolded a] I [of a, unfolded a'],
      of "add k", OF rval_add]
  note inc = bb_join_found_incl_first [OF I [of "add_operations st 1", unfolded b] E [of b, unfolded b'],
      of "add k", OF rval_add]
  show ?case
    unfolding search_node [OF Suc.prems] bb_node_def Let_def a b
    using k ex inc by (auto simp: a' b' bb_found_def dest!: sol split: option.splits)
qed

lemma search_operations_mono:
  "inv k x \<Longrightarrow> k \<le> depth \<Longrightarrow> ss_NumOperations st \<le> ss_NumOperations (fst (search st k x))"
  by (rule bb_found_operations_mono [OF search_found])

text \<open>
  Optimality: a search that ends below its operation budget was never cut off by it, so every
  solution of the tree is at most the bound it leaves behind.
\<close>

lemma search_complete:
  assumes "inv k x" "k \<le> depth"
    and "ss_NumOperations (fst (search st k x)) < maxops"
    and "bb_solution depth excl incl mk add k x r"
  shows "rval r \<le> ss_CurrentBound (fst (search st k x))"
  using assms
proof (induction "depth - k" arbitrary: k x st r)
  case 0
  then show ?case
    by (auto simp: search_node [of k x] bb_node_def Let_def bb_solution_leaf_iff rval_mk)
next
  case (Suc n)
  let ?sol = "bb_solution depth excl incl mk add"
  let ?E = "bb_visit (\<lambda>st. search st (Suc k)) ecost (excl k x)"
  let ?I = "bb_visit (\<lambda>st. search st (Suc k)) (icost k x) (incl k x)"
  have k: "k < depth" using Suc.hyps(2) by simp
  have found: "bb_found rval (?sol (Suc k) y) st' (search st' (Suc k) y)" if "inv (Suc k) y" for st' y
    using that k by (intro search_found) auto
  have E: "bb_found rval (\<lambda>r. \<exists>y. excl k x = Some y \<and> ?sol (Suc k) y r) st' (?E st')" for st'
    using found costs(1) inv_excl Suc.prems(1) k by (intro visit_found) auto
  have I: "bb_found rval (\<lambda>r. \<exists>y. incl k x = Some y \<and> ?sol (Suc k) y r) st' (?I st')" for st'
    using found costs(2) inv_incl Suc.prems(1) k by (intro visit_found) auto
  note mono = bb_found_bound_mono [OF E] bb_found_bound_mono [OF I]
    bb_found_operations_mono [OF E] bb_found_operations_mono [OF I]
  have child: "rval q \<le> ss_CurrentBound (fst (search st' (Suc k) y))"
    if "inv (Suc k) y" "ss_NumOperations (fst (search st' (Suc k) y)) < maxops" "?sol (Suc k) y q" for st' y q
    using Suc.hyps(1) [of "Suc k" y st' q] Suc.hyps(2) k that by simp
  have CE: "rval q \<le> ss_CurrentBound (fst (?E st'))"
    if "ss_NumOperations (fst (?E st')) < maxops" "excl k x = Some y" "?sol (Suc k) y q" for st' y q
    using that child inv_excl [OF Suc.prems(1) k] by (simp add: bb_visit_def)
  have CI: "rval q \<le> ss_CurrentBound (fst (?I st'))"
    if "ss_NumOperations (fst (?I st')) < maxops" "incl k x = Some y" "?sol (Suc k) y q" for st' y q
    using that child inv_incl [OF Suc.prems(1) k] by (simp add: bb_visit_def)
  let ?s = "add_operations st 1"
  have le: "rval r \<le> ub x" by (rule solution_le_ub [OF Suc.prems(4,1)])
  have out: "fst (search st k x) =
      (if maxops \<le> ss_NumOperations ?s then ?s else if \<not> ss_CurrentBound ?s < ub x then ?s
       else if exclFirst then fst (?I (fst (?E ?s))) else fst (?E (fst (?I ?s))))"
    unfolding search_node [OF Suc.prems(1,2)] bb_node_def Let_def using k by (simp add: case_prod_beta)
  from Suc.prems(4) consider y where "excl k x = Some y" "?sol (Suc k) y r"
    | y q where "incl k x = Some y" "?sol (Suc k) y q" "r = add k q"
    using k by (auto elim: bb_solution_nodeE)
  then show ?case
  proof cases
    case 1
    show ?thesis
      using Suc.prems(3) le CE [of _ y r, OF _ 1] mono [of "fst (?E ?s)"] mono [of ?s]
      unfolding out by (fastforce split: if_splits dest: order_trans order_le_less_trans)
  next
    case 2
    then have "rval r = rval q" by (simp add: rval_add)
    then show ?thesis
      using Suc.prems(3) le CI [of _ y q, OF _ 2(1,2)] mono [of "fst (?I ?s)"] mono [of ?s]
      unfolding out by (fastforce split: if_splits dest: order_trans order_le_less_trans)
  qed
qed

text \<open>
  Termination within a budget: a search below a node of height \<open>n\<close> makes at most \<open>2^(n+1) - 1\<close> calls, each
  with two charges. \<open>P\<close> bounds the charges of the nodes that are reached.
\<close>

lemma search_operations_bound:
  assumes c: "ecost \<le> c" "\<And>k x. P x \<Longrightarrow> icost k x \<le> c"
    and P: "\<And>k x y. P x \<Longrightarrow> excl k x = Some y \<Longrightarrow> P y" "\<And>k x y. P x \<Longrightarrow> incl k x = Some y \<Longrightarrow> P y"
    and "inv k x" "P x" "k \<le> depth"
  shows "ss_NumOperations (fst (search st k x)) \<le> ss_NumOperations st + (2 ^ Suc (depth - k) - 1) * (1 + 2 * c)"
  using assms(5-7)
proof (induction "depth - k" arbitrary: k x st)
  case 0
  have "0 \<le> c" using costs(1) c(1) by simp
  then show ?case using 0 by (auto simp: search_node [of k x] bb_node_def Let_def)
next
  case (Suc n)
  let ?N = "\<lambda>n. (2 ^ Suc n - 1) * (1 + 2 * c) :: int"
  let ?E = "bb_visit (\<lambda>st. search st (Suc k)) ecost (excl k x)"
  let ?I = "bb_visit (\<lambda>st. search st (Suc k)) (icost k x) (incl k x)"
  have k: "k < depth" "n = depth - Suc k" using Suc.hyps(2) by simp_all
  have c0: "0 \<le> c" using costs(1) c(1) by simp
  have N0: "0 \<le> ?N n" using c0 by (intro mult_nonneg_nonneg) simp_all
  have step: "?N (Suc n) = 1 + 2 * c + 2 * ?N n" by (simp add: algebra_simps)
  have E: "ss_NumOperations (fst (?E st)) \<le> ss_NumOperations st + c + ?N n" for st
  proof (cases "excl k x")
    case None
    then show ?thesis using c(1) N0 by (simp add: bb_visit_def)
  next
    case (Some y)
    have "inv (Suc k) y" "P y" using inv_excl [OF Suc.prems(1) k(1) Some] P(1) [OF Suc.prems(2) Some] by simp_all
    from Suc.hyps(1) [OF k(2) this, of "add_operations st ecost"] k show ?thesis
      using c(1) by (simp add: bb_visit_def Some)
  qed
  have I: "ss_NumOperations (fst (?I st)) \<le> ss_NumOperations st + c + ?N n" for st
  proof (cases "incl k x")
    case None
    then show ?thesis using c(2) [OF Suc.prems(2), of k] N0 by (simp add: bb_visit_def)
  next
    case (Some y)
    have "inv (Suc k) y" "P y" using inv_incl [OF Suc.prems(1) k(1) Some] P(2) [OF Suc.prems(2) Some] by simp_all
    from Suc.hyps(1) [OF k(2) this, of "add_operations st (icost k x)"] k show ?thesis
      using c(2) [OF Suc.prems(2), of k] by (simp add: bb_visit_def Some)
  qed
  let ?s = "add_operations st 1"
  have out: "fst (search st k x) =
      (if maxops \<le> ss_NumOperations ?s then ?s else if \<not> ss_CurrentBound ?s < ub x then ?s
       else if exclFirst then fst (?I (fst (?E ?s))) else fst (?E (fst (?I ?s))))"
    unfolding search_node [OF Suc.prems(1,3)] bb_node_def Let_def using k(1) by (simp add: case_prod_beta)
  have "ss_NumOperations (fst (search st k x)) \<le> ss_NumOperations ?s + 2 * (c + ?N n)"
    unfolding out using E [of ?s] I [of "fst (?E ?s)"] I [of ?s] E [of "fst (?I ?s)"] N0 c0 by auto
  then show ?case unfolding Suc.hyps(2) [symmetric] step by simp
qed

end

section \<open>The problem both searches solve\<close>

text \<open>
  Candidates are lists \<open>bs\<close> of aggregated bits. A vote supports a candidate when it has every bit of
  it (aggregated bits are represented by their first index); the weight of a candidate is the assumed
  weight and the weight of its supporters, its fee the assumed fee and the fees of its bits. It is
  feasible when its weight is more than half of the total weight.
\<close>

definition has_bit :: "AggregatedVote \<Rightarrow> AggregatedBit \<Rightarrow> bool" where
  "has_bit v b \<longleftrightarrow> bit (av_BitVector v) (hd (ab_Indexes b))"

definition sol_weight :: "AggregatedVote list \<Rightarrow> u16 \<Rightarrow> AggregatedBit list \<Rightarrow> nat" where
  "sol_weight votes aw bs = unat aw + weight_of (\<lambda>v. \<forall>b\<in>set bs. has_bit v b) av_Weight votes"

definition sol_fee :: "int \<Rightarrow> AggregatedBit list \<Rightarrow> int" where
  "sol_fee af bs = af + sum_list (map ab_Fee bs)"

definition sol_value :: "AggregatedVote list \<Rightarrow> u16 \<Rightarrow> int \<Rightarrow> u16 \<Rightarrow> AggregatedBit list \<Rightarrow> Value" where
  "sol_value votes aw af T bs = value_of (sol_fee af bs) (sol_weight votes aw bs) (unat T)"

definition feasible :: "AggregatedVote list \<Rightarrow> u16 \<Rightarrow> u16 \<Rightarrow> AggregatedBit list \<Rightarrow> bool" where
  "feasible votes aw T bs \<longleftrightarrow> unat T div 2 < sol_weight votes aw bs"

text \<open>The inputs for which no \<^verbatim>\<open>uint16\<close> wraps: fees are not negative and the voted weight is the sum.\<close>

definition problem_ok :: "AggregatedVote list \<Rightarrow> AggregatedBit list \<Rightarrow> u16 \<Rightarrow> u16 \<Rightarrow> u16 \<Rightarrow> int \<Rightarrow> bool" where
  "problem_ok votes bits aw wv T af \<longleftrightarrow>
     (\<forall>b\<in>set bits. 0 \<le> ab_Fee b) \<and> 0 \<le> af \<and>
     unat wv = unat aw + weight_of (\<lambda>_. True) av_Weight votes \<and> unat T div 2 < unat wv"

lemma sol_weight_mset:
  "mset vs = mset ws \<Longrightarrow> set bs = set cs \<Longrightarrow> sol_weight vs aw bs = sol_weight ws aw cs"
  unfolding sol_weight_def by (auto dest: weight_of_mset)

lemma sol_value_mset:
  "mset vs = mset ws \<Longrightarrow> mset bs = mset cs \<Longrightarrow> sol_value vs aw af T bs = sol_value ws aw af T cs"
  unfolding sol_value_def sol_fee_def
  by (simp only: sol_weight_mset [of vs ws bs cs] mset_eq_setD [of bs cs] sum_list_mset [of bs cs])

lemma feasible_mset:
  "mset vs = mset ws \<Longrightarrow> mset bs = mset cs \<Longrightarrow> feasible vs aw T bs \<longleftrightarrow> feasible ws aw T cs"
  by (simp only: feasible_def sol_weight_mset [of vs ws bs cs] mset_eq_setD [of bs cs])

lemma problem_ok_mset:
  "mset vs = mset ws \<Longrightarrow> mset bs = mset cs \<Longrightarrow>
   problem_ok vs bs aw wv T af \<longleftrightarrow> problem_ok ws cs aw wv T af"
  unfolding problem_ok_def
  by (simp only: weight_of_mset [of vs ws] mset_eq_setD [of bs cs])

section \<open>The contract of a solver\<close>

text \<open>
  The empty answer of the code when the search found nothing better than the bound it was given.
\<close>

definition empty_answer :: "AggregatedVote list \<Rightarrow> ConsensusSolution" where
  "empty_answer votes = \<lparr>cs_Votes = votes, cs_Bits = [], cs_Value = Value 0 0, cs_Optimal = False\<rparr>"

type_synonym solver_fun =
  "AggregatedVote list \<Rightarrow> AggregatedBit list \<Rightarrow> u16 \<Rightarrow> u16 \<Rightarrow> u16 \<Rightarrow> int \<Rightarrow> int \<Rightarrow> Value \<Rightarrow> ConsensusSolution"

text \<open>
  An answer is sound when it is empty or a feasible candidate whose reported value is its value;
  an answer marked optimal is at least as good as every feasible candidate.
\<close>

definition sound_answer ::
  "AggregatedVote list \<Rightarrow> AggregatedBit list \<Rightarrow> u16 \<Rightarrow> u16 \<Rightarrow> int \<Rightarrow> ConsensusSolution \<Rightarrow> bool" where
  "sound_answer votes bits aw T af cs \<longleftrightarrow>
     (\<exists>vs. mset vs = mset votes \<and> cs = empty_answer vs) \<or>
     mset (cs_Bits cs) \<subseteq># mset bits \<and> feasible votes aw T (cs_Bits cs) \<and>
     cs_Value cs = sol_value votes aw af T (cs_Bits cs)"

definition optimal_answer ::
  "AggregatedVote list \<Rightarrow> AggregatedBit list \<Rightarrow> u16 \<Rightarrow> u16 \<Rightarrow> int \<Rightarrow> ConsensusSolution \<Rightarrow> bool" where
  "optimal_answer votes bits aw T af cs \<longleftrightarrow>
     (\<forall>bs. mset bs \<subseteq># mset bits \<longrightarrow> feasible votes aw T bs \<longrightarrow> sol_value votes aw af T bs \<le> cs_Value cs)"

lemma sound_answer_mset:
  assumes "mset vs = mset ws" "mset bs = mset cs"
  shows "sound_answer vs bs aw T af sol \<longleftrightarrow> sound_answer ws cs aw T af sol"
  unfolding sound_answer_def
  by (simp only: assms feasible_mset [OF assms(1) refl] sol_value_mset [OF assms(1) refl])

lemma optimal_answer_mset:
  assumes "mset vs = mset ws" "mset bs = mset cs"
  shows "optimal_answer vs bs aw T af sol \<longleftrightarrow> optimal_answer ws cs aw T af sol"
  unfolding optimal_answer_def
  by (simp only: assms feasible_mset [OF assms(1) refl] sol_value_mset [OF assms(1) refl])

text \<open>The choice between the two strategies, shared by both double searches.\<close>

definition better_answer :: "ConsensusSolution \<Rightarrow> ConsensusSolution \<Rightarrow> ConsensusSolution" where
  "better_answer solution0 solution1 =
     (if cs_Optimal solution0 then solution0
      else if Value_Cmp (cs_Value solution0) (cs_Value solution1) = -1 then solution1
      else solution0)"

lemma better_answer_cases: "better_answer a b = a \<or> better_answer a b = b"
  by (simp add: better_answer_def)

locale solver =
  fixes solve :: solver_fun
  assumes solve_sound: "problem_ok votes bits aw wv T af \<Longrightarrow>
      sound_answer votes bits aw T af (solve votes bits aw wv T af maxops bound)"
    and solve_optimal: "problem_ok votes bits aw wv T af \<Longrightarrow>
      cs_Optimal (solve votes bits aw wv T af maxops bound) \<Longrightarrow>
      optimal_answer votes bits aw T af (solve votes bits aw wv T af maxops bound)"
begin

text \<open>Answers marked optimal all have the same value.\<close>

lemma optimal_value:
  assumes "problem_ok votes bits aw wv T af" and opt: "cs_Optimal (solve votes bits aw wv T af m bound)"
    and other: "optimal_answer votes bits aw T af cs" "mset (cs_Bits cs) \<subseteq># mset bits" "feasible votes aw T (cs_Bits cs)"
      "cs_Value cs = sol_value votes aw af T (cs_Bits cs)"
  shows "cs_Value (solve votes bits aw wv T af m bound) = cs_Value cs"
proof -
  let ?s = "solve votes bits aw wv T af m bound"
  have "\<not> (\<exists>vs. ?s = empty_answer vs)" using opt by (auto simp: empty_answer_def)
  then have s: "mset (cs_Bits ?s) \<subseteq># mset bits" "feasible votes aw T (cs_Bits ?s)"
      "cs_Value ?s = sol_value votes aw af T (cs_Bits ?s)"
    using solve_sound [OF assms(1), of m bound] by (auto simp: sound_answer_def)
  have "cs_Value cs \<le> cs_Value ?s"
    using solve_optimal [OF assms(1) opt] other(2-4) by (simp add: optimal_answer_def)
  moreover have "cs_Value ?s \<le> cs_Value cs" using other(1) s by (simp add: optimal_answer_def)
  ultimately show ?thesis by simp
qed

end

text \<open>
  A solver that was given enough operations: its answer is marked optimal, or it is empty because no
  feasible candidate is better than the bound it was given.
\<close>

definition exhausted_answer ::
  "AggregatedVote list \<Rightarrow> AggregatedBit list \<Rightarrow> u16 \<Rightarrow> u16 \<Rightarrow> int \<Rightarrow> Value \<Rightarrow> ConsensusSolution \<Rightarrow> bool" where
  "exhausted_answer votes bits aw T af bound cs \<longleftrightarrow>
     cs_Optimal cs \<or> cs_Value cs = Value 0 0 \<and>
       (\<forall>bs. mset bs \<subseteq># mset bits \<longrightarrow> feasible votes aw T bs \<longrightarrow> sol_value votes aw af T bs \<le> bound)"

lemma exhausted_answer_mset:
  assumes "mset vs = mset ws" "mset bs = mset cs"
  shows "exhausted_answer vs bs aw T af b sol \<longleftrightarrow> exhausted_answer ws cs aw T af b sol"
  unfolding exhausted_answer_def
  by (simp only: assms feasible_mset [OF assms(1) refl] sol_value_mset [OF assms(1) refl])

lemma exhausted_better:
  "exhausted_answer vs bs aw T af b s0 \<Longrightarrow> exhausted_answer vs bs aw T af b s1 \<Longrightarrow>
   exhausted_answer vs bs aw T af b (better_answer s0 s1)"
  by (auto simp: better_answer_def)

text \<open>Calls of a full binary tree of depth \<open>n\<close>, each with two charges of at most \<open>c\<close>.\<close>

definition tree_budget :: "nat \<Rightarrow> int \<Rightarrow> int" where
  "tree_budget n c = 2 ^ Suc n * (1 + 2 * c)"

lemma tree_budget_less: "0 \<le> c \<Longrightarrow> (2 ^ Suc n - 1) * (1 + 2 * c) < tree_budget n c"
  by (simp add: tree_budget_def algebra_simps)

lemma tree_budget_mono: "n \<le> n' \<Longrightarrow> 0 \<le> c \<Longrightarrow> c \<le> c' \<Longrightarrow> tree_budget n c \<le> tree_budget n' c'"
  unfolding tree_budget_def by (intro mult_mono power_increasing) auto

locale complete_solver = solver +
  fixes budget :: "nat \<Rightarrow> nat \<Rightarrow> int"
  assumes solve_enough: "problem_ok votes bits aw wv T af \<Longrightarrow> budget (length votes) (length bits) \<le> maxops \<Longrightarrow>
      exhausted_answer votes bits aw T af bound (solve votes bits aw wv T af maxops bound)"
begin

lemma solve_best:
  assumes "problem_ok votes bits aw wv T af" "budget (length votes) (length bits) \<le> maxops" "bound \<le> Value 0 0"
    and "mset bs \<subseteq># mset bits" "feasible votes aw T bs"
  shows "sol_value votes aw af T bs \<le> cs_Value (solve votes bits aw wv T af maxops bound)"
proof (cases "cs_Optimal (solve votes bits aw wv T af maxops bound)")
  case True
  with solve_optimal [OF assms(1)] assms(4,5) show ?thesis by (simp add: optimal_answer_def)
next
  case False
  have "cs_Value (solve votes bits aw wv T af maxops bound) = Value 0 0" "sol_value votes aw af T bs \<le> bound"
    using solve_enough [OF assms(1,2), of bound] False assms(4,5) by (simp_all add: exhausted_answer_def)
  then show ?thesis using assms(3) by simp
qed

end

end
