(* ===== verification/Preprocess.thy ===== *)
theory Preprocess
  imports BB_Search BitVote
begin

text \<open>
  \<^verbatim>\<open>client/attestation/bitVotes/preprocess.go\<close>: the reduction of the consensus problem before the
  search. \<^verbatim>\<open>Filter\<close> settles the bits and the votes whose place in an optimal answer is known,
  \<^verbatim>\<open>AggregateBits\<close> and \<^verbatim>\<open>AggregateVotes\<close> merge what the remaining votes and bits cannot tell apart,
  and \<^verbatim>\<open>AssembleSolution\<close> turns an answer to the reduced problem into a bit vote.

  A \<^verbatim>\<open>range\<close> loop over \<^verbatim>\<open>RemainingBits\<close> or \<^verbatim>\<open>RemainingVotes\<close> that deletes the visited key is a fold
  over the key list of that map; an aggregator \<^verbatim>\<open>map[string]*T\<close> is an association list.
\<close>

record FilterResults =
  fr_AlwaysInBits :: "nat list"
  fr_AlwaysOutBits :: "nat list"
  fr_RemainingBits :: "nat list"
  fr_GuaranteedFees :: int
  fr_AlwaysInVotes :: "nat list"
  fr_AlwaysOutVotes :: "nat list"
  fr_RemainingVotes :: "nat list"
  fr_GuaranteedWeight :: u16
  fr_RemainingWeight :: u16

abbreviation vote_bit :: "WeightedBitVote list \<Rightarrow> nat \<Rightarrow> nat \<Rightarrow> bool" where
  "vote_bit bitVotes j i \<equiv> bit (bv_BitVector (wbv_BitVote (bitVotes ! j))) i"

abbreviation vote_weight :: "WeightedBitVote list \<Rightarrow> nat \<Rightarrow> u16" where
  "vote_weight bitVotes j \<equiv> wbv_Weight (bitVotes ! j)"

section \<open>Filtering\<close>

definition filterBits_step :: "WeightedBitVote list \<Rightarrow> int list \<Rightarrow> u16 \<Rightarrow> FilterResults \<Rightarrow> nat \<Rightarrow> FilterResults" where
  "filterBits_step bitVotes fees totalWeight fr i =
     (let support = add_weights (\<lambda>j. vote_bit bitVotes j i) (vote_weight bitVotes) (fr_RemainingVotes fr)
            (fr_GuaranteedWeight fr)
      in if support = fr_RemainingWeight fr then
           fr\<lparr>fr_AlwaysInBits := fr_AlwaysInBits fr @ [i],
              fr_GuaranteedFees := fr_GuaranteedFees fr + fees ! i,
              fr_RemainingBits := key_delete i (fr_RemainingBits fr)\<rparr>
         else if support \<le> totalWeight div 2 then
           fr\<lparr>fr_AlwaysOutBits := fr_AlwaysOutBits fr @ [i],
              fr_RemainingBits := key_delete i (fr_RemainingBits fr)\<rparr>
         else fr)"

definition FilterBits :: "WeightedBitVote list \<Rightarrow> int list \<Rightarrow> u16 \<Rightarrow> FilterResults \<Rightarrow> FilterResults" where
  "FilterBits bitVotes fees totalWeight fr =
     foldl (filterBits_step bitVotes fees totalWeight) fr (fr_RemainingBits fr)"

definition filterBitsOnes_step :: "WeightedBitVote list \<Rightarrow> int list \<Rightarrow> FilterResults \<Rightarrow> nat \<Rightarrow> FilterResults" where
  "filterBitsOnes_step bitVotes fees fr i =
     (if list_ex (\<lambda>j. \<not> vote_bit bitVotes j i) (fr_RemainingVotes fr) then fr
      else fr\<lparr>fr_AlwaysInBits := fr_AlwaysInBits fr @ [i],
              fr_GuaranteedFees := fr_GuaranteedFees fr + fees ! i,
              fr_RemainingBits := key_delete i (fr_RemainingBits fr)\<rparr>)"

definition FilterBitsOnes :: "WeightedBitVote list \<Rightarrow> int list \<Rightarrow> FilterResults \<Rightarrow> FilterResults" where
  "FilterBitsOnes bitVotes fees fr = foldl (filterBitsOnes_step bitVotes fees) fr (fr_RemainingBits fr)"

text \<open>
  The inner loop of \<^verbatim>\<open>FilterVotes\<close>: \<open>None\<close> is \<^verbatim>\<open>continue votes\<close>, taken when both flags are already
  down and bits are left.
\<close>

fun filterVotes_flags :: "int \<Rightarrow> nat list \<Rightarrow> bool \<Rightarrow> bool \<Rightarrow> (bool \<times> bool) option" where
  "filterVotes_flags bitVector [] allOnes allZeros = Some (allOnes, allZeros)"
| "filterVotes_flags bitVector (j # js) allOnes allZeros =
     (if \<not> allOnes \<and> \<not> allZeros then None
      else filterVotes_flags bitVector js (allOnes \<and> bit bitVector j) (allZeros \<and> \<not> bit bitVector j))"

definition filterVotes_step :: "WeightedBitVote list \<Rightarrow> FilterResults \<times> bool \<Rightarrow> nat \<Rightarrow> FilterResults \<times> bool" where
  "filterVotes_step bitVotes = (\<lambda>(fr, somethingChanged) i.
     case filterVotes_flags (bv_BitVector (wbv_BitVote (bitVotes ! i))) (fr_RemainingBits fr) True
            (length (fr_AlwaysInBits fr) = 0) of
       None \<Rightarrow> (fr, somethingChanged)
     | Some (allOnes, allZeros) \<Rightarrow>
         if allOnes then
           (fr\<lparr>fr_AlwaysInVotes := fr_AlwaysInVotes fr @ [i],
               fr_GuaranteedWeight := fr_GuaranteedWeight fr + vote_weight bitVotes i,
               fr_RemainingVotes := key_delete i (fr_RemainingVotes fr)\<rparr>, True)
         else if allZeros then
           (fr\<lparr>fr_AlwaysOutVotes := fr_AlwaysOutVotes fr @ [i],
               fr_RemainingVotes := key_delete i (fr_RemainingVotes fr)\<rparr>, True)
         else (fr, somethingChanged))"

definition FilterVotes :: "WeightedBitVote list \<Rightarrow> u16 \<Rightarrow> FilterResults \<Rightarrow> FilterResults \<times> bool" where
  "FilterVotes bitVotes totalWeight fr =
     foldl (filterVotes_step bitVotes) (fr, False) (fr_RemainingVotes fr)"

definition Filter_init :: "WeightedBitVote list \<Rightarrow> int list \<Rightarrow> FilterResults" where
  "Filter_init bitVotes fees =
     \<lparr>fr_AlwaysInBits = [], fr_AlwaysOutBits = [], fr_RemainingBits = [0..<length fees], fr_GuaranteedFees = 0,
      fr_AlwaysInVotes = [], fr_AlwaysOutVotes = [], fr_RemainingVotes = [0..<length bitVotes],
      fr_GuaranteedWeight = 0,
      fr_RemainingWeight = add_weights (\<lambda>_. True) (vote_weight bitVotes) [0..<length bitVotes] 0\<rparr>"

definition Filter :: "WeightedBitVote list \<Rightarrow> int list \<Rightarrow> u16 \<Rightarrow> FilterResults" where
  "Filter bitVotes fees totalWeight =
     (let results = FilterBits bitVotes fees totalWeight (Filter_init bitVotes fees);
          (results, changed) = FilterVotes bitVotes totalWeight results
      in if changed then FilterBitsOnes bitVotes fees results else results)"

section \<open>Aggregation\<close>

text \<open>
  Both aggregation loops look an identifier up, and then insert a new entry or update the one found
  in place.
\<close>

fun aggregate_into :: "'k \<Rightarrow> 'v \<Rightarrow> ('v \<Rightarrow> 'v) \<Rightarrow> ('k \<times> 'v) list \<Rightarrow> ('k \<times> 'v) list" where
  "aggregate_into identifier new upd [] = [(identifier, new)]"
| "aggregate_into identifier new upd ((k, v) # rest) =
     (if k = identifier then (k, upd v) # rest else (k, v) # aggregate_into identifier new upd rest)"

definition aggregateBits_step ::
  "WeightedBitVote list \<Rightarrow> int list \<Rightarrow> u16 \<Rightarrow> nat list \<Rightarrow> (string \<times> AggregatedBit) list \<Rightarrow> nat \<Rightarrow>
   (string \<times> AggregatedBit) list" where
  "aggregateBits_step bitVotes fees guaranteedWeight remainingVotesSorted aggregator i =
     (let identifier = map (\<lambda>j. if vote_bit bitVotes j i then CHR ''1'' else CHR ''0'') remainingVotesSorted;
          support = add_weights (\<lambda>j. vote_bit bitVotes j i) (vote_weight bitVotes) remainingVotesSorted guaranteedWeight
      in aggregate_into identifier
           \<lparr>ab_Fee = fees ! i, ab_Indexes = [i], ab_Support = support, ab_value = None\<rparr>
           (\<lambda>aggFee. aggFee\<lparr>ab_Fee := ab_Fee aggFee + fees ! i, ab_Indexes := ab_Indexes aggFee @ [i]\<rparr>)
           aggregator)"

definition AggregateBits :: "WeightedBitVote list \<Rightarrow> int list \<Rightarrow> FilterResults \<Rightarrow> AggregatedBit list" where
  "AggregateBits bitVotes fees filterResults =
     (let remainingBitsSorted = sort (fr_RemainingBits filterResults);
          remainingVotesSorted = sort (fr_RemainingVotes filterResults)
      in map snd (foldl (aggregateBits_step bitVotes fees (fr_GuaranteedWeight filterResults) remainingVotesSorted)
           [] remainingBitsSorted))"

definition aggregateVotes_step ::
  "WeightedBitVote list \<Rightarrow> int list \<Rightarrow> int \<Rightarrow> nat list \<Rightarrow> (string \<times> AggregatedVote) list \<Rightarrow> nat \<Rightarrow>
   (string \<times> AggregatedVote) list" where
  "aggregateVotes_step bitVotes fees guaranteedFees remainingBitsSorted aggregator i =
     (let identifier = map (\<lambda>j. if vote_bit bitVotes i j then CHR ''1'' else CHR ''0'') remainingBitsSorted;
          feesVote = foldl (\<lambda>acc j. if vote_bit bitVotes i j then acc + fees ! j else acc) guaranteedFees remainingBitsSorted
      in aggregate_into identifier
           \<lparr>av_BitVector = bv_BitVector (wbv_BitVote (bitVotes ! i)), av_Weight = vote_weight bitVotes i,
            av_Indexes = [i], av_Fees = feesVote\<rparr>
           (\<lambda>aggVote. aggVote\<lparr>av_Weight := av_Weight aggVote + vote_weight bitVotes i,
              av_Indexes := av_Indexes aggVote @ [i]\<rparr>)
           aggregator)"

definition AggregateVotes :: "WeightedBitVote list \<Rightarrow> int list \<Rightarrow> FilterResults \<Rightarrow> AggregatedVote list" where
  "AggregateVotes bitVotes fees filterResults =
     (let remainingBitsSorted = sort (fr_RemainingBits filterResults);
          remainingVotesSorted = sort (fr_RemainingVotes filterResults)
      in map snd (foldl (aggregateVotes_step bitVotes fees (fr_GuaranteedFees filterResults) remainingBitsSorted)
           [] remainingVotesSorted))"

definition FilterAndAggregate ::
  "WeightedBitVote list \<Rightarrow> int list \<Rightarrow> u16 \<Rightarrow> AggregatedVote list \<times> AggregatedBit list \<times> FilterResults" where
  "FilterAndAggregate bitVotes fees totalWeight =
     (let filterResults = Filter bitVotes fees totalWeight;
          aggregatedVotes = AggregateVotes bitVotes fees filterResults;
          aggregatedBits = AggregateBits bitVotes fees filterResults
      in (aggregatedVotes, aggregatedBits, filterResults))"

definition AssembleSolution :: "FilterResults \<Rightarrow> ConsensusSolution \<Rightarrow> u16 \<Rightarrow> BitVote" where
  "AssembleSolution filterResults filteredSolution numOfAttestations =
     (let consensusBV = foldl (\<lambda>bv i. set_bit i bv) 0 (fr_AlwaysInBits filterResults);
          consensusBV = foldl (\<lambda>bv b. foldl (\<lambda>bv k. set_bit k bv) bv (ab_Indexes b)) consensusBV
            (cs_Bits filteredSolution)
      in \<lparr>bv_Length = numOfAttestations, bv_BitVector = consensusBV\<rparr>)"


section \<open>What the filters compute\<close>

text \<open>The three loops in closed form: each key is classified on its own, in the order visited.\<close>

definition bit_support :: "WeightedBitVote list \<Rightarrow> FilterResults \<Rightarrow> nat \<Rightarrow> u16" where
  "bit_support bitVotes fr i =
     add_weights (\<lambda>j. vote_bit bitVotes j i) (vote_weight bitVotes) (fr_RemainingVotes fr) (fr_GuaranteedWeight fr)"

definition bit_in :: "WeightedBitVote list \<Rightarrow> FilterResults \<Rightarrow> nat \<Rightarrow> bool" where
  "bit_in bitVotes fr i \<longleftrightarrow> bit_support bitVotes fr i = fr_RemainingWeight fr"

definition bit_out :: "WeightedBitVote list \<Rightarrow> u16 \<Rightarrow> FilterResults \<Rightarrow> nat \<Rightarrow> bool" where
  "bit_out bitVotes T fr i \<longleftrightarrow> \<not> bit_in bitVotes fr i \<and> bit_support bitVotes fr i \<le> T div 2"

definition vote_in :: "WeightedBitVote list \<Rightarrow> FilterResults \<Rightarrow> nat \<Rightarrow> bool" where
  "vote_in bitVotes fr j \<longleftrightarrow> (\<forall>i\<in>set (fr_RemainingBits fr). vote_bit bitVotes j i)"

definition vote_out :: "WeightedBitVote list \<Rightarrow> FilterResults \<Rightarrow> nat \<Rightarrow> bool" where
  "vote_out bitVotes fr j \<longleftrightarrow> \<not> vote_in bitVotes fr j \<and> fr_AlwaysInBits fr = [] \<and>
     (\<forall>i\<in>set (fr_RemainingBits fr). \<not> vote_bit bitVotes j i)"

definition bit_ones :: "WeightedBitVote list \<Rightarrow> FilterResults \<Rightarrow> nat \<Rightarrow> bool" where
  "bit_ones bitVotes fr i \<longleftrightarrow> (\<forall>j\<in>set (fr_RemainingVotes fr). vote_bit bitVotes j i)"

lemmas filter_classes = bit_in_def bit_out_def bit_support_def vote_in_def vote_out_def bit_ones_def

lemma foldl_filterBits_step:
  "foldl (filterBits_step bitVotes fees T) fr is =
     fr\<lparr>fr_AlwaysInBits := fr_AlwaysInBits fr @ filter (bit_in bitVotes fr) is,
        fr_AlwaysOutBits := fr_AlwaysOutBits fr @ filter (bit_out bitVotes T fr) is,
        fr_GuaranteedFees := fr_GuaranteedFees fr + sum_list (map ((!) fees) (filter (bit_in bitVotes fr) is)),
        fr_RemainingBits := filter (\<lambda>i. i \<notin> set is \<or> \<not> bit_in bitVotes fr i \<and> \<not> bit_out bitVotes T fr i) (fr_RemainingBits fr)\<rparr>"
proof (induction "is" arbitrary: fr)
  case Nil
  then show ?case by simp
next
  case (Cons i "is")
  let ?fr = "filterBits_step bitVotes fees T fr i"
  have same: "bit_in bitVotes ?fr = bit_in bitVotes fr" "bit_out bitVotes T ?fr = bit_out bitVotes T fr"
    by (auto simp: fun_eq_iff filter_classes filterBits_step_def Let_def)
  have step: "?fr = fr\<lparr>fr_AlwaysInBits := fr_AlwaysInBits fr @ filter (bit_in bitVotes fr) [i],
        fr_AlwaysOutBits := fr_AlwaysOutBits fr @ filter (bit_out bitVotes T fr) [i],
        fr_GuaranteedFees := fr_GuaranteedFees fr + sum_list (map ((!) fees) (filter (bit_in bitVotes fr) [i])),
        fr_RemainingBits := filter (\<lambda>j. j \<notin> set [i] \<or> \<not> bit_in bitVotes fr j \<and> \<not> bit_out bitVotes T fr j) (fr_RemainingBits fr)\<rparr>"
    by (auto simp: filterBits_step_def Let_def filter_classes key_delete_def intro!: filter_cong)
  show ?case
    unfolding foldl_Cons Cons.IH same unfolding step
    by (rule FilterResults.equality) (auto simp: add.assoc intro!: filter_cong)
qed

lemma foldl_filterBitsOnes_step:
  "foldl (filterBitsOnes_step bitVotes fees) fr is =
     fr\<lparr>fr_AlwaysInBits := fr_AlwaysInBits fr @ filter (bit_ones bitVotes fr) is,
        fr_GuaranteedFees := fr_GuaranteedFees fr + sum_list (map ((!) fees) (filter (bit_ones bitVotes fr) is)),
        fr_RemainingBits := filter (\<lambda>i. i \<notin> set is \<or> \<not> bit_ones bitVotes fr i) (fr_RemainingBits fr)\<rparr>"
proof (induction "is" arbitrary: fr)
  case Nil
  then show ?case by simp
next
  case (Cons i "is")
  let ?fr = "filterBitsOnes_step bitVotes fees fr i"
  have same: "bit_ones bitVotes ?fr = bit_ones bitVotes fr"
    by (auto simp: fun_eq_iff filter_classes filterBitsOnes_step_def)
  have step: "?fr = fr\<lparr>fr_AlwaysInBits := fr_AlwaysInBits fr @ filter (bit_ones bitVotes fr) [i],
        fr_GuaranteedFees := fr_GuaranteedFees fr + sum_list (map ((!) fees) (filter (bit_ones bitVotes fr) [i])),
        fr_RemainingBits := filter (\<lambda>j. j \<notin> set [i] \<or> \<not> bit_ones bitVotes fr j) (fr_RemainingBits fr)\<rparr>"
    by (auto simp: filterBitsOnes_step_def bit_ones_def list_ex_iff key_delete_def intro!: filter_cong)
  show ?case
    unfolding foldl_Cons Cons.IH same unfolding step
    by (rule FilterResults.equality) (auto simp: add.assoc intro!: filter_cong)
qed

lemma filterVotes_flags_Some:
  "filterVotes_flags bv js a z = Some p \<Longrightarrow> p = (a \<and> (\<forall>j\<in>set js. bit bv j), z \<and> (\<forall>j\<in>set js. \<not> bit bv j))"
  by (induction bv js a z rule: filterVotes_flags.induct) (auto split: if_splits)

lemma filterVotes_flags_None:
  "filterVotes_flags bv js a z = None \<Longrightarrow> \<not> (a \<and> (\<forall>j\<in>set js. bit bv j)) \<and> \<not> (z \<and> (\<forall>j\<in>set js. \<not> bit bv j))"
  by (induction bv js a z rule: filterVotes_flags.induct) (auto split: if_splits)

lemma filterVotes_step_classes:
  "filterVotes_step bitVotes (fr, c) i =
     (if vote_in bitVotes fr i then
        (fr\<lparr>fr_AlwaysInVotes := fr_AlwaysInVotes fr @ [i],
            fr_GuaranteedWeight := fr_GuaranteedWeight fr + vote_weight bitVotes i,
            fr_RemainingVotes := key_delete i (fr_RemainingVotes fr)\<rparr>, True)
      else if vote_out bitVotes fr i then
        (fr\<lparr>fr_AlwaysOutVotes := fr_AlwaysOutVotes fr @ [i],
            fr_RemainingVotes := key_delete i (fr_RemainingVotes fr)\<rparr>, True)
      else (fr, c))"
  by (auto simp: filterVotes_step_def vote_in_def vote_out_def split: option.splits
      dest: filterVotes_flags_Some filterVotes_flags_None)

lemma foldl_filterVotes_step:
  "foldl (filterVotes_step bitVotes) (fr, c) is =
     (fr\<lparr>fr_AlwaysInVotes := fr_AlwaysInVotes fr @ filter (vote_in bitVotes fr) is,
         fr_AlwaysOutVotes := fr_AlwaysOutVotes fr @ filter (vote_out bitVotes fr) is,
         fr_GuaranteedWeight := add_weights (vote_in bitVotes fr) (vote_weight bitVotes) is (fr_GuaranteedWeight fr),
         fr_RemainingVotes := filter (\<lambda>j. j \<notin> set is \<or> \<not> vote_in bitVotes fr j \<and> \<not> vote_out bitVotes fr j) (fr_RemainingVotes fr)\<rparr>,
      c \<or> (\<exists>j\<in>set is. vote_in bitVotes fr j \<or> vote_out bitVotes fr j))"
proof (induction "is" arbitrary: fr c)
  case Nil
  then show ?case by simp
next
  case (Cons i "is")
  obtain fr' c' where step: "filterVotes_step bitVotes (fr, c) i = (fr', c')" by fastforce
  have same: "vote_in bitVotes fr' = vote_in bitVotes fr" "vote_out bitVotes fr' = vote_out bitVotes fr"
    using step by (auto simp: fun_eq_iff filter_classes filterVotes_step_classes split: if_splits)
  have fr': "fr' = fr\<lparr>fr_AlwaysInVotes := fr_AlwaysInVotes fr @ filter (vote_in bitVotes fr) [i],
         fr_AlwaysOutVotes := fr_AlwaysOutVotes fr @ filter (vote_out bitVotes fr) [i],
         fr_GuaranteedWeight := add_weights (vote_in bitVotes fr) (vote_weight bitVotes) [i] (fr_GuaranteedWeight fr),
         fr_RemainingVotes := filter (\<lambda>j. j \<notin> set [i] \<or> \<not> vote_in bitVotes fr j \<and> \<not> vote_out bitVotes fr j) (fr_RemainingVotes fr)\<rparr>"
    and c': "c' = (c \<or> vote_in bitVotes fr i \<or> vote_out bitVotes fr i)"
    using step by (auto simp: filterVotes_step_classes vote_out_def key_delete_def split: if_splits intro!: filter_cong)
  show ?case
    unfolding foldl_Cons step Cons.IH same unfolding fr' c'
    by (auto intro!: FilterResults.equality filter_cong)
qed


section \<open>The invariant of the filters\<close>

text \<open>
  What is settled was settled rightly: bits and votes are partitioned, the guaranteed fee and weight
  are those of what is always in, a bit that is always out has no majority, a bit that is always in
  has every vote (of non-zero weight) that is not out, a vote that is always in has every remaining
  bit, and a vote that is always out has no bit that could be chosen. A remaining bit has a majority,
  and votes are put out only when some bit has one.
\<close>

definition filter_ok :: "WeightedBitVote list \<Rightarrow> int list \<Rightarrow> u16 \<Rightarrow> FilterResults \<Rightarrow> bool" where
  "filter_ok votes fees T fr \<longleftrightarrow>
     distinct (fr_AlwaysInBits fr @ fr_AlwaysOutBits fr @ fr_RemainingBits fr) \<and>
     set (fr_AlwaysInBits fr @ fr_AlwaysOutBits fr @ fr_RemainingBits fr) = {..<length fees} \<and>
     distinct (fr_AlwaysInVotes fr @ fr_AlwaysOutVotes fr @ fr_RemainingVotes fr) \<and>
     set (fr_AlwaysInVotes fr @ fr_AlwaysOutVotes fr @ fr_RemainingVotes fr) = {..<length votes} \<and>
     fr_GuaranteedFees fr = sum_list (map ((!) fees) (fr_AlwaysInBits fr)) \<and>
     unat (fr_GuaranteedWeight fr) = weight_of (\<lambda>_. True) (vote_weight votes) (fr_AlwaysInVotes fr) \<and>
     (\<forall>i\<in>set (fr_AlwaysOutBits fr).
        weight_of (\<lambda>j. vote_bit votes j i) (vote_weight votes) [0..<length votes] \<le> unat T div 2) \<and>
     (\<forall>i\<in>set (fr_AlwaysInBits fr). \<forall>j\<in>set (fr_AlwaysInVotes fr) \<union> set (fr_RemainingVotes fr).
        vote_weight votes j \<noteq> 0 \<longrightarrow> vote_bit votes j i) \<and>
     (\<forall>j\<in>set (fr_AlwaysInVotes fr). \<forall>i\<in>set (fr_RemainingBits fr). vote_bit votes j i) \<and>
     (\<forall>j\<in>set (fr_AlwaysOutVotes fr). \<forall>i\<in>set (fr_AlwaysInBits fr) \<union> set (fr_RemainingBits fr).
        \<not> vote_bit votes j i)"

definition filter_major :: "WeightedBitVote list \<Rightarrow> u16 \<Rightarrow> FilterResults \<Rightarrow> bool" where
  "filter_major votes T fr \<longleftrightarrow>
     (\<forall>i\<in>set (fr_RemainingBits fr).
        unat T div 2 < weight_of (\<lambda>j. vote_bit votes j i) (vote_weight votes) [0..<length votes]) \<and>
     (fr_AlwaysOutVotes fr \<noteq> [] \<longrightarrow> (\<exists>i\<in>set (fr_AlwaysInBits fr) \<union> set (fr_RemainingBits fr).
        unat T div 2 < weight_of (\<lambda>j. vote_bit votes j i) (vote_weight votes) [0..<length votes]))"

text \<open>The votes of one round: their weights sum to a \<^verbatim>\<open>uint16\<close>.\<close>

definition votes_nowrap :: "WeightedBitVote list \<Rightarrow> bool" where
  "votes_nowrap votes \<longleftrightarrow> weight_of (\<lambda>_. True) wbv_Weight votes < 65536"

lemma weight_of_vote_index:
  "weight_of (\<lambda>j. P (votes ! j)) (vote_weight votes) [0..<length votes] = weight_of P wbv_Weight votes"
  by (rule weight_of_nth)

lemma votes_nowrap_index:
  assumes "votes_nowrap votes"
  shows "weight_of P (vote_weight votes) [0..<length votes] < 65536"
proof -
  have "weight_of P (vote_weight votes) [0..<length votes] \<le> weight_of (\<lambda>_. True) (vote_weight votes) [0..<length votes]"
    by (rule weight_of_le_all)
  also have "\<dots> = weight_of (\<lambda>_. True) wbv_Weight votes" by (rule weight_of_nth)
  finally show ?thesis using assms by (simp add: votes_nowrap_def)
qed

lemma FilterBits_ok:
  assumes "votes_nowrap votes"
  shows "filter_ok votes fees T (FilterBits votes fees T (Filter_init votes fees))"
proof -
  let ?fr = "Filter_init votes fees" and ?all = "[0..<length votes]"
  have support: "unat (bit_support votes ?fr i) = weight_of (\<lambda>j. vote_bit votes j i) (vote_weight votes) ?all" for i
    using votes_nowrap_index [OF assms, of "\<lambda>j. vote_bit votes j i"]
    by (simp add: bit_support_def Filter_init_def unat_add_weights)
  have "unat (fr_RemainingWeight ?fr) = weight_of (\<lambda>_. True) (vote_weight votes) ?all"
    using votes_nowrap_index [OF assms, of "\<lambda>_. True"] by (simp add: Filter_init_def unat_add_weights)
  then have ins: "vote_weight votes j \<noteq> 0 \<Longrightarrow> vote_bit votes j i" if "bit_in votes ?fr i" "j < length votes" for i j
    using weight_of_eq_all [of "\<lambda>j. vote_bit votes j i" "vote_weight votes" ?all j] support [of i] that
    by (simp add: bit_in_def)
  have outs: "weight_of (\<lambda>j. vote_bit votes j i) (vote_weight votes) ?all \<le> unat T div 2" if "bit_out votes T ?fr i" for i
    using support [of i] that by (simp add: bit_out_def word_le_unat)
  show ?thesis
    unfolding FilterBits_def foldl_filterBits_step filter_ok_def using ins outs
    by (auto simp: Filter_init_def bit_out_def)
qed

lemma filter_ok_nowrap:
  assumes "votes_nowrap votes" "filter_ok votes fees T fr"
  shows "unat (fr_GuaranteedWeight fr) + weight_of P (vote_weight votes) (fr_RemainingVotes fr) < 65536"
proof -
  let ?w = "weight_of (\<lambda>_. True) (vote_weight votes)"
  have "weight_of P (vote_weight votes) (fr_RemainingVotes fr) \<le> ?w (fr_RemainingVotes fr)" by (rule weight_of_le_all)
  moreover have "?w (fr_AlwaysInVotes fr @ fr_AlwaysOutVotes fr @ fr_RemainingVotes fr) = ?w [0..<length votes]"
    using assms(2) by (intro weight_of_distinct_set) (auto simp: filter_ok_def)
  moreover have "?w [0..<length votes] < 65536" by (rule votes_nowrap_index [OF assms(1)])
  ultimately show ?thesis using assms(2) by (simp add: filter_ok_def)
qed

lemma weight_of_filtered: "weight_of (\<lambda>_. True) f (filter P ks) = weight_of P f ks"
  by (simp add: weight_of_filter)

lemma FilterVotes_ok [wf_keep]:
  assumes "votes_nowrap votes" "filter_ok votes fees T fr"
  shows "filter_ok votes fees T (fst (FilterVotes votes T fr))"
proof -
  have gw: "unat (add_weights (vote_in votes fr) (vote_weight votes) (fr_RemainingVotes fr) (fr_GuaranteedWeight fr)) =
      unat (fr_GuaranteedWeight fr) + weight_of (vote_in votes fr) (vote_weight votes) (fr_RemainingVotes fr)"
    by (rule unat_add_weights [OF filter_ok_nowrap [OF assms]])
  show ?thesis
    using assms(2) unfolding FilterVotes_def foldl_filterVotes_step filter_ok_def fst_conv
    by (auto simp: gw weight_of_filtered vote_in_def vote_out_def)
qed

lemma FilterBitsOnes_ok [wf_keep]:
  assumes "filter_ok votes fees T fr"
  shows "filter_ok votes fees T (FilterBitsOnes votes fees fr)"
  using assms unfolding FilterBitsOnes_def foldl_filterBitsOnes_step filter_ok_def
  by (auto simp: bit_ones_def)

lemma FilterBits_major:
  assumes "votes_nowrap votes"
  shows "filter_major votes T (FilterBits votes fees T (Filter_init votes fees))"
proof -
  let ?fr = "Filter_init votes fees" and ?all = "[0..<length votes]"
  have support: "unat (bit_support votes ?fr i) = weight_of (\<lambda>j. vote_bit votes j i) (vote_weight votes) ?all" for i
    using votes_nowrap_index [OF assms, of "\<lambda>j. vote_bit votes j i"]
    by (simp add: bit_support_def Filter_init_def unat_add_weights)
  have "unat T div 2 < weight_of (\<lambda>j. vote_bit votes j i) (vote_weight votes) ?all"
    if "\<not> bit_in votes ?fr i" "\<not> bit_out votes T ?fr i" for i
    using support [of i] that by (simp add: bit_out_def word_le_unat)
  then show ?thesis
    unfolding FilterBits_def foldl_filterBits_step filter_major_def by (auto simp: Filter_init_def)
qed

lemma FilterVotes_major [wf_keep]:
  "filter_major votes T fr \<Longrightarrow> filter_major votes T (fst (FilterVotes votes T fr))"
  unfolding FilterVotes_def foldl_filterVotes_step filter_major_def fst_conv
  by (auto simp: vote_out_def vote_in_def filter_empty_conv)

lemma FilterBitsOnes_major [wf_keep]:
  "filter_major votes T fr \<Longrightarrow> filter_major votes T (FilterBitsOnes votes fees fr)"
  unfolding FilterBitsOnes_def foldl_filterBitsOnes_step filter_major_def by auto

lemma Filter_major: "votes_nowrap votes \<Longrightarrow> filter_major votes T (Filter votes fees T)"
  using FilterVotes_major [OF FilterBits_major, of votes T fees]
  by (auto simp: Filter_def Let_def split: prod.splits intro: wf_keep)

lemma Filter_ok: "votes_nowrap votes \<Longrightarrow> filter_ok votes fees T (Filter votes fees T)"
  using FilterVotes_ok [OF _ FilterBits_ok, of votes fees T]
  by (auto simp: Filter_def Let_def split: prod.splits intro: wf_keep)


section \<open>What the aggregators compute\<close>

definition aggregate :: "('i \<Rightarrow> 'k) \<Rightarrow> ('i \<Rightarrow> 'v) \<Rightarrow> ('i \<Rightarrow> 'v \<Rightarrow> 'v) \<Rightarrow> 'i list \<Rightarrow> ('k \<times> 'v) list" where
  "aggregate ident new upd is = foldl (\<lambda>ag i. aggregate_into (ident i) (new i) (upd i) ag) [] is"

lemma aggregate_into_keys:
  "fst ` set (aggregate_into k n u ag) = insert k (fst ` set ag)"
proof (induction ag)
  case (Cons p ag)
  then show ?case by (cases p) (simp add: insert_commute)
qed simp

lemma aggregate_into_distinct:
  "distinct (map fst ag) \<Longrightarrow> distinct (map fst (aggregate_into k n u ag))"
proof (induction ag)
  case (Cons p ag)
  then show ?case using aggregate_into_keys [of k n u ag] by (cases p) auto
qed simp

lemma aggregate_into_entry:
  "distinct (map fst ag) \<Longrightarrow>
   (k', v) \<in> set (aggregate_into k n u ag) \<longleftrightarrow>
     (if k' = k then (\<exists>v0. (k, v0) \<in> set ag \<and> v = u v0) \<or> k \<notin> fst ` set ag \<and> v = n else (k', v) \<in> set ag)"
proof (induction ag)
  case (Cons p ag)
  obtain a b where p: "p = (a, b)" by fastforce
  have "(a, w) \<notin> set ag" for w using Cons.prems p by force
  with Cons p show ?case by (cases "a = k"; cases "k' = k") auto
qed auto

definition merged :: "('i \<Rightarrow> 'v) \<Rightarrow> ('i \<Rightarrow> 'v \<Rightarrow> 'v) \<Rightarrow> 'i list \<Rightarrow> 'v" where
  "merged new upd g = foldl (\<lambda>v i. upd i v) (new (hd g)) (tl g)"

lemma merged_single [simp]: "merged new upd [i] = new i"
  by (simp add: merged_def)

lemma merged_snoc: "g \<noteq> [] \<Longrightarrow> merged new upd (g @ [i]) = upd i (merged new upd g)"
  by (simp add: merged_def)

text \<open>
  The contract of an aggregation loop: a group records the elements it was made of. Then there is one
  group per identifier, it records exactly the elements with that identifier in the order of the list,
  and it is the group of its first element updated with the others.
\<close>

locale aggregator =
  fixes ident :: "'i \<Rightarrow> 'k" and new :: "'i \<Rightarrow> 'v" and upd :: "'i \<Rightarrow> 'v \<Rightarrow> 'v" and idx :: "'v \<Rightarrow> 'i list"
  assumes idx_new: "idx (new i) = [i]"
    and idx_upd: "idx (upd i v) = idx v @ [i]"
begin

lemma aggregate_into_idx:
  "mset (concat (map (\<lambda>(k, v). idx v) (aggregate_into k (new i) (upd i) ag))) =
     add_mset i (mset (concat (map (\<lambda>(k, v). idx v) ag)))"
  by (induction ag) (auto simp: idx_new idx_upd)

lemma idx_merged: "g \<noteq> [] \<Longrightarrow> idx (merged new upd g) = g"
proof (induction g rule: rev_induct)
  case (snoc i g)
  then show ?case by (cases "g = []") (simp_all add: idx_new idx_upd merged_snoc)
qed simp

lemma aggregate_groups:
  "distinct (map fst (aggregate ident new upd is)) \<and>
   fst ` set (aggregate ident new upd is) = ident ` set is \<and>
   mset (concat (map (\<lambda>(k, v). idx v) (aggregate ident new upd is))) = mset is \<and>
   (\<forall>(k, v) \<in> set (aggregate ident new upd is). v = merged new upd (filter (\<lambda>i. ident i = k) is))"
proof (induction "is" rule: rev_induct)
  case Nil
  then show ?case by (simp add: aggregate_def)
next
  case (snoc i "is")
  let ?ag = "aggregate ident new upd is"
  have step: "aggregate ident new upd (is @ [i]) = aggregate_into (ident i) (new i) (upd i) ?ag"
    by (simp add: aggregate_def)
  have dist: "distinct (map fst ?ag)" and keys: "fst ` set ?ag = ident ` set is"
    and grp: "\<And>k v. (k, v) \<in> set ?ag \<Longrightarrow> v = merged new upd (filter (\<lambda>i. ident i = k) is)"
    using snoc by auto
  have entry: "v = merged new upd (filter (\<lambda>i. ident i = k) (is @ [i]))"
    if "(k, v) \<in> set (aggregate_into (ident i) (new i) (upd i) ?ag)" for k v
  proof (cases "k = ident i")
    case False
    with that grp [of k v] show ?thesis by (simp add: aggregate_into_entry [OF dist])
  next
    case True
    with that consider v0 where "(k, v0) \<in> set ?ag" "v = upd i v0" | "k \<notin> fst ` set ?ag" "v = new i"
      by (auto simp: aggregate_into_entry [OF dist])
    then show ?thesis
    proof cases
      case 1
      have "k \<in> ident ` set is" using 1 keys by force
      then have "filter (\<lambda>i. ident i = k) is \<noteq> []" by (auto simp: filter_empty_conv)
      with 1 True grp [OF 1(1)] show ?thesis by (simp add: merged_snoc)
    next
      case 2
      then have "filter (\<lambda>i. ident i = k) is = []" using keys by (auto simp: filter_empty_conv)
      with 2 True show ?thesis by simp
    qed
  qed
  show ?case
    unfolding step
    using entry snoc aggregate_into_keys [of "ident i" "new i" "upd i" ?ag]
      aggregate_into_distinct [OF dist, of "ident i" "new i" "upd i"]
    by (auto simp: aggregate_into_idx)
qed

lemma groups_distinct: "distinct (map fst (aggregate ident new upd is))"
  using aggregate_groups [of "is"] by simp

lemma group_mset: "mset (concat (map idx (map snd (aggregate ident new upd is)))) = mset is"
  using aggregate_groups [of "is"] by (simp add: comp_def case_prod_unfold)

lemma group_entry:
  assumes "v \<in> set (map snd (aggregate ident new upd is))"
  obtains k where "idx v = filter (\<lambda>i. ident i = k) is" "idx v \<noteq> []" "v = merged new upd (idx v)"
proof -
  from assms obtain k where kv: "(k, v) \<in> set (aggregate ident new upd is)" by auto
  then have v: "v = merged new upd (filter (\<lambda>i. ident i = k) is)" using aggregate_groups [of "is"] by blast
  from kv have "k \<in> ident ` set is" using aggregate_groups [of "is"] by force
  then have ne: "filter (\<lambda>i. ident i = k) is \<noteq> []" by (auto simp: filter_empty_conv)
  have idx: "idx v = filter (\<lambda>i. ident i = k) is" unfolding v by (rule idx_merged [OF ne])
  show thesis
  proof (rule that)
    show "v = merged new upd (idx v)" by (simp only: idx v [symmetric])
  qed (use idx ne in simp_all)
qed

lemma group_agree:
  assumes "v \<in> set (map snd (aggregate ident new upd is))" "i \<in> set (idx v)"
  shows "ident i = ident (hd (idx v))" "i \<in> set is" "hd (idx v) \<in> set is"
proof -
  obtain k where k: "idx v = filter (\<lambda>i. ident i = k) is" "idx v \<noteq> []" using assms(1) by (rule group_entry)
  then have "hd (idx v) \<in> set (filter (\<lambda>i. ident i = k) is)" by (metis hd_in_set)
  with assms(2) k show "ident i = ident (hd (idx v))" "i \<in> set is" "hd (idx v) \<in> set is" by auto
qed

end

abbreviation bit_ident :: "WeightedBitVote list \<Rightarrow> nat list \<Rightarrow> nat \<Rightarrow> string" where
  "bit_ident votes vs i \<equiv> map (\<lambda>j. if vote_bit votes j i then CHR ''1'' else CHR ''0'') vs"

abbreviation vote_ident :: "WeightedBitVote list \<Rightarrow> nat list \<Rightarrow> nat \<Rightarrow> string" where
  "vote_ident votes bs j \<equiv> map (\<lambda>i. if vote_bit votes j i then CHR ''1'' else CHR ''0'') bs"

abbreviation new_bit :: "WeightedBitVote list \<Rightarrow> int list \<Rightarrow> u16 \<Rightarrow> nat list \<Rightarrow> nat \<Rightarrow> AggregatedBit" where
  "new_bit votes fees gw vs i \<equiv> \<lparr>ab_Fee = fees ! i, ab_Indexes = [i],
     ab_Support = add_weights (\<lambda>j. vote_bit votes j i) (vote_weight votes) vs gw, ab_value = None\<rparr>"

abbreviation upd_bit :: "int list \<Rightarrow> nat \<Rightarrow> AggregatedBit \<Rightarrow> AggregatedBit" where
  "upd_bit fees i \<equiv> \<lambda>b. b\<lparr>ab_Fee := ab_Fee b + fees ! i, ab_Indexes := ab_Indexes b @ [i]\<rparr>"

abbreviation new_vote :: "WeightedBitVote list \<Rightarrow> int list \<Rightarrow> int \<Rightarrow> nat list \<Rightarrow> nat \<Rightarrow> AggregatedVote" where
  "new_vote votes fees gf bs j \<equiv> \<lparr>av_BitVector = bv_BitVector (wbv_BitVote (votes ! j)), av_Weight = vote_weight votes j,
     av_Indexes = [j], av_Fees = foldl (\<lambda>acc i. if vote_bit votes j i then acc + fees ! i else acc) gf bs\<rparr>"

abbreviation upd_vote :: "WeightedBitVote list \<Rightarrow> nat \<Rightarrow> AggregatedVote \<Rightarrow> AggregatedVote" where
  "upd_vote votes j \<equiv> \<lambda>v. v\<lparr>av_Weight := av_Weight v + vote_weight votes j, av_Indexes := av_Indexes v @ [j]\<rparr>"

interpretation aggBits: aggregator "bit_ident votes vs" "new_bit votes fees gw vs" "upd_bit fees" ab_Indexes
  for votes vs fees gw
  by unfold_locales simp_all

interpretation aggVotes: aggregator "vote_ident votes bs" "new_vote votes fees gf bs" "upd_vote votes" av_Indexes
  for votes bs fees gf
  by unfold_locales simp_all

lemma AggregateBits_aggregate:
  "AggregateBits votes fees fr =
     map snd (aggregate (bit_ident votes (sort (fr_RemainingVotes fr)))
       (new_bit votes fees (fr_GuaranteedWeight fr) (sort (fr_RemainingVotes fr))) (upd_bit fees)
       (sort (fr_RemainingBits fr)))"
  by (simp add: AggregateBits_def aggregate_def aggregateBits_step_def [abs_def] Let_def)

lemma AggregateVotes_aggregate:
  "AggregateVotes votes fees fr =
     map snd (aggregate (vote_ident votes (sort (fr_RemainingBits fr)))
       (new_vote votes fees (fr_GuaranteedFees fr) (sort (fr_RemainingBits fr))) (upd_vote votes)
       (sort (fr_RemainingVotes fr)))"
  by (simp add: AggregateVotes_def aggregate_def aggregateVotes_step_def [abs_def] Let_def)


lemma merged_bit_fee: "g \<noteq> [] \<Longrightarrow> ab_Fee (merged (new_bit votes fees gw vs) (upd_bit fees) g) = sum_list (map ((!) fees) g)"
proof (induction g rule: rev_induct)
  case (snoc i g)
  then show ?case by (cases "g = []") (simp_all add: merged_snoc)
qed simp

lemma merged_vote:
  assumes "g \<noteq> []" "weight_of (\<lambda>_. True) (vote_weight votes) g < 65536"
  shows "av_BitVector (merged (new_vote votes fees gf bs) (upd_vote votes) g) = bv_BitVector (wbv_BitVote (votes ! hd g))"
    "unat (av_Weight (merged (new_vote votes fees gf bs) (upd_vote votes) g)) = weight_of (\<lambda>_. True) (vote_weight votes) g"
proof -
  let ?m = "merged (new_vote votes fees gf bs) (upd_vote votes)"
  have "av_BitVector (?m g) = bv_BitVector (wbv_BitVote (votes ! hd g)) \<and>
      unat (av_Weight (?m g)) = weight_of (\<lambda>_. True) (vote_weight votes) g"
    using assms
  proof (induction g rule: rev_induct)
    case (snoc j g)
    show ?case
    proof (cases "g = []")
      case False
      with snoc have "unat (av_Weight (?m g) + vote_weight votes j) = unat (av_Weight (?m g)) + unat (vote_weight votes j)"
        by (intro unat_plus_nowrap) simp
      with snoc False show ?thesis by (simp add: merged_snoc)
    qed simp
  qed simp
  then show "av_BitVector (?m g) = bv_BitVector (wbv_BitVote (votes ! hd g))"
    "unat (av_Weight (?m g)) = weight_of (\<lambda>_. True) (vote_weight votes) g" by auto
qed

section \<open>The reduced problem is the original one\<close>

text \<open>The original bits that a list of aggregated bits stands for.\<close>

definition covers :: "AggregatedBit list \<Rightarrow> nat set" where
  "covers bs = (\<Union>b\<in>set bs. set (ab_Indexes b))"

lemma AggregateBits_entry:
  assumes "b \<in> set (AggregateBits votes fees fr)"
  shows "ab_Indexes b \<noteq> []" "set (ab_Indexes b) \<subseteq> set (fr_RemainingBits fr)"
    "ab_Fee b = sum_list (map ((!) fees) (ab_Indexes b))"
    "i \<in> set (ab_Indexes b) \<Longrightarrow> j \<in> set (fr_RemainingVotes fr) \<Longrightarrow> vote_bit votes j i = vote_bit votes j (hd (ab_Indexes b))"
proof -
  let ?new = "new_bit votes fees (fr_GuaranteedWeight fr) (sort (fr_RemainingVotes fr))"
  note b = assms [unfolded AggregateBits_aggregate]
  obtain k where k: "ab_Indexes b = filter (\<lambda>i. bit_ident votes (sort (fr_RemainingVotes fr)) i = k) (sort (fr_RemainingBits fr))"
    "ab_Indexes b \<noteq> []" "b = merged ?new (upd_bit fees) (ab_Indexes b)"
    by (rule aggBits.group_entry [OF b])
  show "ab_Indexes b \<noteq> []" by (rule k(2))
  have "set (ab_Indexes b) = set (filter (\<lambda>i. bit_ident votes (sort (fr_RemainingVotes fr)) i = k) (sort (fr_RemainingBits fr)))"
    by (simp only: k(1))
  then show "set (ab_Indexes b) \<subseteq> set (fr_RemainingBits fr)" by auto
  show "ab_Fee b = sum_list (map ((!) fees) (ab_Indexes b))"
    using merged_bit_fee [OF k(2), where votes = votes and fees = fees and gw = "fr_GuaranteedWeight fr" and vs = "sort (fr_RemainingVotes fr)"]
    by (simp only: k(3) [symmetric])
  show "vote_bit votes j i = vote_bit votes j (hd (ab_Indexes b))"
    if "i \<in> set (ab_Indexes b)" "j \<in> set (fr_RemainingVotes fr)"
    using aggBits.group_agree(1) [OF b that(1)] that(2) by (auto simp: map_eq_conv split: if_splits)
qed

lemma AggregateVotes_entry:
  assumes "v \<in> set (AggregateVotes votes fees fr)"
    and "weight_of (\<lambda>_. True) (vote_weight votes) (fr_RemainingVotes fr) < 65536"
  shows "av_Indexes v \<noteq> []" "set (av_Indexes v) \<subseteq> set (fr_RemainingVotes fr)"
    "unat (av_Weight v) = weight_of (\<lambda>_. True) (vote_weight votes) (av_Indexes v)"
    "j \<in> set (av_Indexes v) \<Longrightarrow> i \<in> set (fr_RemainingBits fr) \<Longrightarrow> bit (av_BitVector v) i = vote_bit votes j i"
proof -
  let ?new = "new_vote votes fees (fr_GuaranteedFees fr) (sort (fr_RemainingBits fr))"
  note v = assms(1) [unfolded AggregateVotes_aggregate]
  obtain k where k: "av_Indexes v = filter (\<lambda>j. vote_ident votes (sort (fr_RemainingBits fr)) j = k) (sort (fr_RemainingVotes fr))"
    "av_Indexes v \<noteq> []" "v = merged ?new (upd_vote votes) (av_Indexes v)"
    by (rule aggVotes.group_entry [OF v])
  show "av_Indexes v \<noteq> []" by (rule k(2))
  have "set (av_Indexes v) = set (filter (\<lambda>j. vote_ident votes (sort (fr_RemainingBits fr)) j = k) (sort (fr_RemainingVotes fr)))"
    by (simp only: k(1))
  then show "set (av_Indexes v) \<subseteq> set (fr_RemainingVotes fr)" by auto
  have "weight_of (\<lambda>_. True) (vote_weight votes) (av_Indexes v) \<le>
      weight_of (\<lambda>_. True) (vote_weight votes) (sort (fr_RemainingVotes fr))"
    unfolding k(1) weight_of_filtered by (rule weight_of_le_all)
  also have "\<dots> = weight_of (\<lambda>_. True) (vote_weight votes) (fr_RemainingVotes fr)" by (rule weight_of_mset) simp
  finally have "weight_of (\<lambda>_. True) (vote_weight votes) (av_Indexes v) < 65536" using assms(2) by simp
  note m = merged_vote [OF k(2) this, of fees "fr_GuaranteedFees fr" "sort (fr_RemainingBits fr)", unfolded k(3) [symmetric]]
  show "unat (av_Weight v) = weight_of (\<lambda>_. True) (vote_weight votes) (av_Indexes v)" by (rule m(2))
  show "bit (av_BitVector v) i = vote_bit votes j i" if "j \<in> set (av_Indexes v)" "i \<in> set (fr_RemainingBits fr)"
    using aggVotes.group_agree(1) [OF v that(1)] that(2) m(1) by (auto simp: map_eq_conv split: if_splits)
qed

lemma aggregated_weight:
  assumes nw: "weight_of (\<lambda>_. True) (vote_weight votes) (fr_RemainingVotes fr) < 65536"
    and bs: "set bs \<subseteq> set (AggregateBits votes fees fr)"
  shows "weight_of (\<lambda>v. \<forall>b\<in>set bs. has_bit v b) av_Weight (AggregateVotes votes fees fr) =
     weight_of (\<lambda>j. \<forall>i\<in>covers bs. vote_bit votes j i) (vote_weight votes) (fr_RemainingVotes fr)"
proof -
  let ?AV = "AggregateVotes votes fees fr" and ?P = "\<lambda>j. \<forall>i\<in>covers bs. vote_bit votes j i"
  have group: "weight_of ?P (vote_weight votes) (av_Indexes v) = (if \<forall>b\<in>set bs. has_bit v b then unat (av_Weight v) else 0)"
    if v: "v \<in> set ?AV" for v
  proof -
    have "?P j = (\<forall>b\<in>set bs. has_bit v b)" if j: "j \<in> set (av_Indexes v)" for j
    proof -
      have hb: "vote_bit votes j i = has_bit v b" if b: "b \<in> set bs" "i \<in> set (ab_Indexes b)" for b i
      proof -
        have b': "b \<in> set (AggregateBits votes fees fr)" using b bs by blast
        have "vote_bit votes j i = vote_bit votes j (hd (ab_Indexes b))"
          using AggregateBits_entry(4) [OF b' b(2)] AggregateVotes_entry(2) [OF v nw] j by blast
        also have "\<dots> = bit (av_BitVector v) (hd (ab_Indexes b))"
          using AggregateVotes_entry(4) [OF v nw j] AggregateBits_entry(1,2) [OF b'] hd_in_set by blast
        finally show ?thesis by (simp add: has_bit_def)
      qed
      have first: "hd (ab_Indexes b) \<in> set (ab_Indexes b)" if "b \<in> set bs" for b
        using AggregateBits_entry(1) [of b votes fees fr] bs that by (intro hd_in_set) blast
      have "?P j \<longleftrightarrow> (\<forall>b\<in>set bs. \<forall>i\<in>set (ab_Indexes b). vote_bit votes j i)" by (simp add: covers_def)
      also have "\<dots> \<longleftrightarrow> (\<forall>b\<in>set bs. \<forall>i\<in>set (ab_Indexes b). has_bit v b)" using hb by (intro ball_cong) auto
      also have "\<dots> \<longleftrightarrow> (\<forall>b\<in>set bs. has_bit v b)" using first by blast
      finally show ?thesis .
    qed
    then have "weight_of ?P (vote_weight votes) (av_Indexes v) =
        weight_of (\<lambda>_. \<forall>b\<in>set bs. has_bit v b) (vote_weight votes) (av_Indexes v)"
      by (intro weight_of_cong) blast
    also have "\<dots> = (if \<forall>b\<in>set bs. has_bit v b then unat (av_Weight v) else 0)"
      unfolding weight_of_const [of "\<forall>b\<in>set bs. has_bit v b"] AggregateVotes_entry(3) [OF v nw] by simp
    finally show ?thesis .
  qed
  have "mset (concat (map av_Indexes ?AV)) = mset (fr_RemainingVotes fr)"
    unfolding AggregateVotes_aggregate by (simp add: aggVotes.group_mset del: map_map)
  then have "weight_of ?P (vote_weight votes) (fr_RemainingVotes fr) =
      weight_of ?P (vote_weight votes) (concat (map av_Indexes ?AV))"
    by (intro weight_of_mset) simp
  also have "\<dots> = sum_list (map (\<lambda>v. weight_of ?P (vote_weight votes) (av_Indexes v)) ?AV)"
    by (simp add: weight_of_concat comp_def)
  also have "\<dots> = weight_of (\<lambda>v. \<forall>b\<in>set bs. has_bit v b) av_Weight ?AV"
    unfolding weight_of_sum [of _ av_Weight] using group by (intro arg_cong [of _ _ sum_list] map_cong) auto
  finally show ?thesis by simp
qed


section \<open>Sets of bits against the votes of a round\<close>

text \<open>
  The problem as the protocol states it: a set \<open>S\<close> of attestation indexes, the weight of the votes
  that confirm all of \<open>S\<close>, the sum of its fees, and its value.
\<close>

definition supp_weight :: "WeightedBitVote list \<Rightarrow> nat set \<Rightarrow> nat" where
  "supp_weight votes S = weight_of (\<lambda>v. \<forall>i\<in>S. bit (bv_BitVector (wbv_BitVote v)) i) wbv_Weight votes"

definition fees_sum :: "int list \<Rightarrow> nat set \<Rightarrow> int" where
  "fees_sum fees S = (\<Sum>i\<in>S. fees ! i)"

definition set_value :: "WeightedBitVote list \<Rightarrow> int list \<Rightarrow> u16 \<Rightarrow> nat set \<Rightarrow> Value" where
  "set_value votes fees T S = value_of (fees_sum fees S) (supp_weight votes S) (unat T)"

lemma supp_weight_index:
  "supp_weight votes S = weight_of (\<lambda>j. \<forall>i\<in>S. vote_bit votes j i) (vote_weight votes) [0..<length votes]"
  unfolding supp_weight_def by (rule weight_of_nth [symmetric])

lemma supp_weight_parts:
  assumes "filter_ok votes fees T fr"
  shows "supp_weight votes S =
     weight_of (\<lambda>j. \<forall>i\<in>S. vote_bit votes j i) (vote_weight votes) (fr_AlwaysInVotes fr) +
     weight_of (\<lambda>j. \<forall>i\<in>S. vote_bit votes j i) (vote_weight votes) (fr_AlwaysOutVotes fr) +
     weight_of (\<lambda>j. \<forall>i\<in>S. vote_bit votes j i) (vote_weight votes) (fr_RemainingVotes fr)"
proof -
  have "supp_weight votes S = weight_of (\<lambda>j. \<forall>i\<in>S. vote_bit votes j i) (vote_weight votes)
      (fr_AlwaysInVotes fr @ fr_AlwaysOutVotes fr @ fr_RemainingVotes fr)"
    unfolding supp_weight_index using assms by (intro weight_of_distinct_set) (auto simp: filter_ok_def)
  then show ?thesis by (simp add: add.assoc)
qed

text \<open>
  On a set of bits that are not out, the filtered weight is the weight of its supporters; on the empty
  set the votes that are out are not counted.
\<close>

lemma weight_of_nonzero_cong:
  "(\<And>k. k \<in> set ks \<Longrightarrow> f k \<noteq> 0 \<Longrightarrow> P k = Q k) \<Longrightarrow> weight_of P f ks = weight_of Q f ks"
  by (subst (1 2) weight_of_nonzero [symmetric], rule weight_of_cong) blast

lemma filtered_weight:
  assumes ok: "filter_ok votes fees T fr" and S: "S \<subseteq> set (fr_AlwaysInBits fr) \<union> set (fr_RemainingBits fr)"
  defines "w \<equiv> unat (fr_GuaranteedWeight fr) +
      weight_of (\<lambda>j. \<forall>i\<in>S \<inter> set (fr_RemainingBits fr). vote_bit votes j i) (vote_weight votes) (fr_RemainingVotes fr)"
  shows "w \<le> supp_weight votes S" "S \<noteq> {} \<Longrightarrow> supp_weight votes S = w"
proof -
  let ?P = "\<lambda>j. \<forall>i\<in>S. vote_bit votes j i"
  have ains: "\<And>i j. i \<in> set (fr_AlwaysInBits fr) \<Longrightarrow> j \<in> set (fr_AlwaysInVotes fr) \<union> set (fr_RemainingVotes fr) \<Longrightarrow>
      vote_weight votes j \<noteq> 0 \<Longrightarrow> vote_bit votes j i"
    and vins: "\<And>i j. j \<in> set (fr_AlwaysInVotes fr) \<Longrightarrow> i \<in> set (fr_RemainingBits fr) \<Longrightarrow> vote_bit votes j i"
    and vouts: "\<And>i j. j \<in> set (fr_AlwaysOutVotes fr) \<Longrightarrow> i \<in> set (fr_AlwaysInBits fr) \<union> set (fr_RemainingBits fr) \<Longrightarrow>
      \<not> vote_bit votes j i"
    using ok by (auto simp: filter_ok_def)
  have "weight_of ?P (vote_weight votes) (fr_AlwaysInVotes fr) = weight_of (\<lambda>_. True) (vote_weight votes) (fr_AlwaysInVotes fr)"
    using ains vins S by (intro weight_of_nonzero_cong) blast
  also have "\<dots> = unat (fr_GuaranteedWeight fr)" using ok by (simp add: filter_ok_def)
  finally have in_votes: "weight_of ?P (vote_weight votes) (fr_AlwaysInVotes fr) = unat (fr_GuaranteedWeight fr)" .
  have rem: "weight_of ?P (vote_weight votes) (fr_RemainingVotes fr) =
      weight_of (\<lambda>j. \<forall>i\<in>S \<inter> set (fr_RemainingBits fr). vote_bit votes j i) (vote_weight votes) (fr_RemainingVotes fr)"
    using ains S by (intro weight_of_nonzero_cong) blast
  show "w \<le> supp_weight votes S"
    unfolding supp_weight_parts [OF ok] w_def in_votes rem by simp
  assume ne: "S \<noteq> {}"
  have "weight_of ?P (vote_weight votes) (fr_AlwaysOutVotes fr) = weight_of (\<lambda>_. False) (vote_weight votes) (fr_AlwaysOutVotes fr)"
    using ne vouts S by (intro weight_of_cong) blast
  then show "supp_weight votes S = w"
    unfolding supp_weight_parts [OF ok] w_def in_votes rem by (simp add: weight_of_const [of False])
qed

lemma feasible_not_out:
  assumes "filter_ok votes fees T fr" "S \<subseteq> {..<length fees}" "unat T div 2 < supp_weight votes S"
  shows "S \<subseteq> set (fr_AlwaysInBits fr) \<union> set (fr_RemainingBits fr)"
proof
  fix i assume i: "i \<in> S"
  have "supp_weight votes S \<le> weight_of (\<lambda>j. vote_bit votes j i) (vote_weight votes) [0..<length votes]"
    unfolding supp_weight_index using i by (intro weight_of_mono) blast
  then have "i \<notin> set (fr_AlwaysOutBits fr)" using assms(1,3) unfolding filter_ok_def by (meson leD le_trans)
  moreover have "i \<in> set (fr_AlwaysInBits fr @ fr_AlwaysOutBits fr @ fr_RemainingBits fr)"
    using assms(1,2) i unfolding filter_ok_def by blast
  ultimately show "i \<in> set (fr_AlwaysInBits fr) \<union> set (fr_RemainingBits fr)" by auto
qed

section \<open>Properties\<close>

text \<open>
  Filtering loses no candidate: a set of attestations that is supported by more than half of the total
  weight contains no attestation that the filter has dropped, it consists of attestations that the filter has
  accepted for good or kept.
\<close>

lemma filter_keeps_candidates:
  assumes "votes_nowrap votes" "S \<subseteq> {..<length fees}" "unat T div 2 < supp_weight votes S"
  shows "S \<inter> set (fr_AlwaysOutBits (Filter votes fees T)) = {} \<and>
    S \<subseteq> set (fr_AlwaysInBits (Filter votes fees T)) \<union> set (fr_RemainingBits (Filter votes fees T))"
proof -
  note ok = Filter_ok [OF assms(1), of fees T]
  have "S \<subseteq> set (fr_AlwaysInBits (Filter votes fees T)) \<union> set (fr_RemainingBits (Filter votes fees T))"
    by (rule feasible_not_out [OF ok assms(2,3)])
  moreover from ok have "distinct (fr_AlwaysInBits (Filter votes fees T) @ fr_AlwaysOutBits (Filter votes fees T) @
      fr_RemainingBits (Filter votes fees T))" by (simp add: filter_ok_def)
  ultimately show ?thesis by auto
qed

abbreviation (input) small_vote :: "u16 \<Rightarrow> int \<Rightarrow> WeightedBitVote" where
  "small_vote weight bits \<equiv> \<lparr>wbv_Index = 0, wbv_IndexTx = \<lparr>tx_BlockNumber = 1, tx_TransactionIndex = 0\<rparr>, wbv_Weight = weight,
     wbv_BitVote = \<lparr>bv_Length = 3, bv_BitVector = bits\<rparr>\<rparr>"

text \<open>
  C23. Aggregation loses no weight: the weight with which the bit votes of the providers support a choice of
  aggregated bits, together with the bits accepted for good, is the guaranteed weight plus the weight of the
  aggregated votes that have all the chosen aggregated bits.
\<close>

theorem aggregation_keeps_weight:
  assumes nw: "votes_nowrap votes" and agg: "FilterAndAggregate votes fees T = (avotes, abits, fr)" and bs: "set bs \<subseteq> set abits"
    and ne: "set (fr_AlwaysInBits fr) \<union> covers bs \<noteq> {}"
  shows "supp_weight votes (set (fr_AlwaysInBits fr) \<union> covers bs) =
    unat (fr_GuaranteedWeight fr) + weight_of (\<lambda>v. \<forall>b\<in>set bs. has_bit v b) av_Weight avotes"
proof -
  have fr: "fr = Filter votes fees T" and abits: "abits = AggregateBits votes fees fr" and avotes: "avotes = AggregateVotes votes fees fr"
    using agg by (auto simp: FilterAndAggregate_def Let_def)
  have ok: "filter_ok votes fees T fr" unfolding fr by (rule Filter_ok [OF nw])
  have sub: "covers bs \<subseteq> set (fr_RemainingBits fr)"
    using AggregateBits_entry(2) bs unfolding covers_def abits by blast
  moreover have "set (fr_AlwaysInBits fr) \<inter> set (fr_RemainingBits fr) = {}" using ok by (auto simp: filter_ok_def)
  ultimately have cov: "(set (fr_AlwaysInBits fr) \<union> covers bs) \<inter> set (fr_RemainingBits fr) = covers bs" by blast
  have "weight_of (\<lambda>_. True) (vote_weight votes) (fr_RemainingVotes fr) < 65536"
    using filter_ok_nowrap [OF nw ok, of "\<lambda>_. True"] by simp
  then have w: "weight_of (\<lambda>v. \<forall>b\<in>set bs. has_bit v b) av_Weight avotes =
      weight_of (\<lambda>j. \<forall>i\<in>covers bs. vote_bit votes j i) (vote_weight votes) (fr_RemainingVotes fr)"
    using bs unfolding avotes abits by (rule aggregated_weight)
  have "set (fr_AlwaysInBits fr) \<union> covers bs \<subseteq> set (fr_AlwaysInBits fr) \<union> set (fr_RemainingBits fr)" using sub by blast
  from filtered_weight(2) [OF ok this ne] show ?thesis unfolding cov w .
qed

theorem aggregation_keeps_weight_witness:
  "\<exists>avotes abits fr. FilterAndAggregate [small_vote 30 3, small_vote 40 5, small_vote 30 6] [5, 7, 9] 100 = (avotes, abits, fr) \<and>
     supp_weight [small_vote 30 3, small_vote 40 5, small_vote 30 6] (set (fr_AlwaysInBits fr) \<union> covers [hd abits]) =
       unat (fr_GuaranteedWeight fr) + weight_of (\<lambda>v. \<forall>b\<in>set [hd abits]. has_bit v b) av_Weight avotes"
proof -
  let ?votes = "[small_vote 30 3, small_vote 40 5, small_vote 30 6]"
  obtain avotes abits fr where e: "FilterAndAggregate ?votes [5, 7, 9] 100 = (avotes, abits, fr)" by (metis prod_cases3)
  have "case FilterAndAggregate ?votes [5, 7, 9] 100 of (avotes, abits, fr) \<Rightarrow> abits \<noteq> [] \<and> covers [hd abits] \<noteq> {}" by code_simp
  with e have ne: "abits \<noteq> []" "covers [hd abits] \<noteq> {}" by simp_all
  have "votes_nowrap ?votes" by (simp add: votes_nowrap_def weight_of_def)
  moreover from ne have "set [hd abits] \<subseteq> set abits" "set (fr_AlwaysInBits fr) \<union> covers [hd abits] \<noteq> {}" by auto
  ultimately have "supp_weight ?votes (set (fr_AlwaysInBits fr) \<union> covers [hd abits]) =
       unat (fr_GuaranteedWeight fr) + weight_of (\<lambda>v. \<forall>b\<in>set [hd abits]. has_bit v b) av_Weight avotes"
    by (intro aggregation_keeps_weight [OF _ e])
  with e show ?thesis by blast
qed

end
