(* ===== verification/BB_Bits.thy ===== *)
theory BB_Bits
  imports BB_Search
begin

text \<open>
  \<^verbatim>\<open>branchAndBoundBits.go\<close>: the search over subsets of aggregated bits, its two strategies run side by
  side, and \<^verbatim>\<open>MaximizeBits\<close> with \<^verbatim>\<open>CalcValueFromFees\<close> of \<^verbatim>\<open>ensemble.go\<close>. The recursion interprets
  \<open>branch_search\<close>; the double strategy interprets \<open>solver\<close>.
\<close>

section \<open>The recursion\<close>

fun withOne_loop :: "AggregatedVote list \<Rightarrow> nat \<Rightarrow> nat list \<Rightarrow> nat list \<Rightarrow> u16 \<Rightarrow> nat list \<times> u16" where
  "withOne_loop votes b [] newIncludedVotes newCurrentWeight = (newIncludedVotes, newCurrentWeight)"
| "withOne_loop votes b (i # is) newIncludedVotes newCurrentWeight =
     (if bit (av_BitVector (votes ! i)) b
      then withOne_loop votes b is (key_insert i newIncludedVotes) newCurrentWeight
      else withOne_loop votes b is newIncludedVotes (newCurrentWeight - av_Weight (votes ! i)))"

definition prepareDataForBranchWithOne ::
  "ProcessInfo \<Rightarrow> SharedStatus \<Rightarrow> nat list \<Rightarrow> u16 \<Rightarrow> nat \<Rightarrow> nat list \<times> u16 \<times> SharedStatus" where
  "prepareDataForBranchWithOne processInfo currentStatus includedVotes currentWeight bitIndex =
     (let b = hd (ab_Indexes (pi_Bits processInfo ! bitIndex));
          (newIncludedVotes, newCurrentWeight) =
            withOne_loop (pi_BitVotes processInfo) b includedVotes [] currentWeight
      in (newIncludedVotes, newCurrentWeight,
          add_operations currentStatus (int (length includedVotes div 2))))"

definition joinResultsAttestations ::
  "branchAndBoundPartialSolution option \<Rightarrow> branchAndBoundPartialSolution option \<Rightarrow> nat \<Rightarrow>
   branchAndBoundPartialSolution option" where
  "joinResultsAttestations result0 result1 branch =
     (case (result0, result1) of
        (None, None) \<Rightarrow> None
      | (Some r0, None) \<Rightarrow> Some r0
      | (None, Some r1) \<Rightarrow> Some (r1\<lparr>ps_Bits := key_insert branch (ps_Bits r1)\<rparr>)
      | (Some r0, Some r1) \<Rightarrow>
          if Value_Cmp (ps_Value r0) (ps_Value r1) = -1
          then Some (r1\<lparr>ps_Bits := key_insert branch (ps_Bits r1)\<rparr>)
          else Some r0)"

text \<open>
  A call with \<^verbatim>\<open>branch\<close> beyond \<^verbatim>\<open>NumAttestations\<close> does not occur (the search starts at 0 and goes one
  deeper per call); the leaf test is written with \<open>\<le>\<close> so that the recursion is total.
\<close>

function BranchBits ::
  "ProcessInfo \<Rightarrow> SharedStatus \<Rightarrow> nat \<Rightarrow> nat list \<Rightarrow> u16 \<Rightarrow> int \<Rightarrow>
   SharedStatus \<times> branchAndBoundPartialSolution option" where
  "BranchBits processInfo currentStatus branch includedVotes currentWeight feeSum =
     (let st = add_operations currentStatus 1 in
      if pi_NumAttestations processInfo \<le> branch then
        (let value = CalcValue feeSum currentWeight (pi_TotalWeight processInfo) in
         if Value_Cmp value (ss_CurrentBound st) = 1
         then (st\<lparr>ss_CurrentBound := value\<rparr>,
               Some \<lparr>ps_Votes = includedVotes, ps_Bits = [], ps_Value = value\<rparr>)
         else (st, None))
      else if pi_MaxOperations processInfo \<le> ss_NumOperations st then (st, None)
      else if Value_Cmp (CalcValue feeSum currentWeight (pi_TotalWeight processInfo)) (ss_CurrentBound st) \<noteq> 1
      then (st, None)
      else
        (let (st, result0) =
               (if pi_ExcludeFirst processInfo
                then BranchBits processInfo (add_operations st 1) (Suc branch) includedVotes currentWeight
                       (feeSum - ab_Fee (pi_Bits processInfo ! branch))
                else (st, None));
             (newIncludedVotes, newCurrentWeight, st) =
               prepareDataForBranchWithOne processInfo st includedVotes currentWeight branch;
             (st, result1) =
               (if pi_LowerBoundWeight processInfo < newCurrentWeight
                then BranchBits processInfo st (Suc branch) newIncludedVotes newCurrentWeight feeSum
                else (st, None));
             (st, result0) =
               (if \<not> pi_ExcludeFirst processInfo
                then BranchBits processInfo (add_operations st 1) (Suc branch) includedVotes currentWeight
                       (feeSum - ab_Fee (pi_Bits processInfo ! branch))
                else (st, result0))
         in (st, joinResultsAttestations result0 result1 branch)))"
  by pat_completeness auto
termination
  by (relation "measure (\<lambda>(p, st, branch, v, w, f). pi_NumAttestations p - branch)") auto

declare BranchBits.simps [simp del]

section \<open>The recursion is a branch-and-bound search\<close>

type_synonym bits_node = "nat list \<times> u16 \<times> int"

definition bits_ub :: "ProcessInfo \<Rightarrow> bits_node \<Rightarrow> Value" where
  "bits_ub p = (\<lambda>(vs, w, f). CalcValue f w (pi_TotalWeight p))"

definition bits_excl :: "ProcessInfo \<Rightarrow> nat \<Rightarrow> bits_node \<Rightarrow> bits_node option" where
  "bits_excl p k = (\<lambda>(vs, w, f). Some (vs, w, f - ab_Fee (pi_Bits p ! k)))"

definition bits_incl :: "ProcessInfo \<Rightarrow> nat \<Rightarrow> bits_node \<Rightarrow> bits_node option" where
  "bits_incl p k = (\<lambda>(vs, w, f).
     let (vs', w') = withOne_loop (pi_BitVotes p) (hd (ab_Indexes (pi_Bits p ! k))) vs [] w
     in if pi_LowerBoundWeight p < w' then Some (vs', w', f) else None)"

definition bits_mk :: "ProcessInfo \<Rightarrow> bits_node \<Rightarrow> branchAndBoundPartialSolution" where
  "bits_mk p = (\<lambda>(vs, w, f). \<lparr>ps_Votes = vs, ps_Bits = [], ps_Value = CalcValue f w (pi_TotalWeight p)\<rparr>)"

definition bits_add :: "nat \<Rightarrow> branchAndBoundPartialSolution \<Rightarrow> branchAndBoundPartialSolution" where
  "bits_add k r = r\<lparr>ps_Bits := key_insert k (ps_Bits r)\<rparr>"

definition bits_inv :: "ProcessInfo \<Rightarrow> nat \<Rightarrow> bits_node \<Rightarrow> bool" where
  "bits_inv p k = (\<lambda>(vs, w, f).
     (\<forall>b\<in>set (pi_Bits p). 0 \<le> ab_Fee b) \<and> pi_NumAttestations p = length (pi_Bits p) \<and> distinct vs \<and>
     weight_of (\<lambda>_. True) (\<lambda>i. av_Weight (pi_BitVotes p ! i)) vs \<le> unat w \<and>
     sum_list (map ab_Fee (drop k (pi_Bits p))) \<le> f)"

definition bits_search ::
  "ProcessInfo \<Rightarrow> SharedStatus \<Rightarrow> nat \<Rightarrow> bits_node \<Rightarrow> SharedStatus \<times> branchAndBoundPartialSolution option" where
  "bits_search p st k = (\<lambda>(vs, w, f). BranchBits p st k vs w f)"

abbreviation bits_solution :: "ProcessInfo \<Rightarrow> nat \<Rightarrow> bits_node \<Rightarrow> branchAndBoundPartialSolution \<Rightarrow> bool" where
  "bits_solution p \<equiv>
     bb_solution (pi_NumAttestations p) (bits_excl p) (bits_incl p) (bits_mk p) bits_add"

lemma withOne_loop_votes:
  "distinct (is @ nv) \<Longrightarrow>
   fst (withOne_loop votes b is nv w) = nv @ filter (\<lambda>i. bit (av_BitVector (votes ! i)) b) is"
  by (induction votes b "is" nv w rule: withOne_loop.induct) (auto simp: key_insert_def)

lemma withOne_loop_weight:
  "weight_of (\<lambda>i. \<not> bit (av_BitVector (votes ! i)) b) (\<lambda>i. av_Weight (votes ! i)) is \<le> unat w \<Longrightarrow>
   unat (snd (withOne_loop votes b is nv w)) =
     unat w - weight_of (\<lambda>i. \<not> bit (av_BitVector (votes ! i)) b) (\<lambda>i. av_Weight (votes ! i)) is"
proof (induction votes b "is" nv w rule: withOne_loop.induct)
  case (2 votes b i "is" nv w)
  show ?case
  proof (cases "bit (av_BitVector (votes ! i)) b")
    case True
    with 2 show ?thesis by simp
  next
    case False
    with "2.prems" have "unat (w - av_Weight (votes ! i)) = unat w - unat (av_Weight (votes ! i))"
      by (intro unat_minus_nowrap) simp
    with False 2 show ?thesis by simp
  qed
qed simp

lemma drop_fees:
  "k < length bits \<Longrightarrow>
   sum_list (map ab_Fee (drop k bits)) = ab_Fee (bits ! k) + sum_list (map ab_Fee (drop (Suc k) bits))"
  by (simp flip: Cons_nth_drop_Suc)

lemma drop_fees_nonneg: "\<forall>b\<in>set bits. 0 \<le> ab_Fee b \<Longrightarrow> 0 \<le> sum_list (map ab_Fee (drop k bits))"
  by (rule sum_list_nonneg_int) (auto dest: in_set_dropD)

lemma bits_inv_fees:
  assumes "bits_inv p k (vs, w, f)" "k < pi_NumAttestations p"
  shows "0 \<le> ab_Fee (pi_Bits p ! k)"
    and "sum_list (map ab_Fee (drop (Suc k) (pi_Bits p))) \<le> f - ab_Fee (pi_Bits p ! k)"
    and "0 \<le> sum_list (map ab_Fee (drop (Suc k) (pi_Bits p)))"
  using assms drop_fees [of k "pi_Bits p"] drop_fees_nonneg [of "pi_Bits p"] by (auto simp: bits_inv_def)

lemma bits_inv_excl:
  assumes "bits_inv p k x" "k < pi_NumAttestations p" "bits_excl p k x = Some y"
  shows "bits_inv p (Suc k) y \<and> bits_ub p y \<le> bits_ub p x"
proof -
  obtain vs w f where x: "x = (vs, w, f)" by (cases x)
  note fees = bits_inv_fees [OF assms(1) [unfolded x] assms(2)]
  then show ?thesis
    using assms fees
    by (auto simp: x bits_inv_def bits_excl_def bits_ub_def CalcValue_exact intro!: value_of_mono)
qed

lemma bits_inv_incl:
  assumes "bits_inv p k x" "k < pi_NumAttestations p" "bits_incl p k x = Some y"
  shows "bits_inv p (Suc k) y \<and> bits_ub p y \<le> bits_ub p x"
proof -
  obtain vs w f where x: "x = (vs, w, f)" by (cases x)
  let ?W = "\<lambda>i. av_Weight (pi_BitVotes p ! i)"
  let ?has = "\<lambda>i. bit (av_BitVector (pi_BitVotes p ! i)) (hd (ab_Indexes (pi_Bits p ! k)))"
  let ?loop = "withOne_loop (pi_BitVotes p) (hd (ab_Indexes (pi_Bits p ! k))) vs [] w"
  have all: "weight_of (\<lambda>_. True) ?W vs = weight_of ?has ?W vs + weight_of (\<lambda>i. \<not> ?has i) ?W vs"
    using weight_of_split [of "\<lambda>_. True" ?W vs ?has] by simp
  have vs': "fst ?loop = filter ?has vs" using assms(1) by (simp add: x bits_inv_def withOne_loop_votes)
  have w': "unat (snd ?loop) = unat w - weight_of (\<lambda>i. \<not> ?has i) ?W vs"
    using assms(1) all by (intro withOne_loop_weight) (simp add: x bits_inv_def)
  note fees = bits_inv_fees [OF assms(1) [unfolded x] assms(2)]
  have y: "y = (fst ?loop, snd ?loop, f)"
    using assms(3) by (auto simp: x bits_incl_def split: prod.splits if_splits)
  show ?thesis
    using assms(1) fees w' all
    by (auto simp: y x vs' bits_inv_def bits_ub_def CalcValue_exact weight_of_filter intro!: value_of_mono)
qed

lemma join_is_bb_join:
  "joinResultsAttestations r0 r1 k = bb_join ps_Value (bits_add k) r0 r1"
  by (simp add: joinResultsAttestations_def bb_join_def bits_add_def split: option.splits)

lemma bits_search_node:
  "bits_search p st k x =
     bb_node (pi_NumAttestations p) (pi_MaxOperations p) (pi_ExcludeFirst p) (bits_ub p) (bits_excl p)
       (bits_incl p) 1 (\<lambda>_ (vs, _, _). int (length vs div 2)) (bits_mk p) bits_add ps_Value
       (bits_search p) st k x"
  by (cases x)
    (simp add: bits_search_def BranchBits.simps [of p st k] bb_node_def bits_ub_def bits_excl_def
      bits_incl_def bits_mk_def bb_visit_def prepareDataForBranchWithOne_def join_is_bb_join Let_def
      split: prod.split option.split)

interpretation bitsSearch: branch_search "pi_NumAttestations p" "pi_MaxOperations p" "pi_ExcludeFirst p"
    "bits_ub p" "bits_excl p" "bits_incl p" 1 "\<lambda>_ (vs, _, _). int (length vs div 2)" "bits_mk p" bits_add
    ps_Value "bits_inv p" "bits_search p" for p
proof unfold_locales
  show "ps_Value (bits_mk p x) = bits_ub p x" for x
    by (simp add: bits_mk_def bits_ub_def split: prod.split)
  show "bits_inv p k x \<Longrightarrow> k < pi_NumAttestations p \<Longrightarrow> bits_excl p k x = Some y \<Longrightarrow>
      bits_inv p (Suc k) y \<and> bits_ub p y \<le> bits_ub p x" for k x y
    by (rule bits_inv_excl)
  show "bits_inv p k x \<Longrightarrow> k < pi_NumAttestations p \<Longrightarrow> bits_incl p k x = Some y \<Longrightarrow>
      bits_inv p (Suc k) y \<and> bits_ub p y \<le> bits_ub p x" for k x y
    by (rule bits_inv_incl)
qed (auto simp: bits_add_def intro: bits_search_node split: prod.split)

section \<open>The solutions of the tree are the feasible selections of bits\<close>

definition bits_supports :: "ProcessInfo \<Rightarrow> nat set \<Rightarrow> nat \<Rightarrow> bool" where
  "bits_supports p S i \<longleftrightarrow> (\<forall>b\<in>S. has_bit (pi_BitVotes p ! i) (pi_Bits p ! b))"

definition bits_left :: "ProcessInfo \<Rightarrow> nat set \<Rightarrow> nat list \<Rightarrow> u16 \<Rightarrow> nat" where
  "bits_left p S vs w =
     unat w - weight_of (\<lambda>i. \<not> bits_supports p S i) (\<lambda>i. av_Weight (pi_BitVotes p ! i)) vs"

definition bits_fee :: "ProcessInfo \<Rightarrow> nat \<Rightarrow> nat set \<Rightarrow> int \<Rightarrow> int" where
  "bits_fee p k S f =
     f - sum_list (map (\<lambda>b. ab_Fee (pi_Bits p ! b)) (filter (\<lambda>b. b \<notin> S) [k..<pi_NumAttestations p]))"

definition bits_selects :: "ProcessInfo \<Rightarrow> nat \<Rightarrow> bits_node \<Rightarrow> nat set \<Rightarrow> branchAndBoundPartialSolution \<Rightarrow> bool" where
  "bits_selects p k x S r = (case x of (vs, w, f) \<Rightarrow>
     S \<subseteq> {k..<pi_NumAttestations p} \<and> (S = {} \<or> unat (pi_LowerBoundWeight p) < bits_left p S vs w) \<and>
     set (ps_Bits r) = S \<and> distinct (ps_Bits r) \<and> ps_Votes r = filter (bits_supports p S) vs \<and>
     ps_Value r = value_of (bits_fee p k S f) (bits_left p S vs w) (unat (pi_TotalWeight p)))"

lemma bits_supports_empty [simp]: "bits_supports p {} i"
  by (simp add: bits_supports_def)

lemma bits_supports_insert:
  "bits_supports p (insert k S) i \<longleftrightarrow> has_bit (pi_BitVotes p ! i) (pi_Bits p ! k) \<and> bits_supports p S i"
  by (simp add: bits_supports_def)

lemma bits_left_le: "bits_left p (insert k S) vs w \<le> bits_left p S vs w"
  unfolding bits_left_def by (rule diff_le_mono2, rule weight_of_mono) (simp add: bits_supports_insert)

lemma bits_fee_Suc:
  assumes "k < pi_NumAttestations p"
  shows "k \<notin> S \<Longrightarrow> bits_fee p k S f = bits_fee p (Suc k) S (f - ab_Fee (pi_Bits p ! k))"
    and "bits_fee p k (insert k S) f = bits_fee p (Suc k) S f"
proof -
  have "filter (\<lambda>b. b \<notin> insert k S) [Suc k..<pi_NumAttestations p] = filter (\<lambda>b. b \<notin> S) [Suc k..<pi_NumAttestations p]"
    by (rule filter_cong) auto
  then show "bits_fee p k (insert k S) f = bits_fee p (Suc k) S f"
    using assms by (simp add: bits_fee_def upt_conv_Cons)
  show "k \<notin> S \<Longrightarrow> bits_fee p k S f = bits_fee p (Suc k) S (f - ab_Fee (pi_Bits p ! k))"
    using assms by (simp add: bits_fee_def upt_conv_Cons)
qed

text \<open>The node below an included bit: its votes, and its weight read without wrap-around.\<close>

lemma bits_incl_iff:
  assumes "bits_inv p k (vs, w, f)"
  shows "\<exists>w'. unat w' = bits_left p {k} vs w \<and>
     bits_incl p k (vs, w, f) =
       (if unat (pi_LowerBoundWeight p) < unat w' then Some (filter (bits_supports p {k}) vs, w', f) else None)"
proof -
  let ?b = "hd (ab_Indexes (pi_Bits p ! k))"
  let ?W = "\<lambda>i. av_Weight (pi_BitVotes p ! i)"
  obtain vs' w' where loop: "withOne_loop (pi_BitVotes p) ?b vs [] w = (vs', w')" by fastforce
  have has: "bits_supports p {k} = (\<lambda>i. bit (av_BitVector (pi_BitVotes p ! i)) ?b)"
    by (simp add: fun_eq_iff bits_supports_def has_bit_def)
  have "vs' = filter (bits_supports p {k}) vs"
    using withOne_loop_votes [of vs "[]" "pi_BitVotes p" ?b w] assms
    by (simp add: loop has bits_inv_def)
  moreover have "weight_of (\<lambda>i. \<not> bits_supports p {k} i) ?W vs \<le> unat w"
    using assms weight_of_le_all [of "\<lambda>i. \<not> bits_supports p {k} i" ?W vs] by (simp add: bits_inv_def)
  then have "unat w' = bits_left p {k} vs w"
    using withOne_loop_weight [of "pi_BitVotes p" ?b vs w "[]"] by (simp add: loop has bits_left_def)
  ultimately show ?thesis
    by (intro exI [of _ w']) (simp add: bits_incl_def loop word_less_unat)
qed

lemma bits_left_insert:
  assumes "unat w' = bits_left p {k} vs w"
  shows "bits_left p (insert k S) vs w = bits_left p S (filter (bits_supports p {k}) vs) w'"
proof -
  let ?W = "\<lambda>i. av_Weight (pi_BitVotes p ! i)"
  let ?not = "\<lambda>S i. \<not> bits_supports p S i"
  have "weight_of (?not (insert k S)) ?W vs =
      weight_of (\<lambda>i. ?not (insert k S) i \<and> ?not {k} i) ?W vs +
      weight_of (\<lambda>i. ?not (insert k S) i \<and> \<not> ?not {k} i) ?W vs"
    by (rule weight_of_split)
  also have "weight_of (\<lambda>i. ?not (insert k S) i \<and> ?not {k} i) ?W vs = weight_of (?not {k}) ?W vs"
    by (rule weight_of_cong) (auto simp: bits_supports_def)
  also have "weight_of (\<lambda>i. ?not (insert k S) i \<and> \<not> ?not {k} i) ?W vs =
      weight_of (?not S) ?W (filter (bits_supports p {k}) vs)"
    unfolding weight_of_filter by (rule weight_of_cong) (auto simp: bits_supports_def)
  finally show ?thesis using assms by (simp add: bits_left_def)
qed

lemma filter_supports_insert:
  "filter (bits_supports p (insert k S)) vs = filter (bits_supports p S) (filter (bits_supports p {k}) vs)"
  by (auto simp: bits_supports_def intro!: filter_cong)

lemma bits_selects_exclude:
  assumes "k < pi_NumAttestations p" "bits_selects p (Suc k) (vs, w, f - ab_Fee (pi_Bits p ! k)) S r"
  shows "bits_selects p k (vs, w, f) S r"
proof -
  have "k \<notin> S" using assms(2) by (auto simp: bits_selects_def)
  from bits_fee_Suc(1) [OF assms(1) this, of f] show ?thesis
    using assms(2) by (auto simp: bits_selects_def)
qed

lemma bits_selects_include:
  assumes "k < pi_NumAttestations p" "unat w' = bits_left p {k} vs w"
    and "unat (pi_LowerBoundWeight p) < unat w'"
    and "bits_selects p (Suc k) (filter (bits_supports p {k}) vs, w', f) S r"
  shows "bits_selects p k (vs, w, f) (insert k S) (bits_add k r)"
proof -
  have "bits_left p {} (filter (bits_supports p {k}) vs) w' = unat w'"
    by (simp add: bits_left_def weight_of_def)
  then have "unat (pi_LowerBoundWeight p) < bits_left p S (filter (bits_supports p {k}) vs) w'"
    using assms(3,4) by (auto simp: bits_selects_def)
  then show ?thesis
    using assms(1,4)
    by (auto simp: bits_selects_def bits_add_def bits_left_insert [OF assms(2)] filter_supports_insert [of p k S]
        bits_fee_Suc(2) [of k p S f])
qed

lemma bits_solution_selects:
  "bits_solution p k x r \<Longrightarrow> bits_inv p k x \<Longrightarrow> bits_selects p k x (set (ps_Bits r)) r"
proof (induction rule: bb_solution.induct)
  case (bb_leaf k x)
  then show ?case
    by (auto simp: bits_selects_def bits_mk_def bits_left_def bits_fee_def CalcValue_exact weight_of_def split: prod.split)
next
  case (bb_exclude k x y r)
  then have "bits_inv p (Suc k) y" using bits_inv_excl by blast
  with bb_exclude show ?case
    by (cases x) (auto simp: bits_excl_def intro: bits_selects_exclude)
next
  case (bb_include k x y r)
  then have sel: "bits_selects p (Suc k) y (set (ps_Bits r)) r" using bits_inv_incl by blast
  obtain vs w f where x: "x = (vs, w, f)" by (cases x)
  from bits_incl_iff [of p k vs w f] bb_include.prems obtain w' where w': "unat w' = bits_left p {k} vs w"
    "bits_incl p k x = (if unat (pi_LowerBoundWeight p) < unat w' then Some (filter (bits_supports p {k}) vs, w', f) else None)"
    unfolding x by blast
  with bb_include.hyps(2) have "unat (pi_LowerBoundWeight p) < unat w'" "y = (filter (bits_supports p {k}) vs, w', f)"
    by (auto split: if_splits)
  with bits_selects_include [of k p w' vs w f "set (ps_Bits r)" r] sel w'(1) bb_include.hyps(1)
  show ?case by (simp add: x bits_add_def)
qed

lemma bits_solution_exists:
  assumes "bits_inv p k (vs, w, f)" "k \<le> pi_NumAttestations p" "S \<subseteq> {k..<pi_NumAttestations p}"
    and "S = {} \<or> unat (pi_LowerBoundWeight p) < bits_left p S vs w"
  shows "\<exists>r. bits_solution p k (vs, w, f) r \<and> bits_selects p k (vs, w, f) S r"
  using assms
proof (induction "pi_NumAttestations p - k" arbitrary: k vs w f S)
  case 0
  then have "S = {}" by auto
  have sol: "bits_solution p k (vs, w, f) (bits_mk p (vs, w, f))"
    using 0 by (intro bb_solution.bb_leaf) simp
  from bits_solution_selects [OF sol "0.prems"(1)] sol \<open>S = {}\<close> show ?case
    by (auto simp: bits_mk_def)
next
  case (Suc n)
  have k: "k < pi_NumAttestations p" and n: "n = pi_NumAttestations p - Suc k" using Suc.hyps(2) by auto
  show ?case
  proof (cases "k \<in> S")
    case False
    let ?y = "(vs, w, f - ab_Fee (pi_Bits p ! k))"
    have e: "bits_excl p k (vs, w, f) = Some ?y" by (simp add: bits_excl_def)
    have S: "S \<subseteq> {Suc k..<pi_NumAttestations p}"
    proof
      fix b assume "b \<in> S"
      with Suc.prems(3) False have "k \<le> b" "b < pi_NumAttestations p" "b \<noteq> k" by auto
      then show "b \<in> {Suc k..<pi_NumAttestations p}" by simp
    qed
    obtain r where r: "bits_solution p (Suc k) ?y r" "bits_selects p (Suc k) ?y S r"
      using Suc.hyps(1) [OF n _ _ S, of vs w] bits_inv_excl [OF Suc.prems(1) k e] Suc.prems(4) k by auto
    then show ?thesis
      using e k by (blast intro: bb_solution.bb_exclude bits_selects_exclude)
  next
    case True
    define S' where "S' = S - {k}"
    have S: "S = insert k S'" using True by (auto simp: S'_def)
    have S': "S' \<subseteq> {Suc k..<pi_NumAttestations p}"
    proof
      fix b assume "b \<in> S'"
      with Suc.prems(3) have "k \<le> b" "b < pi_NumAttestations p" "b \<noteq> k" by (auto simp: S'_def)
      then show "b \<in> {Suc k..<pi_NumAttestations p}" by simp
    qed
    let ?vs = "filter (bits_supports p {k}) vs"
    obtain w' where w': "unat w' = bits_left p {k} vs w"
      "bits_incl p k (vs, w, f) = (if unat (pi_LowerBoundWeight p) < unat w' then Some (?vs, w', f) else None)"
      using bits_incl_iff [OF Suc.prems(1)] by blast
    have left: "unat (pi_LowerBoundWeight p) < bits_left p S' ?vs w'"
      using Suc.prems(4) True unfolding S bits_left_insert [OF w'(1)] by auto
    have "bits_left p S' ?vs w' \<le> unat w'" by (simp add: bits_left_def)
    with left have enough: "unat (pi_LowerBoundWeight p) < unat w'" by simp
    with w'(2) have i: "bits_incl p k (vs, w, f) = Some (?vs, w', f)" by simp
    obtain r where r: "bits_solution p (Suc k) (?vs, w', f) r" "bits_selects p (Suc k) (?vs, w', f) S' r"
      using Suc.hyps(1) [OF n _ _ S', of ?vs w' f] bits_inv_incl [OF Suc.prems(1) k i] left k by auto
    with i k w'(1) enough show ?thesis
      unfolding S by (blast intro: bb_solution.bb_include bits_selects_include)
  qed
qed

section \<open>Completing a solution, and the search from the root\<close>

definition CalcValueFromFees ::
  "branchAndBoundPartialSolution \<Rightarrow> AggregatedVote list \<Rightarrow> AggregatedBit list \<Rightarrow> int \<Rightarrow> u16 \<Rightarrow> u16 \<Rightarrow> Value" where
  "CalcValueFromFees solution allBitVotes bits assumedFees assumedWeight totalWeight =
     (let feeSum = foldl (\<lambda>acc i. acc + ab_Fee (bits ! i)) assumedFees (ps_Bits solution);
          weight = add_weights (\<lambda>_. True) (\<lambda>j. av_Weight (allBitVotes ! j)) (ps_Votes solution) assumedWeight
      in CalcValue feeSum weight totalWeight)"

fun maximizeBits_loop ::
  "AggregatedVote list \<Rightarrow> AggregatedBit list \<Rightarrow> nat list \<Rightarrow> nat list \<Rightarrow> nat list \<Rightarrow> nat list" where
  "maximizeBits_loop votes bits solVotes [] solBits = solBits"
| "maximizeBits_loop votes bits solVotes (i # is) solBits =
     (if i \<notin> set solBits \<and>
         list_all (\<lambda>j. bit (av_BitVector (votes ! j)) (hd (ab_Indexes (bits ! i)))) solVotes
      then maximizeBits_loop votes bits solVotes is (key_insert i solBits)
      else maximizeBits_loop votes bits solVotes is solBits)"

definition MaximizeBits ::
  "branchAndBoundPartialSolution \<Rightarrow> AggregatedVote list \<Rightarrow> AggregatedBit list \<Rightarrow> int \<Rightarrow> u16 \<Rightarrow> u16 \<Rightarrow>
   branchAndBoundPartialSolution" where
  "MaximizeBits solution votes bits assumedFees assumedWeight totalWeight =
     (let solution' = solution\<lparr>ps_Bits :=
            maximizeBits_loop votes bits (ps_Votes solution) [0..<length bits] (ps_Bits solution)\<rparr>
      in solution'\<lparr>ps_Value :=
           CalcValueFromFees solution' votes bits assumedFees assumedWeight totalWeight\<rparr>)"

definition BranchAndBoundBits ::
  "AggregatedVote list \<Rightarrow> AggregatedBit list \<Rightarrow> u16 \<Rightarrow> u16 \<Rightarrow> u16 \<Rightarrow> int \<Rightarrow> int \<Rightarrow> Value \<Rightarrow> bool \<Rightarrow> ConsensusSolution" where
  "BranchAndBoundBits bitVotes bits assumedWeight weightVoted absoluteTotalWeight assumedFees maxOperations
     initialBound excludeBitFirst =
     (let includedVotes = [0..<length bitVotes];
          totalFee = foldl (\<lambda>acc b. acc + ab_Fee b) assumedFees bits;
          currentStatus = \<lparr>ss_CurrentBound = initialBound, ss_NumOperations = 0\<rparr>;
          processInfo = \<lparr>pi_TotalWeight = absoluteTotalWeight,
            pi_LowerBoundWeight = absoluteTotalWeight div 2,
            pi_BitVotes = bitVotes, pi_Bits = bits,
            pi_NumAttestations = length bits, pi_NumProviders = length bitVotes,
            pi_MaxOperations = maxOperations, pi_ExcludeFirst = excludeBitFirst\<rparr>;
          (status, provisionalResult) =
            BranchBits processInfo currentStatus 0 includedVotes weightVoted totalFee;
          isOptimal = (ss_NumOperations status < maxOperations)
      in case provisionalResult of
           None \<Rightarrow> \<lparr>cs_Votes = bitVotes, cs_Bits = [], cs_Value = Value 0 0, cs_Optimal = False\<rparr>
         | Some r \<Rightarrow>
             (let r = (if \<not> isOptimal
                       then MaximizeBits r bitVotes bits assumedFees assumedWeight absoluteTotalWeight
                       else r)
              in \<lparr>cs_Votes = map ((!) bitVotes) (ps_Votes r), cs_Bits = map ((!) bits) (ps_Bits r),
                  cs_Value = ps_Value r, cs_Optimal = isOptimal\<rparr>))"

text \<open>
  The two strategies run in two goroutines; the caller waits for the first and, unless the first is
  optimal, for the second. The outcome of that protocol is this choice (theory \<open>BB_Double\<close>).
\<close>

definition BranchAndBoundBitsDouble :: solver_fun where
  "BranchAndBoundBitsDouble bitVotes bits assumedWeight weightVoted absoluteTotalWeight assumedFees
     maxOperations initialBound =
     (let bitsAscVal = sortFees bits (cmpValAsc absoluteTotalWeight);
          bitsDscVal = sortFees bits (cmpValDsc absoluteTotalWeight);
          solution0 = BranchAndBoundBits bitVotes bitsDscVal assumedWeight weightVoted absoluteTotalWeight
            assumedFees maxOperations initialBound False;
          solution1 = BranchAndBoundBits bitVotes bitsAscVal assumedWeight weightVoted absoluteTotalWeight
            assumedFees maxOperations initialBound True
      in if cs_Optimal solution0 then solution0
         else if Value_Cmp (cs_Value solution0) (cs_Value solution1) = -1 then solution1
         else solution0)"

lemma foldl_fees: "foldl (\<lambda>acc b. acc + f b) a xs = a + sum_list (map f xs)"
  for f :: "'a \<Rightarrow> int"
  by (induction xs arbitrary: a) (auto simp: add.assoc)

lemma CalcValueFromFees_exact:
  "unat aw + weight_of (\<lambda>_. True) (\<lambda>j. av_Weight (votes ! j)) (ps_Votes sol) < 65536 \<Longrightarrow>
   CalcValueFromFees sol votes bits af aw T =
     value_of (af + sum_list (map (\<lambda>i. ab_Fee (bits ! i)) (ps_Bits sol)))
       (unat aw + weight_of (\<lambda>_. True) (\<lambda>j. av_Weight (votes ! j)) (ps_Votes sol)) (unat T)"
  by (simp add: CalcValueFromFees_def CalcValue_exact foldl_fees unat_add_weights)

lemma set_maximizeBits_loop:
  "set (maximizeBits_loop votes bits vs is acc) =
     set acc \<union> {i \<in> set is. \<forall>j\<in>set vs. has_bit (votes ! j) (bits ! i)}"
  by (induction votes bits vs "is" acc rule: maximizeBits_loop.induct)
    (auto simp: list_all_iff has_bit_def)

lemma distinct_maximizeBits_loop:
  "distinct acc \<Longrightarrow> distinct (maximizeBits_loop votes bits vs is acc)"
  by (induction votes bits vs "is" acc rule: maximizeBits_loop.induct) auto

section \<open>Every answer of the search is sound, and optimal when it says so\<close>

definition root_info :: "AggregatedVote list \<Rightarrow> AggregatedBit list \<Rightarrow> u16 \<Rightarrow> int \<Rightarrow> bool \<Rightarrow> ProcessInfo" where
  "root_info votes bits T maxops ef =
     \<lparr>pi_TotalWeight = T, pi_LowerBoundWeight = T div 2, pi_BitVotes = votes, pi_Bits = bits,
      pi_NumAttestations = length bits, pi_NumProviders = length votes,
      pi_MaxOperations = maxops, pi_ExcludeFirst = ef\<rparr>"

lemma root_info_simps [simp]:
  "pi_TotalWeight (root_info votes bits T m ef) = T"
  "pi_LowerBoundWeight (root_info votes bits T m ef) = T div 2"
  "pi_BitVotes (root_info votes bits T m ef) = votes"
  "pi_Bits (root_info votes bits T m ef) = bits"
  "pi_NumAttestations (root_info votes bits T m ef) = length bits"
  "pi_NumProviders (root_info votes bits T m ef) = length votes"
  "pi_MaxOperations (root_info votes bits T m ef) = m"
  "pi_ExcludeFirst (root_info votes bits T m ef) = ef"
  by (simp_all add: root_info_def)

definition bits_root :: "AggregatedVote list \<Rightarrow> AggregatedBit list \<Rightarrow> u16 \<Rightarrow> int \<Rightarrow> bits_node" where
  "bits_root votes bits wv af = ([0..<length votes], wv, af + sum_list (map ab_Fee bits))"

lemma weight_of_all_nth:
  "weight_of (\<lambda>_. True) (\<lambda>i. av_Weight (votes ! i)) [0..<length votes] = weight_of (\<lambda>_. True) av_Weight votes"
  using weight_of_nth [of "\<lambda>_. True" votes av_Weight] by simp

lemma bits_root_inv:
  "problem_ok votes bits aw wv T af \<Longrightarrow> bits_inv (root_info votes bits T m ef) 0 (bits_root votes bits wv af)"
  by (simp add: problem_ok_def bits_inv_def bits_root_def weight_of_all_nth)

lemma bits_root_weight:
  assumes "problem_ok votes bits aw wv T af"
  shows "bits_left (root_info votes bits T m ef) S [0..<length votes] wv =
     unat aw + weight_of (bits_supports (root_info votes bits T m ef) S) (\<lambda>i. av_Weight (votes ! i)) [0..<length votes]"
proof -
  let ?s = "bits_supports (root_info votes bits T m ef) S"
  have "weight_of (\<lambda>_. True) (\<lambda>i. av_Weight (votes ! i)) [0..<length votes] =
      weight_of ?s (\<lambda>i. av_Weight (votes ! i)) [0..<length votes] +
      weight_of (\<lambda>i. \<not> ?s i) (\<lambda>i. av_Weight (votes ! i)) [0..<length votes]"
    using weight_of_split [of "\<lambda>_. True" _ _ ?s] by simp
  then show ?thesis
    using assms by (simp add: bits_left_def problem_ok_def weight_of_all_nth)
qed

lemma supports_candidate:
  "bits_supports (root_info votes bits T m ef) S = (\<lambda>i. \<forall>b\<in>S. has_bit (votes ! i) (bits ! b))"
  by (simp add: fun_eq_iff bits_supports_def)

lemma supporters_weight:
  "unat aw + weight_of (bits_supports (root_info votes bits T m ef) (set is)) (\<lambda>i. av_Weight (votes ! i)) [0..<length votes] =
     sol_weight votes aw (map ((!) bits) is)"
  using weight_of_nth [of "\<lambda>v. \<forall>b\<in>set (map ((!) bits) is). has_bit v b" votes av_Weight]
  by (simp add: sol_weight_def supports_candidate)

lemma bits_root_fee:
  assumes "distinct is" "set is \<subseteq> {..<length bits}"
  shows "bits_fee (root_info votes bits T m ef) 0 (set is) (af + sum_list (map ab_Fee bits)) =
     sol_fee af (map ((!) bits) is)"
proof -
  let ?f = "\<lambda>b. ab_Fee (bits ! b)"
  have "sum_list (map ab_Fee bits) = sum_list (map ?f [0..<length bits])"
    by (rule arg_cong [of _ _ sum_list], rule nth_equalityI) simp_all
  also have "\<dots> = sum_list (map ?f (filter (\<lambda>i. i \<in> set is) [0..<length bits])) +
      sum_list (map ?f (filter (\<lambda>i. i \<notin> set is) [0..<length bits]))"
    by (rule sum_list_filter_split)
  also have "sum_list (map ?f (filter (\<lambda>i. i \<in> set is) [0..<length bits])) = sum_list (map ?f is)"
    by (rule sum_list_distinct_upt [OF assms, symmetric])
  finally show ?thesis by (simp add: bits_fee_def sol_fee_def comp_def)
qed

definition candidate_ok ::
  "AggregatedVote list \<Rightarrow> AggregatedBit list \<Rightarrow> u16 \<Rightarrow> u16 \<Rightarrow> int \<Rightarrow> nat list \<Rightarrow> Value \<Rightarrow> bool" where
  "candidate_ok votes bits aw T af is v \<longleftrightarrow>
     distinct is \<and> set is \<subseteq> {..<length bits} \<and> feasible votes aw T (map ((!) bits) is) \<and>
     v = sol_value votes aw af T (map ((!) bits) is)"

lemma bits_root_selects:
  assumes "problem_ok votes bits aw wv T af"
    and "bits_selects (root_info votes bits T m ef) 0 (bits_root votes bits wv af) (set (ps_Bits r)) r"
  shows "candidate_ok votes bits aw T af (ps_Bits r) (ps_Value r)"
    and "ps_Votes r = filter (\<lambda>i. \<forall>b\<in>set (ps_Bits r). has_bit (votes ! i) (bits ! b)) [0..<length votes]"
proof -
  let ?p = "root_info votes bits T m ef"
  have sel: "set (ps_Bits r) \<subseteq> {..<length bits}" "distinct (ps_Bits r)"
    "ps_Bits r = [] \<or> unat T div 2 < bits_left ?p (set (ps_Bits r)) [0..<length votes] wv"
    "ps_Value r = value_of (bits_fee ?p 0 (set (ps_Bits r)) (af + sum_list (map ab_Fee bits)))
       (bits_left ?p (set (ps_Bits r)) [0..<length votes] wv) (unat T)"
    using assms(2) by (auto simp: bits_selects_def bits_root_def)
  have left: "bits_left ?p (set (ps_Bits r)) [0..<length votes] wv = sol_weight votes aw (map ((!) bits) (ps_Bits r))"
    unfolding bits_root_weight [OF assms(1)] supporters_weight ..
  have "unat T div 2 < sol_weight votes aw []"
    using assms(1) by (simp add: problem_ok_def sol_weight_def)
  then show "candidate_ok votes bits aw T af (ps_Bits r) (ps_Value r)"
    using sel by (auto simp: candidate_ok_def feasible_def sol_value_def left bits_root_fee)
  show "ps_Votes r = filter (\<lambda>i. \<forall>b\<in>set (ps_Bits r). has_bit (votes ! i) (bits ! b)) [0..<length votes]"
    using assms(2) by (simp add: bits_selects_def bits_root_def supports_candidate)
qed

lemma candidate_root_solution:
  assumes "problem_ok votes bits aw wv T af" "mset bs \<subseteq># mset bits" "feasible votes aw T bs"
  shows "\<exists>r. bits_solution (root_info votes bits T m ef) 0 (bits_root votes bits wv af) r \<and>
      ps_Value r = sol_value votes aw af T bs"
proof -
  let ?p = "root_info votes bits T m ef"
  from mset_subset_nths [OF assms(2)] obtain S where S: "S \<subseteq> {..<length bits}"
    "mset (map ((!) bits) (filter (\<lambda>i. i \<in> S) [0..<length bits])) = mset bs" by blast
  define "is" where "is = filter (\<lambda>i. i \<in> S) [0..<length bits]"
  have set_is: "set is = S" using S(1) by (auto simp: is_def)
  have bs: "mset (map ((!) bits) is) = mset bs" using S(2) by (simp only: is_def)
  have "unat T div 2 < bits_left ?p S [0..<length votes] wv"
    using assms(3) supporters_weight [of aw votes bits T m ef "is"] feasible_mset [OF refl bs, of votes aw T]
    unfolding bits_root_weight [OF assms(1)] by (simp add: feasible_def set_is)
  then obtain r where r: "bits_solution ?p 0 (bits_root votes bits wv af) r"
    "bits_selects ?p 0 (bits_root votes bits wv af) S r"
    using bits_solution_exists [of ?p 0 "[0..<length votes]" wv "af + sum_list (map ab_Fee bits)" S]
      bits_root_inv [OF assms(1), of m ef] S(1) by (auto simp: bits_root_def atLeast0LessThan)
  have rS: "set (ps_Bits r) = S" using r(2) by (auto simp: bits_selects_def bits_root_def)
  have ok: "candidate_ok votes bits aw T af (ps_Bits r) (ps_Value r)"
    using bits_root_selects(1) [OF assms(1)] r(2) rS by auto
  have "mset (ps_Bits r) = mset is"
    using ok rS set_is by (subst set_eq_iff_mset_eq_distinct [symmetric]) (auto simp: candidate_ok_def is_def)
  then have "mset (map ((!) bits) (ps_Bits r)) = mset bs" using bs by (simp only: mset_map)
  with ok sol_value_mset [OF refl this, of votes aw af T] r(1) show ?thesis
    by (auto simp: candidate_ok_def)
qed

lemma MaximizeBits_candidate:
  assumes pr: "problem_ok votes bits aw wv T af"
    and ok: "candidate_ok votes bits aw T af (ps_Bits r) (ps_Value r)"
    and vs: "ps_Votes r = filter (\<lambda>i. \<forall>b\<in>set (ps_Bits r). has_bit (votes ! i) (bits ! b)) [0..<length votes]"
  shows "candidate_ok votes bits aw T af (ps_Bits (MaximizeBits r votes bits af aw T))
      (ps_Value (MaximizeBits r votes bits af aw T))"
proof -
  define is' where "is' = maximizeBits_loop votes bits (ps_Votes r) [0..<length bits] (ps_Bits r)"
  have set': "set is' = set (ps_Bits r) \<union> {i \<in> {..<length bits}. \<forall>j\<in>set (ps_Votes r). has_bit (votes ! j) (bits ! i)}"
    unfolding is'_def set_maximizeBits_loop by auto
  have d': "distinct is'" and in': "set is' \<subseteq> {..<length bits}"
    using ok set' by (auto simp: candidate_ok_def is'_def distinct_maximizeBits_loop)
  let ?W = "\<lambda>i. av_Weight (votes ! i)"
  have sup: "(\<forall>b\<in>set is'. has_bit (votes ! i) (bits ! b)) \<longleftrightarrow> (\<forall>b\<in>set (ps_Bits r). has_bit (votes ! i) (bits ! b))"
    if "i < length votes" for i
    using that vs by (auto simp: set')
  have w: "weight_of (\<lambda>_. True) ?W (ps_Votes r) =
      weight_of (\<lambda>i. \<forall>b\<in>set js. has_bit (votes ! i) (bits ! b)) ?W [0..<length votes]"
    if "js = ps_Bits r \<or> js = is'" for js
    unfolding vs weight_of_filter using that by (elim disjE; hypsubst, intro weight_of_cong) (simp_all add: sup)
  have same: "unat aw + weight_of (\<lambda>_. True) ?W (ps_Votes r) = sol_weight votes aw (map ((!) bits) js)"
    if "js = ps_Bits r \<or> js = is'" for js
    using w [OF that] supporters_weight [of aw votes bits T 0 False js] by (simp add: supports_candidate)
  have "unat aw + weight_of (\<lambda>_. True) ?W (ps_Votes r) \<le> unat wv"
    using pr w [of "ps_Bits r"] weight_of_le_all [of _ ?W "[0..<length votes]"]
    by (simp add: problem_ok_def weight_of_all_nth)
  then have nowrap: "unat aw + weight_of (\<lambda>_. True) ?W (ps_Votes r) < 65536"
    using unat_u16_less [of wv] by linarith
  have "ps_Value (MaximizeBits r votes bits af aw T) =
      value_of (af + sum_list (map (\<lambda>i. ab_Fee (bits ! i)) is')) (sol_weight votes aw (map ((!) bits) is')) (unat T)"
    using CalcValueFromFees_exact [of aw votes "r\<lparr>ps_Bits := is'\<rparr>" bits af T] nowrap same [of is']
    by (simp add: MaximizeBits_def is'_def Let_def)
  then have val: "ps_Value (MaximizeBits r votes bits af aw T) = sol_value votes aw af T (map ((!) bits) is')"
    by (simp add: sol_value_def sol_fee_def comp_def)
  have "feasible votes aw T (map ((!) bits) is')"
    using ok same [of is'] same [of "ps_Bits r"] by (simp add: candidate_ok_def feasible_def)
  moreover have "ps_Bits (MaximizeBits r votes bits af aw T) = is'"
    by (simp add: MaximizeBits_def is'_def Let_def)
  ultimately show ?thesis using val d' in' by (simp add: candidate_ok_def)
qed

lemma BranchAndBoundBits_search:
  "BranchAndBoundBits votes bits aw wv T af m bound ef =
     (let p = root_info votes bits T m ef;
          (status, res) = bits_search p \<lparr>ss_CurrentBound = bound, ss_NumOperations = 0\<rparr> 0 (bits_root votes bits wv af);
          opt = (ss_NumOperations status < m)
      in case res of
           None \<Rightarrow> empty_answer votes
         | Some r \<Rightarrow>
             (let r = (if \<not> opt then MaximizeBits r votes bits af aw T else r)
              in \<lparr>cs_Votes = map ((!) votes) (ps_Votes r), cs_Bits = map ((!) bits) (ps_Bits r),
                  cs_Value = ps_Value r, cs_Optimal = opt\<rparr>))"
  by (simp add: BranchAndBoundBits_def bits_search_def bits_root_def root_info_def foldl_fees empty_answer_def Let_def)

lemma bits_root_found:
  assumes "problem_ok votes bits aw wv T af"
    and "bits_search (root_info votes bits T m ef) st 0 (bits_root votes bits wv af) = (st', Some r)"
  shows "candidate_ok votes bits aw T af (ps_Bits r) (ps_Value r)"
    and "ps_Votes r = filter (\<lambda>i. \<forall>b\<in>set (ps_Bits r). has_bit (votes ! i) (bits ! b)) [0..<length votes]"
    and "ss_CurrentBound st' = ps_Value r"
proof -
  let ?p = "root_info votes bits T m ef"
  note inv = bits_root_inv [OF assms(1), of m ef]
  have "bb_found ps_Value (bits_solution ?p 0 (bits_root votes bits wv af)) st
      (bits_search ?p st 0 (bits_root votes bits wv af))"
    by (rule bitsSearch.search_found [OF inv]) simp
  then have "bits_solution ?p 0 (bits_root votes bits wv af) r" and bound: "ss_CurrentBound st' = ps_Value r"
    unfolding assms(2) by simp_all
  from bits_solution_selects [OF this(1) inv]
  show "candidate_ok votes bits aw T af (ps_Bits r) (ps_Value r)"
    and "ps_Votes r = filter (\<lambda>i. \<forall>b\<in>set (ps_Bits r). has_bit (votes ! i) (bits ! b)) [0..<length votes]"
    using bits_root_selects [OF assms(1)] by auto
  show "ss_CurrentBound st' = ps_Value r" by (rule bound)
qed

lemma candidate_sound:
  "candidate_ok votes bits aw T af is v \<Longrightarrow> cs_Bits cs = map ((!) bits) is \<Longrightarrow> cs_Value cs = v \<Longrightarrow>
   sound_answer votes bits aw T af cs"
  unfolding candidate_ok_def sound_answer_def using mset_map_nth_subset [of "is" bits] by auto

lemma BranchAndBoundBits_sound:
  assumes "problem_ok votes bits aw wv T af"
  shows "sound_answer votes bits aw T af (BranchAndBoundBits votes bits aw wv T af m bound ef)"
proof -
  let ?st = "\<lparr>ss_CurrentBound = bound, ss_NumOperations = 0\<rparr>"
  obtain st res where s: "bits_search (root_info votes bits T m ef) ?st 0 (bits_root votes bits wv af) = (st, res)"
    by fastforce
  show ?thesis
  proof (cases res)
    case None
    with s show ?thesis by (auto simp: BranchAndBoundBits_search sound_answer_def Let_def)
  next
    case (Some r)
    note found = bits_root_found [OF assms s [unfolded Some]]
    from found(1) MaximizeBits_candidate [OF assms found(1,2)] show ?thesis
      unfolding BranchAndBoundBits_search Let_def s Some
      by (auto intro: candidate_sound)
  qed
qed

lemma BranchAndBoundBits_optimal:
  assumes "problem_ok votes bits aw wv T af"
    and "cs_Optimal (BranchAndBoundBits votes bits aw wv T af m bound ef)"
  shows "optimal_answer votes bits aw T af (BranchAndBoundBits votes bits aw wv T af m bound ef)"
proof -
  let ?st = "\<lparr>ss_CurrentBound = bound, ss_NumOperations = 0\<rparr>"
  let ?p = "root_info votes bits T m ef"
  obtain st res where s: "bits_search ?p ?st 0 (bits_root votes bits wv af) = (st, res)" by fastforce
  with assms(2) obtain r where r: "res = Some r" and opt: "ss_NumOperations st < m"
    by (auto simp: BranchAndBoundBits_search empty_answer_def Let_def split: option.splits)
  have "sol_value votes aw af T bs \<le> ps_Value r" if bs: "mset bs \<subseteq># mset bits" "feasible votes aw T bs" for bs
  proof -
    obtain r' where r': "bits_solution ?p 0 (bits_root votes bits wv af) r'" "ps_Value r' = sol_value votes aw af T bs"
      using candidate_root_solution [OF assms(1) bs] by blast
    from bitsSearch.search_complete [OF bits_root_inv [OF assms(1), of m ef] _ _ r'(1), of ?st]
    show ?thesis using opt r'(2) bits_root_found(3) [OF assms(1) s [unfolded r]] by (simp add: s)
  qed
  then show ?thesis
    unfolding BranchAndBoundBits_search Let_def s r using opt by (simp add: optimal_answer_def)
qed

lemma withOne_loop_length: "length (fst (withOne_loop votes b is nv w)) \<le> length nv + length is"
proof (induction votes b "is" nv w rule: withOne_loop.induct)
  case (2 votes b i "is" nv w)
  have "length (key_insert i nv) \<le> Suc (length nv)" by (simp add: key_insert_def)
  with 2 show ?case by (cases "bit (av_BitVector (votes ! i)) b") auto
qed simp

lemma bits_incl_length:
  "bits_incl p k (vs, w, f) = Some (vs', w', f') \<Longrightarrow> length vs' \<le> length vs"
  using withOne_loop_length [of "pi_BitVotes p" "hd (ab_Indexes (pi_Bits p ! k))" vs "[]" w]
  by (auto simp: bits_incl_def Let_def split: prod.splits if_splits)

text \<open>With a budget for the whole tree the search ends below it.\<close>

lemma bits_search_budget:
  assumes "problem_ok votes bits aw wv T af"
  shows "ss_NumOperations (fst (bits_search (root_info votes bits T m ef) \<lparr>ss_CurrentBound = bound, ss_NumOperations = 0\<rparr>
      0 (bits_root votes bits wv af))) < tree_budget (length bits) (1 + int (length votes))"
proof -
  let ?p = "root_info votes bits T m ef" and ?c = "1 + int (length votes)"
  let ?P = "\<lambda>(vs, w, f). length vs \<le> length votes"
  have "ss_NumOperations (fst (bits_search ?p \<lparr>ss_CurrentBound = bound, ss_NumOperations = 0\<rparr> 0 (bits_root votes bits wv af))) \<le>
      ss_NumOperations \<lparr>ss_CurrentBound = bound, ss_NumOperations = 0\<rparr> + (2 ^ Suc (pi_NumAttestations ?p - 0) - 1) * (1 + 2 * ?c)"
  proof (rule bitsSearch.search_operations_bound [where P = ?P])
    show "?P x \<Longrightarrow> bits_incl ?p k x = Some y \<Longrightarrow> ?P y" for k x y
      by (cases x; cases y) (auto dest: bits_incl_length)
    show "bits_inv ?p 0 (bits_root votes bits wv af)" by (rule bits_root_inv [OF assms])
  qed (auto simp: bits_excl_def bits_root_def)
  also have "\<dots> < tree_budget (length bits) ?c" using tree_budget_less [of ?c "length bits"] by simp
  finally show ?thesis .
qed

lemma BranchAndBoundBits_enough:
  assumes "problem_ok votes bits aw wv T af" "tree_budget (length bits) (1 + int (length votes)) \<le> m"
  shows "exhausted_answer votes bits aw T af bound (BranchAndBoundBits votes bits aw wv T af m bound ef)"
proof -
  let ?st = "\<lparr>ss_CurrentBound = bound, ss_NumOperations = 0\<rparr>"
  let ?p = "root_info votes bits T m ef"
  obtain st res where s: "bits_search ?p ?st 0 (bits_root votes bits wv af) = (st, res)" by fastforce
  then have opt: "ss_NumOperations st < m"
    using bits_search_budget [OF assms(1), of m ef bound] assms(2) by simp
  show ?thesis
  proof (cases res)
    case (Some r)
    then show ?thesis unfolding BranchAndBoundBits_search Let_def s using opt by (simp add: exhausted_answer_def)
  next
    case None
    have "sol_value votes aw af T bs \<le> bound" if bs: "mset bs \<subseteq># mset bits" "feasible votes aw T bs" for bs
    proof -
      note inv = bits_root_inv [OF assms(1), of m ef]
      obtain r' where r': "bits_solution ?p 0 (bits_root votes bits wv af) r'" "ps_Value r' = sol_value votes aw af T bs"
        using candidate_root_solution [OF assms(1) bs] by blast
      have "bb_found ps_Value (bits_solution ?p 0 (bits_root votes bits wv af)) ?st (st, res)"
        using bitsSearch.search_found [OF inv, of ?st] unfolding s by simp
      then have "ss_CurrentBound st = bound" by (simp add: None)
      with bitsSearch.search_complete [OF inv _ _ r'(1), of ?st] opt r'(2) show ?thesis by (simp add: s)
    qed
    then show ?thesis
      unfolding BranchAndBoundBits_search Let_def s None by (simp add: exhausted_answer_def empty_answer_def)
  qed
qed

lemma BranchAndBoundBitsDouble_better:
  "BranchAndBoundBitsDouble votes bits aw wv T af m bound =
     better_answer (BranchAndBoundBits votes (sortFees bits (cmpValDsc T)) aw wv T af m bound False)
       (BranchAndBoundBits votes (sortFees bits (cmpValAsc T)) aw wv T af m bound True)"
  by (simp add: BranchAndBoundBitsDouble_def better_answer_def Let_def)

lemma mset_sortFees [simp]: "mset (sortFees bits c) = mset bits"
  by (simp add: sortFees_def)

interpretation bitsSolver: solver BranchAndBoundBitsDouble
proof unfold_locales
  fix votes bits aw wv T af m bound
  let ?a = "BranchAndBoundBits votes (sortFees bits (cmpValDsc T)) aw wv T af m bound False"
  let ?b = "BranchAndBoundBits votes (sortFees bits (cmpValAsc T)) aw wv T af m bound True"
  assume "problem_ok votes bits aw wv T af"
  then have ok: "problem_ok votes (sortFees bits c) aw wv T af" for c
    by (simp add: problem_ok_mset [OF refl mset_sortFees])
  note sound = BranchAndBoundBits_sound [OF ok, unfolded sound_answer_mset [OF refl mset_sortFees]]
  note opt = BranchAndBoundBits_optimal [OF ok, unfolded optimal_answer_mset [OF refl mset_sortFees]]
  show "sound_answer votes bits aw T af (BranchAndBoundBitsDouble votes bits aw wv T af m bound)"
    unfolding BranchAndBoundBitsDouble_better using better_answer_cases [of ?a ?b] sound by metis
  show "cs_Optimal (BranchAndBoundBitsDouble votes bits aw wv T af m bound) \<Longrightarrow>
      optimal_answer votes bits aw T af (BranchAndBoundBitsDouble votes bits aw wv T af m bound)"
    unfolding BranchAndBoundBitsDouble_better using better_answer_cases [of ?a ?b] opt by metis
qed

lemma length_sortFees [simp]: "length (sortFees bits c) = length bits"
  by (simp add: sortFees_def)

interpretation bitsComplete: complete_solver BranchAndBoundBitsDouble
  "\<lambda>nvotes nbits. tree_budget nbits (1 + int nvotes)"
proof unfold_locales
  fix votes bits aw wv T af m bound
  assume "problem_ok votes bits aw wv T af"
  then have ok: "problem_ok votes (sortFees bits c) aw wv T af" for c
    by (simp add: problem_ok_mset [OF refl mset_sortFees])
  assume "tree_budget (length bits) (1 + int (length votes)) \<le> m"
  then have m: "tree_budget (length (sortFees bits c)) (1 + int (length votes)) \<le> m" for c by simp
  show "exhausted_answer votes bits aw T af bound (BranchAndBoundBitsDouble votes bits aw wv T af m bound)"
    unfolding BranchAndBoundBitsDouble_better
    by (intro exhausted_better BranchAndBoundBits_enough [OF ok m, unfolded exhausted_answer_mset [OF refl mset_sortFees]])
qed

end
