(* ===== verification/BB_Votes.thy ===== *)
theory BB_Votes
  imports BB_Bits
begin

text \<open>
  \<^verbatim>\<open>branchAndBoundVotes.go\<close>: the search over subsets of aggregated votes, its two strategies, and
  \<^verbatim>\<open>MaximizeVotes\<close>. The recursion interprets \<open>branch_search\<close>, the double strategy \<open>solver\<close>: although
  the tree enumerates sets of votes, the answers solve the same problem as the search over bits.
\<close>

section \<open>The recursion\<close>

fun withVote_loop ::
  "ProcessInfo \<Rightarrow> AggregatedVote \<Rightarrow> nat list \<Rightarrow> nat list \<Rightarrow> int \<Rightarrow> SharedStatus \<Rightarrow> nat list \<times> int \<times> SharedStatus" where
  "withVote_loop p vote [] newIncludedBits newFeeSum st = (newIncludedBits, newFeeSum, st)"
| "withVote_loop p vote (b # bs) newIncludedBits newFeeSum st =
     (if \<not> bit (av_BitVector vote) (hd (ab_Indexes (pi_Bits p ! b)))
      then withVote_loop p vote bs newIncludedBits (newFeeSum - ab_Fee (pi_Bits p ! b)) (add_operations st 1)
      else withVote_loop p vote bs (key_insert b newIncludedBits) newFeeSum st)"

definition prepareDataForBranchWithVote ::
  "ProcessInfo \<Rightarrow> SharedStatus \<Rightarrow> nat list \<Rightarrow> int \<Rightarrow> nat \<Rightarrow> nat list \<times> int \<times> SharedStatus" where
  "prepareDataForBranchWithVote processInfo currentStatus includedBits feeSum voteIndex =
     (let (newIncludedBits, newFeeSum, st) =
            withVote_loop processInfo (pi_BitVotes processInfo ! voteIndex) includedBits [] feeSum currentStatus
      in (newIncludedBits, newFeeSum, add_operations st (int (length newIncludedBits div 2))))"

definition joinResultsVotes ::
  "branchAndBoundPartialSolution option \<Rightarrow> branchAndBoundPartialSolution option \<Rightarrow> nat \<Rightarrow>
   branchAndBoundPartialSolution option" where
  "joinResultsVotes result0 result1 branch =
     (case (result0, result1) of
        (None, None) \<Rightarrow> None
      | (Some r0, None) \<Rightarrow> Some r0
      | (None, Some r1) \<Rightarrow> Some (r1\<lparr>ps_Votes := key_insert branch (ps_Votes r1)\<rparr>)
      | (Some r0, Some r1) \<Rightarrow>
          if Value_Cmp (ps_Value r0) (ps_Value r1) = -1
          then Some (r1\<lparr>ps_Votes := key_insert branch (ps_Votes r1)\<rparr>)
          else Some r0)"

function BranchVotes ::
  "ProcessInfo \<Rightarrow> SharedStatus \<Rightarrow> nat \<Rightarrow> nat list \<Rightarrow> int \<Rightarrow> u16 \<Rightarrow>
   SharedStatus \<times> branchAndBoundPartialSolution option" where
  "BranchVotes processInfo currentStatus branch includedBits feeSum weight =
     (let st = add_operations currentStatus 1 in
      if pi_NumProviders processInfo \<le> branch then
        (let value = CalcValue feeSum weight (pi_TotalWeight processInfo) in
         if Value_Cmp value (ss_CurrentBound st) = 1
         then (st\<lparr>ss_CurrentBound := value\<rparr>,
               Some \<lparr>ps_Votes = [], ps_Bits = includedBits, ps_Value = value\<rparr>)
         else (st, None))
      else if pi_MaxOperations processInfo \<le> ss_NumOperations st then (st, None)
      else if Value_Cmp (CalcValue feeSum weight (pi_TotalWeight processInfo)) (ss_CurrentBound st) \<noteq> 1
      then (st, None)
      else
        (let newWeight = weight - av_Weight (pi_BitVotes processInfo ! branch);
             (st, result0) =
               (if pi_ExcludeFirst processInfo \<and> pi_LowerBoundWeight processInfo < newWeight
                then BranchVotes processInfo st (Suc branch) includedBits feeSum newWeight
                else (st, None));
             (newIncludedBits, newFeeSum, st) =
               prepareDataForBranchWithVote processInfo st includedBits feeSum branch;
             (st, result1) = BranchVotes processInfo st (Suc branch) newIncludedBits newFeeSum weight;
             (st, result0) =
               (if \<not> pi_ExcludeFirst processInfo
                then (if pi_LowerBoundWeight processInfo < newWeight
                      then BranchVotes processInfo st (Suc branch) includedBits feeSum newWeight
                      else (st, None))
                else (st, result0))
         in (st, joinResultsVotes result0 result1 branch)))"
  by pat_completeness auto
termination
  by (relation "measure (\<lambda>(p, st, branch, b, f, w). pi_NumProviders p - branch)") auto

declare BranchVotes.simps [simp del]

section \<open>The recursion is a branch-and-bound search\<close>

type_synonym votes_node = "nat list \<times> int \<times> u16"

abbreviation (input) bit_of :: "ProcessInfo \<Rightarrow> nat \<Rightarrow> nat \<Rightarrow> bool" where
  "bit_of p i b \<equiv> has_bit (pi_BitVotes p ! i) (pi_Bits p ! b)"

abbreviation (input) fee_of :: "ProcessInfo \<Rightarrow> nat \<Rightarrow> int" where
  "fee_of p b \<equiv> ab_Fee (pi_Bits p ! b)"

definition votes_ub :: "ProcessInfo \<Rightarrow> votes_node \<Rightarrow> Value" where
  "votes_ub p = (\<lambda>(bs, f, w). CalcValue f w (pi_TotalWeight p))"

definition votes_excl :: "ProcessInfo \<Rightarrow> nat \<Rightarrow> votes_node \<Rightarrow> votes_node option" where
  "votes_excl p k = (\<lambda>(bs, f, w).
     let w' = w - av_Weight (pi_BitVotes p ! k)
     in if pi_LowerBoundWeight p < w' then Some (bs, f, w') else None)"

definition votes_incl :: "ProcessInfo \<Rightarrow> nat \<Rightarrow> votes_node \<Rightarrow> votes_node option" where
  "votes_incl p k = (\<lambda>(bs, f, w).
     let (bs', f', _) = withVote_loop p (pi_BitVotes p ! k) bs [] f \<lparr>ss_CurrentBound = Value 0 0, ss_NumOperations = 0\<rparr>
     in Some (bs', f', w))"

definition votes_icost :: "ProcessInfo \<Rightarrow> nat \<Rightarrow> votes_node \<Rightarrow> int" where
  "votes_icost p k = (\<lambda>(bs, f, w).
     let (bs', f', st) = withVote_loop p (pi_BitVotes p ! k) bs [] f \<lparr>ss_CurrentBound = Value 0 0, ss_NumOperations = 0\<rparr>
     in ss_NumOperations st + int (length bs' div 2))"

definition votes_mk :: "ProcessInfo \<Rightarrow> votes_node \<Rightarrow> branchAndBoundPartialSolution" where
  "votes_mk p = (\<lambda>(bs, f, w). \<lparr>ps_Votes = [], ps_Bits = bs, ps_Value = CalcValue f w (pi_TotalWeight p)\<rparr>)"

definition votes_add :: "nat \<Rightarrow> branchAndBoundPartialSolution \<Rightarrow> branchAndBoundPartialSolution" where
  "votes_add k r = r\<lparr>ps_Votes := key_insert k (ps_Votes r)\<rparr>"

definition votes_inv :: "ProcessInfo \<Rightarrow> nat \<Rightarrow> votes_node \<Rightarrow> bool" where
  "votes_inv p k = (\<lambda>(bs, f, w).
     (\<forall>b\<in>set bs. 0 \<le> fee_of p b) \<and> pi_NumProviders p = length (pi_BitVotes p) \<and> distinct bs \<and>
     sum_list (map (fee_of p) bs) \<le> f \<and>
     weight_of (\<lambda>_. True) (\<lambda>i. av_Weight (pi_BitVotes p ! i)) [k..<pi_NumProviders p] \<le> unat w)"

definition votes_search ::
  "ProcessInfo \<Rightarrow> SharedStatus \<Rightarrow> nat \<Rightarrow> votes_node \<Rightarrow> SharedStatus \<times> branchAndBoundPartialSolution option" where
  "votes_search p st k = (\<lambda>(bs, f, w). BranchVotes p st k bs f w)"

abbreviation votes_solution :: "ProcessInfo \<Rightarrow> nat \<Rightarrow> votes_node \<Rightarrow> branchAndBoundPartialSolution \<Rightarrow> bool" where
  "votes_solution p \<equiv>
     bb_solution (pi_NumProviders p) (votes_excl p) (votes_incl p) (votes_mk p) votes_add"

lemma withVote_loop_eq:
  "distinct (bs @ nb) \<Longrightarrow>
   withVote_loop p (pi_BitVotes p ! k) bs nb f st =
     (nb @ filter (bit_of p k) bs,
      f - sum_list (map (fee_of p) (filter (\<lambda>b. \<not> bit_of p k b) bs)),
      add_operations st (int (length (filter (\<lambda>b. \<not> bit_of p k b) bs))))"
  by (induction p "pi_BitVotes p ! k" bs nb f st rule: withVote_loop.induct)
    (auto simp: key_insert_def has_bit_def)

lemma votes_incl_eq:
  "votes_inv p k (bs, f, w) \<Longrightarrow>
   votes_incl p k (bs, f, w) =
     Some (filter (bit_of p k) bs, f - sum_list (map (fee_of p) (filter (\<lambda>b. \<not> bit_of p k b) bs)), w)"
  by (simp add: votes_incl_def votes_inv_def withVote_loop_eq)

lemma votes_excl_eq:
  assumes "votes_inv p k (bs, f, w)" "k < pi_NumProviders p"
  shows "\<exists>w'. unat w' = unat w - unat (av_Weight (pi_BitVotes p ! k)) \<and>
      unat (av_Weight (pi_BitVotes p ! k)) \<le> unat w \<and>
      votes_excl p k (bs, f, w) = (if unat (pi_LowerBoundWeight p) < unat w' then Some (bs, f, w') else None)"
proof -
  have le: "unat (av_Weight (pi_BitVotes p ! k)) \<le> unat w"
    using assms by (simp add: votes_inv_def upt_conv_Cons)
  then show ?thesis
    by (intro exI [of _ "w - av_Weight (pi_BitVotes p ! k)"])
      (simp add: votes_excl_def unat_minus_nowrap word_less_unat)
qed

lemma votes_inv_excl:
  assumes "votes_inv p k x" "k < pi_NumProviders p" "votes_excl p k x = Some y"
  shows "votes_inv p (Suc k) y \<and> votes_ub p y \<le> votes_ub p x"
proof -
  obtain bs f w where x: "x = (bs, f, w)" by (cases x)
  from votes_excl_eq [OF assms(1) [unfolded x] assms(2)] assms(3) obtain w' where
    w': "unat w' = unat w - unat (av_Weight (pi_BitVotes p ! k))" "y = (bs, f, w')"
    by (auto simp: x split: if_splits)
  have "0 \<le> f"
    using assms(1) sum_list_nonneg_int [of bs "fee_of p"] by (auto simp: x votes_inv_def)
  then show ?thesis
    using assms(1,2) w'
    by (auto simp: x votes_inv_def votes_ub_def CalcValue_exact upt_conv_Cons intro!: value_of_mono)
qed

lemma votes_inv_incl:
  assumes "votes_inv p k x" "k < pi_NumProviders p" "votes_incl p k x = Some y"
  shows "votes_inv p (Suc k) y \<and> votes_ub p y \<le> votes_ub p x"
proof -
  obtain bs f w where x: "x = (bs, f, w)" by (cases x)
  define out where "out = sum_list (map (fee_of p) (filter (\<lambda>b. \<not> bit_of p k b) bs))"
  have y: "y = (filter (bit_of p k) bs, f - out, w)"
    using assms(3) votes_incl_eq [OF assms(1) [unfolded x]] by (simp add: x out_def)
  have fees: "\<forall>b\<in>set bs. 0 \<le> fee_of p b" using assms(1) by (simp add: x votes_inv_def)
  have "0 \<le> sum_list (map (fee_of p) (filter (bit_of p k) bs))" and "0 \<le> out"
    unfolding out_def using fees by (auto intro!: sum_list_nonneg_int)
  moreover have "sum_list (map (fee_of p) bs) = sum_list (map (fee_of p) (filter (bit_of p k) bs)) + out"
    unfolding out_def by (rule sum_list_filter_split)
  ultimately show ?thesis
    using assms(1,2)
    by (auto simp: x y votes_inv_def votes_ub_def CalcValue_exact upt_conv_Cons intro!: value_of_mono)
qed

lemma joinVotes_is_bb_join:
  "joinResultsVotes r0 r1 k = bb_join ps_Value (votes_add k) r0 r1"
  by (simp add: joinResultsVotes_def bb_join_def votes_add_def split: option.splits)

lemma votes_search_node:
  assumes "votes_inv p k x"
  shows "votes_search p st k x =
     bb_node (pi_NumProviders p) (pi_MaxOperations p) (pi_ExcludeFirst p) (votes_ub p) (votes_excl p)
       (votes_incl p) 0 (votes_icost p) (votes_mk p) votes_add ps_Value (votes_search p) st k x"
proof -
  obtain bs f w where x: "x = (bs, f, w)" by (cases x)
  have d: "distinct bs" using assms by (simp add: x votes_inv_def)
  show ?thesis
    unfolding x votes_search_def
    by (simp add: BranchVotes.simps [of p st k] bb_node_def votes_ub_def votes_excl_def votes_incl_def
        votes_icost_def votes_mk_def bb_visit_def prepareDataForBranchWithVote_def joinVotes_is_bb_join
        withVote_loop_eq d add.assoc Let_def split: prod.split option.split)
qed

interpretation votesSearch: branch_search "pi_NumProviders p" "pi_MaxOperations p" "pi_ExcludeFirst p"
    "votes_ub p" "votes_excl p" "votes_incl p" 0 "votes_icost p" "votes_mk p" votes_add
    ps_Value "votes_inv p" "votes_search p" for p
proof unfold_locales
  show "ps_Value (votes_mk p x) = votes_ub p x" for x
    by (simp add: votes_mk_def votes_ub_def split: prod.split)
  show "votes_inv p k x \<Longrightarrow> k < pi_NumProviders p \<Longrightarrow> votes_excl p k x = Some y \<Longrightarrow>
      votes_inv p (Suc k) y \<and> votes_ub p y \<le> votes_ub p x" for k x y
    by (rule votes_inv_excl)
  show "votes_inv p k x \<Longrightarrow> k < pi_NumProviders p \<Longrightarrow> votes_incl p k x = Some y \<Longrightarrow>
      votes_inv p (Suc k) y \<and> votes_ub p y \<le> votes_ub p x" for k x y
    by (rule votes_inv_incl)
  have "0 \<le> ss_NumOperations (snd (snd (withVote_loop p v bs nb f st)))"
    if "0 \<le> ss_NumOperations st" for v bs nb f st
    using that by (induction p v bs nb f st rule: withVote_loop.induct) auto
  from this [of "\<lparr>ss_CurrentBound = Value 0 0, ss_NumOperations = 0\<rparr>"]
  show "0 \<le> votes_icost p k x" for k x
    by (auto simp: votes_icost_def Let_def split: prod.split) (metis add_nonneg_nonneg of_nat_0_le_iff snd_conv)
qed (auto simp: votes_add_def intro: votes_search_node)

section \<open>The solutions of the tree are the feasible selections of votes\<close>

definition votes_agree :: "ProcessInfo \<Rightarrow> nat set \<Rightarrow> nat \<Rightarrow> bool" where
  "votes_agree p V b \<longleftrightarrow> (\<forall>i\<in>V. bit_of p i b)"

definition votes_left :: "ProcessInfo \<Rightarrow> nat \<Rightarrow> nat set \<Rightarrow> u16 \<Rightarrow> nat" where
  "votes_left p k V w =
     unat w - weight_of (\<lambda>i. i \<notin> V) (\<lambda>i. av_Weight (pi_BitVotes p ! i)) [k..<pi_NumProviders p]"

definition votes_fee :: "ProcessInfo \<Rightarrow> nat set \<Rightarrow> nat list \<Rightarrow> int \<Rightarrow> int" where
  "votes_fee p V bs f = f - sum_list (map (fee_of p) (filter (\<lambda>b. \<not> votes_agree p V b) bs))"

definition votes_selects :: "ProcessInfo \<Rightarrow> nat \<Rightarrow> votes_node \<Rightarrow> nat set \<Rightarrow> branchAndBoundPartialSolution \<Rightarrow> bool" where
  "votes_selects p k x V r = (case x of (bs, f, w) \<Rightarrow>
     V \<subseteq> {k..<pi_NumProviders p} \<and>
     (V = {k..<pi_NumProviders p} \<or> unat (pi_LowerBoundWeight p) < votes_left p k V w) \<and>
     set (ps_Votes r) = V \<and> distinct (ps_Votes r) \<and> ps_Bits r = filter (votes_agree p V) bs \<and>
     ps_Value r = value_of (votes_fee p V bs f) (votes_left p k V w) (unat (pi_TotalWeight p)))"

lemma votes_agree_empty [simp]: "votes_agree p {} b"
  by (simp add: votes_agree_def)

lemma votes_left_Suc:
  assumes "k < pi_NumProviders p"
  shows "votes_left p k (insert k V) w = votes_left p (Suc k) V w"
    and "k \<notin> V \<Longrightarrow> unat w' = unat w - unat (av_Weight (pi_BitVotes p ! k)) \<Longrightarrow>
      votes_left p k V w = votes_left p (Suc k) V w'"
proof -
  have "weight_of (\<lambda>i. i \<notin> insert k V) (\<lambda>i. av_Weight (pi_BitVotes p ! i)) [Suc k..<pi_NumProviders p] =
      weight_of (\<lambda>i. i \<notin> V) (\<lambda>i. av_Weight (pi_BitVotes p ! i)) [Suc k..<pi_NumProviders p]"
    by (rule weight_of_cong) auto
  then show "votes_left p k (insert k V) w = votes_left p (Suc k) V w"
    using assms by (simp add: votes_left_def upt_conv_Cons)
  show "k \<notin> V \<Longrightarrow> unat w' = unat w - unat (av_Weight (pi_BitVotes p ! k)) \<Longrightarrow>
      votes_left p k V w = votes_left p (Suc k) V w'"
    using assms by (simp add: votes_left_def upt_conv_Cons)
qed

lemma votes_fee_insert:
  "votes_fee p (insert k V) bs f =
     votes_fee p V (filter (bit_of p k) bs) (f - sum_list (map (fee_of p) (filter (\<lambda>b. \<not> bit_of p k b) bs)))"
proof -
  have "sum_list (map (fee_of p) (filter (\<lambda>b. \<not> votes_agree p (insert k V) b) bs)) =
      sum_list (map (fee_of p) (filter (\<lambda>b. \<not> bit_of p k b) bs)) +
      sum_list (map (fee_of p) (filter (\<lambda>b. \<not> votes_agree p V b) (filter (bit_of p k) bs)))"
    by (induction bs) (auto simp: votes_agree_def)
  then show ?thesis by (simp add: votes_fee_def)
qed

lemma filter_agree_insert:
  "filter (votes_agree p (insert k V)) bs = filter (votes_agree p V) (filter (bit_of p k) bs)"
  by (auto simp: votes_agree_def intro!: filter_cong)

lemma range_Suc: "k < n \<Longrightarrow> {k..<n} = insert k {Suc k..<n}"
  by auto

lemma votes_selects_exclude:
  assumes "k < pi_NumProviders p" "unat w' = unat w - unat (av_Weight (pi_BitVotes p ! k))"
    and "unat (pi_LowerBoundWeight p) < unat w'" "votes_selects p (Suc k) (bs, f, w') V r"
  shows "votes_selects p k (bs, f, w) V r"
proof -
  have k: "k \<notin> V" using assms(4) by (auto simp: votes_selects_def)
  have "weight_of (\<lambda>i. i \<notin> {Suc k..<pi_NumProviders p}) (\<lambda>i. av_Weight (pi_BitVotes p ! i)) [Suc k..<pi_NumProviders p]
      = weight_of (\<lambda>_. False) (\<lambda>i. av_Weight (pi_BitVotes p ! i)) [Suc k..<pi_NumProviders p]"
    by (rule weight_of_cong) auto
  then have "votes_left p (Suc k) {Suc k..<pi_NumProviders p} w' = unat w'"
    by (simp add: votes_left_def weight_of_def)
  then have "unat (pi_LowerBoundWeight p) < votes_left p (Suc k) V w'"
    using assms(3,4) by (auto simp: votes_selects_def)
  then show ?thesis
    using assms(4) votes_left_Suc(2) [OF assms(1) k assms(2)] by (auto simp: votes_selects_def)
qed

lemma votes_selects_include:
  assumes "k < pi_NumProviders p"
    and "votes_selects p (Suc k)
      (filter (bit_of p k) bs, f - sum_list (map (fee_of p) (filter (\<lambda>b. \<not> bit_of p k b) bs)), w) V r"
  shows "votes_selects p k (bs, f, w) (insert k V) (votes_add k r)"
  using assms(2) range_Suc [OF assms(1)]
  by (auto simp: votes_selects_def votes_add_def votes_left_Suc(1) [OF assms(1)] votes_fee_insert
      filter_agree_insert)

lemma votes_solution_selects:
  "votes_solution p k x r \<Longrightarrow> votes_inv p k x \<Longrightarrow> votes_selects p k x (set (ps_Votes r)) r"
proof (induction rule: bb_solution.induct)
  case (bb_leaf k x)
  then show ?case
    by (auto simp: votes_selects_def votes_mk_def votes_left_def votes_fee_def CalcValue_exact split: prod.split)
next
  case (bb_exclude k x y r)
  obtain bs f w where x: "x = (bs, f, w)" by (cases x)
  from votes_excl_eq [OF bb_exclude.prems [unfolded x] bb_exclude.hyps(1)] bb_exclude.hyps(2) obtain w' where
    "unat w' = unat w - unat (av_Weight (pi_BitVotes p ! k))" "unat (pi_LowerBoundWeight p) < unat w'" "y = (bs, f, w')"
    by (auto simp: x split: if_splits)
  with bb_exclude votes_inv_excl [of p k x y] show ?case
    by (auto simp: x intro: votes_selects_exclude)
next
  case (bb_include k x y r)
  obtain bs f w where x: "x = (bs, f, w)" by (cases x)
  have "votes_selects p (Suc k) y (set (ps_Votes r)) r" using bb_include votes_inv_incl by blast
  with bb_include.hyps(1,2) votes_incl_eq [OF bb_include.prems [unfolded x]]
    votes_selects_include [of k p bs f w "set (ps_Votes r)" r]
  show ?case by (auto simp: x votes_add_def)
qed

lemma votes_solution_exists:
  assumes "votes_inv p k (bs, f, w)" "k \<le> pi_NumProviders p" "V \<subseteq> {k..<pi_NumProviders p}"
    and "V = {k..<pi_NumProviders p} \<or> unat (pi_LowerBoundWeight p) < votes_left p k V w"
  shows "\<exists>r. votes_solution p k (bs, f, w) r \<and> votes_selects p k (bs, f, w) V r"
  using assms
proof (induction "pi_NumProviders p - k" arbitrary: k bs f w V)
  case 0
  then have "V = {}" by auto
  have sol: "votes_solution p k (bs, f, w) (votes_mk p (bs, f, w))"
    using 0 by (intro bb_solution.bb_leaf) simp
  from votes_solution_selects [OF sol "0.prems"(1)] sol \<open>V = {}\<close> show ?case
    by (auto simp: votes_mk_def)
next
  case (Suc n)
  let ?N = "pi_NumProviders p"
  have k: "k < ?N" and n: "n = ?N - Suc k" using Suc.hyps(2) by auto
  have sub: "V - {k} \<subseteq> {Suc k..<?N}" using Suc.prems(3) by (auto simp: Suc_le_eq order_less_le)
  show ?case
  proof (cases "k \<in> V")
    case True
    let ?y = "(filter (bit_of p k) bs, f - sum_list (map (fee_of p) (filter (\<lambda>b. \<not> bit_of p k b) bs)), w)"
    have i: "votes_incl p k (bs, f, w) = Some ?y" by (rule votes_incl_eq [OF Suc.prems(1)])
    have V: "V = insert k (V - {k})" using True by auto
    have "V - {k} = {Suc k..<?N} \<or> unat (pi_LowerBoundWeight p) < votes_left p (Suc k) (V - {k}) w"
      using Suc.prems(4) votes_left_Suc(1) [OF k, of "V - {k}" w] V by (auto simp: range_Suc [OF k])
    from Suc.hyps(1) [OF n conjunct1 [OF votes_inv_incl [OF Suc.prems(1) k i]] _ sub this] k
    obtain r where "votes_solution p (Suc k) ?y r" "votes_selects p (Suc k) ?y (V - {k}) r"
      by auto
    with i k show ?thesis
      by (subst V) (blast intro: bb_solution.bb_include votes_selects_include)
  next
    case False
    then have V: "V \<subseteq> {Suc k..<?N}" using sub by auto
    obtain w' where w': "unat w' = unat w - unat (av_Weight (pi_BitVotes p ! k))"
      "votes_excl p k (bs, f, w) = (if unat (pi_LowerBoundWeight p) < unat w' then Some (bs, f, w') else None)"
      using votes_excl_eq [OF Suc.prems(1) k] by blast
    have left: "unat (pi_LowerBoundWeight p) < votes_left p (Suc k) V w'"
      using Suc.prems(4) False k votes_left_Suc(2) [OF k False w'(1)] by auto
    then have enough: "unat (pi_LowerBoundWeight p) < unat w'" by (simp add: votes_left_def)
    then have e: "votes_excl p k (bs, f, w) = Some (bs, f, w')" using w'(2) by simp
    from Suc.hyps(1) [OF n conjunct1 [OF votes_inv_excl [OF Suc.prems(1) k e]] _ V disjI2 [OF left]] k
    obtain r where "votes_solution p (Suc k) (bs, f, w') r" "votes_selects p (Suc k) (bs, f, w') V r"
      by auto
    with e k w'(1) enough show ?thesis
      by (blast intro: bb_solution.bb_exclude votes_selects_exclude)
  qed
qed

section \<open>Completing a solution, and the search from the root\<close>

fun maximizeVotes_loop ::
  "AggregatedVote list \<Rightarrow> AggregatedBit list \<Rightarrow> nat list \<Rightarrow> nat list \<Rightarrow> nat list \<Rightarrow> nat list" where
  "maximizeVotes_loop votes bits solBits [] solVotes = solVotes"
| "maximizeVotes_loop votes bits solBits (i # is) solVotes =
     (if i \<notin> set solVotes \<and>
         list_all (\<lambda>j. bit (av_BitVector (votes ! i)) (hd (ab_Indexes (bits ! j)))) solBits
      then maximizeVotes_loop votes bits solBits is (key_insert i solVotes)
      else maximizeVotes_loop votes bits solBits is solVotes)"

definition MaximizeVotes ::
  "branchAndBoundPartialSolution \<Rightarrow> AggregatedVote list \<Rightarrow> AggregatedBit list \<Rightarrow> int \<Rightarrow> u16 \<Rightarrow> u16 \<Rightarrow>
   branchAndBoundPartialSolution" where
  "MaximizeVotes solution votes bits assumedFees assumedWeight totalWeight =
     (let solution' = solution\<lparr>ps_Votes :=
            maximizeVotes_loop votes bits (ps_Bits solution) [0..<length votes] (ps_Votes solution)\<rparr>
      in solution'\<lparr>ps_Value :=
           CalcValueFromFees solution' votes bits assumedFees assumedWeight totalWeight\<rparr>)"

definition BranchAndBoundVotes ::
  "AggregatedVote list \<Rightarrow> AggregatedBit list \<Rightarrow> u16 \<Rightarrow> u16 \<Rightarrow> u16 \<Rightarrow> int \<Rightarrow> int \<Rightarrow> Value \<Rightarrow> bool \<Rightarrow> ConsensusSolution" where
  "BranchAndBoundVotes bitVotes bits assumedWeight weightVoted absoluteTotalWeight assumedFees maxOperations
     initialBound strategy =
     (let totalFee = foldl (\<lambda>acc b. acc + ab_Fee b) assumedFees bits;
          includedBits = [0..<length bits];
          currentStatus = \<lparr>ss_CurrentBound = initialBound, ss_NumOperations = 0\<rparr>;
          processInfo = \<lparr>pi_TotalWeight = absoluteTotalWeight,
            pi_LowerBoundWeight = absoluteTotalWeight div 2,
            pi_BitVotes = bitVotes, pi_Bits = bits,
            pi_NumAttestations = length bits, pi_NumProviders = length bitVotes,
            pi_MaxOperations = maxOperations, pi_ExcludeFirst = strategy\<rparr>;
          (status, provisionalResult) =
            BranchVotes processInfo currentStatus 0 includedBits totalFee weightVoted;
          isOptimal = (ss_NumOperations status < maxOperations)
      in case provisionalResult of
           None \<Rightarrow> \<lparr>cs_Votes = bitVotes, cs_Bits = [], cs_Value = Value 0 0, cs_Optimal = False\<rparr>
         | Some r \<Rightarrow>
             (let r = (if \<not> isOptimal
                       then MaximizeVotes r bitVotes bits assumedFees assumedWeight absoluteTotalWeight
                       else r)
              in \<lparr>cs_Votes = map ((!) bitVotes) (ps_Votes r), cs_Bits = map ((!) bits) (ps_Bits r),
                  cs_Value = ps_Value r, cs_Optimal = isOptimal\<rparr>))"

definition BranchAndBoundVotesDouble :: solver_fun where
  "BranchAndBoundVotesDouble bitVotes bits assumedWeight weightVoted absoluteTotalWeight assumedFees
     maxOperations initialBound =
     (let votesAscVal = sortVotes bitVotes cmpValVoteAsc;
          votesDscVal = sortVotes bitVotes cmpValVoteDsc;
          solution0 = BranchAndBoundVotes votesDscVal bits assumedWeight weightVoted absoluteTotalWeight
            assumedFees maxOperations (Value_Copy initialBound) False;
          solution1 = BranchAndBoundVotes votesAscVal bits assumedWeight weightVoted absoluteTotalWeight
            assumedFees maxOperations (Value_Copy initialBound) True
      in if cs_Optimal solution0 then solution0
         else if Value_Cmp (cs_Value solution0) (cs_Value solution1) = -1 then solution1
         else solution0)"

lemma set_maximizeVotes_loop:
  "set (maximizeVotes_loop votes bits bs is acc) =
     set acc \<union> {i \<in> set is. \<forall>b\<in>set bs. has_bit (votes ! i) (bits ! b)}"
  by (induction votes bits bs "is" acc rule: maximizeVotes_loop.induct)
    (auto simp: list_all_iff has_bit_def)

lemma distinct_maximizeVotes_loop:
  "distinct acc \<Longrightarrow> distinct (maximizeVotes_loop votes bits bs is acc)"
  by (induction votes bits bs "is" acc rule: maximizeVotes_loop.induct) auto

definition votes_root :: "AggregatedBit list \<Rightarrow> u16 \<Rightarrow> int \<Rightarrow> votes_node" where
  "votes_root bits wv af = ([0..<length bits], af + sum_list (map ab_Fee bits), wv)"

lemma fees_nth: "sum_list (map (\<lambda>b. ab_Fee (bits ! b)) [0..<length bits]) = sum_list (map ab_Fee bits)"
  by (rule arg_cong [of _ _ sum_list], rule nth_equalityI) simp_all

lemma votes_root_inv:
  "problem_ok votes bits aw wv T af \<Longrightarrow> votes_inv (root_info votes bits T m ef) 0 (votes_root bits wv af)"
  by (simp add: problem_ok_def votes_inv_def votes_root_def weight_of_all_nth fees_nth)

lemma votes_root_left:
  assumes "problem_ok votes bits aw wv T af"
  shows "votes_left (root_info votes bits T m ef) 0 V wv =
     unat aw + weight_of (\<lambda>i. i \<in> V) (\<lambda>i. av_Weight (votes ! i)) [0..<length votes]"
  using assms weight_of_split [of "\<lambda>_. True" "\<lambda>i. av_Weight (votes ! i)" "[0..<length votes]" "\<lambda>i. i \<in> V"]
  by (simp add: votes_left_def problem_ok_def weight_of_all_nth)

lemma votes_root_fee:
  "votes_fee (root_info votes bits T m ef) V [0..<length bits] (af + sum_list (map ab_Fee bits)) =
     sol_fee af (map ((!) bits) (filter (votes_agree (root_info votes bits T m ef) V) [0..<length bits]))"
  using sum_list_filter_split [of "\<lambda>b. ab_Fee (bits ! b)" "[0..<length bits]" "votes_agree (root_info votes bits T m ef) V"]
  by (simp add: votes_fee_def sol_fee_def fees_nth comp_def)

section \<open>Every answer of the search is sound, and optimal when it says so\<close>

text \<open>
  What a solution of the tree says of its bits: they are a feasible candidate, the selected votes
  support them, and the value is that of the selected votes, at most the candidate's own value.
\<close>

definition votes_candidate ::
  "AggregatedVote list \<Rightarrow> AggregatedBit list \<Rightarrow> u16 \<Rightarrow> u16 \<Rightarrow> int \<Rightarrow> branchAndBoundPartialSolution \<Rightarrow> bool" where
  "votes_candidate votes bits aw T af r \<longleftrightarrow>
     distinct (ps_Bits r) \<and> set (ps_Bits r) \<subseteq> {..<length bits} \<and>
     distinct (ps_Votes r) \<and> set (ps_Votes r) \<subseteq> {..<length votes} \<and>
     (\<forall>i\<in>set (ps_Votes r). \<forall>b\<in>set (ps_Bits r). has_bit (votes ! i) (bits ! b)) \<and>
     feasible votes aw T (map ((!) bits) (ps_Bits r)) \<and>
     ps_Value r \<le> sol_value votes aw af T (map ((!) bits) (ps_Bits r))"

lemma sol_fee_nonneg: "0 \<le> af \<Longrightarrow> \<forall>b\<in>set bs. 0 \<le> ab_Fee b \<Longrightarrow> 0 \<le> sol_fee af bs"
  unfolding sol_fee_def by (intro add_nonneg_nonneg sum_list_nonneg_int) auto

lemma votes_root_selects:
  assumes pr: "problem_ok votes bits aw wv T af"
    and sel: "votes_selects (root_info votes bits T m ef) 0 (votes_root bits wv af) V r"
  shows "votes_candidate votes bits aw T af r"
proof -
  let ?p = "root_info votes bits T m ef"
  let ?W = "\<lambda>i. av_Weight (votes ! i)"
  define B where "B = filter (votes_agree ?p V) [0..<length bits]"
  have V: "V \<subseteq> {..<length votes}" "set (ps_Votes r) = V" "distinct (ps_Votes r)" and B: "ps_Bits r = B"
    and val: "ps_Value r = value_of (sol_fee af (map ((!) bits) B)) (votes_left ?p 0 V wv) (unat T)"
    and left: "V = {..<length votes} \<or> unat T div 2 < votes_left ?p 0 V wv"
    using sel by (auto simp: votes_selects_def votes_root_def votes_root_fee B_def atLeast0LessThan)
  have "weight_of (\<lambda>i. i \<in> {..<length votes}) ?W [0..<length votes] = weight_of (\<lambda>_. True) ?W [0..<length votes]"
    by (rule weight_of_cong) auto
  then have feas: "unat T div 2 < votes_left ?p 0 V wv"
    using left pr by (auto simp: votes_root_left [OF pr] problem_ok_def weight_of_all_nth)
  have sup: "\<forall>i\<in>V. \<forall>b\<in>set B. has_bit (votes ! i) (bits ! b)" by (auto simp: B_def votes_agree_def)
  have "weight_of (\<lambda>i. i \<in> V) ?W [0..<length votes] \<le>
      weight_of (\<lambda>i. \<forall>b\<in>set B. has_bit (votes ! i) (bits ! b)) ?W [0..<length votes]"
    using sup by (intro weight_of_mono) auto
  then have le: "votes_left ?p 0 V wv \<le> sol_weight votes aw (map ((!) bits) B)"
    using supporters_weight [of aw votes bits T m ef B] by (simp add: votes_root_left [OF pr] supports_candidate)
  have "0 \<le> sol_fee af (map ((!) bits) B)"
    using pr by (intro sol_fee_nonneg) (auto simp: problem_ok_def B_def)
  with le feas have "feasible votes aw T (map ((!) bits) B)" "ps_Value r \<le> sol_value votes aw af T (map ((!) bits) B)"
    by (auto simp: feasible_def sol_value_def val intro: value_of_mono)
  then show ?thesis
    using V sup unfolding votes_candidate_def B by (auto simp: B_def)
qed

lemma candidate_votes_solution:
  assumes pr: "problem_ok votes bits aw wv T af" and bs: "mset bs \<subseteq># mset bits" and feas: "feasible votes aw T bs"
  shows "\<exists>r. votes_solution (root_info votes bits T m ef) 0 (votes_root bits wv af) r \<and>
      sol_value votes aw af T bs \<le> ps_Value r"
proof -
  let ?p = "root_info votes bits T m ef"
  let ?W = "\<lambda>i. av_Weight (votes ! i)"
  let ?sup = "\<lambda>v. \<forall>b\<in>set bs. has_bit v b"
  define V where "V = {i \<in> {..<length votes}. ?sup (votes ! i)}"
  have "weight_of (\<lambda>i. i \<in> V) ?W [0..<length votes] = weight_of (\<lambda>i. ?sup (votes ! i)) ?W [0..<length votes]"
    by (rule weight_of_cong) (auto simp: V_def)
  then have left: "votes_left ?p 0 V wv = sol_weight votes aw bs"
    using weight_of_nth [of ?sup votes av_Weight] by (simp add: votes_root_left [OF pr] sol_weight_def)
  then have "unat T div 2 < votes_left ?p 0 V wv" using feas by (simp add: feasible_def)
  moreover have "V \<subseteq> {0..<length votes}" by (auto simp: V_def)
  ultimately obtain r where r: "votes_solution ?p 0 (votes_root bits wv af) r"
    "votes_selects ?p 0 (votes_root bits wv af) V r"
    using votes_solution_exists [of ?p 0 "[0..<length bits]" "af + sum_list (map ab_Fee bits)" wv V]
      votes_root_inv [OF pr, of m ef] by (auto simp: votes_root_def)
  obtain S where S: "S \<subseteq> {..<length bits}"
    "mset (map ((!) bits) (filter (\<lambda>i. i \<in> S) [0..<length bits])) = mset bs"
    using mset_subset_nths [OF bs] by blast
  have "(\<lambda>i. bits ! i) ` S = set bs"
    using mset_eq_setD [OF S(2)] S(1) by (auto simp: subset_iff image_iff)
  then have agree: "i \<in> S \<Longrightarrow> votes_agree ?p V i" for i by (auto simp: votes_agree_def V_def)
  have fees: "\<forall>b\<in>set bits. 0 \<le> ab_Fee b" "0 \<le> af" using pr by (auto simp: problem_ok_def)
  have "sum_list (map ab_Fee bs) = sum_list (map (\<lambda>b. ab_Fee (bits ! b)) (filter (\<lambda>i. i \<in> S) [0..<length bits]))"
    using sum_list_mset [OF S(2), of ab_Fee] by (simp add: comp_def)
  also have "\<dots> \<le> sum_list (map (\<lambda>b. ab_Fee (bits ! b)) (filter (votes_agree ?p V) [0..<length bits]))"
    using fees(1) agree by (intro sum_list_filter_mono) auto
  finally have "sol_fee af bs \<le> sol_fee af (map ((!) bits) (filter (votes_agree ?p V) [0..<length bits]))"
    by (simp add: sol_fee_def comp_def)
  moreover have "0 \<le> sol_fee af bs"
    using fees set_mset_mono [OF bs] by (intro sol_fee_nonneg) auto
  moreover have "ps_Value r =
      value_of (sol_fee af (map ((!) bits) (filter (votes_agree ?p V) [0..<length bits]))) (sol_weight votes aw bs) (unat T)"
    using r(2) left by (simp add: votes_selects_def votes_root_def votes_root_fee)
  ultimately have "sol_value votes aw af T bs \<le> ps_Value r"
    by (auto simp: sol_value_def intro: value_of_mono)
  with r(1) show ?thesis by blast
qed

lemma MaximizeVotes_candidate:
  assumes pr: "problem_ok votes bits aw wv T af" and ok: "votes_candidate votes bits aw T af r"
  shows "candidate_ok votes bits aw T af (ps_Bits (MaximizeVotes r votes bits af aw T))
      (ps_Value (MaximizeVotes r votes bits af aw T))"
proof -
  let ?W = "\<lambda>i. av_Weight (votes ! i)"
  let ?B = "map ((!) bits) (ps_Bits r)"
  define vs where "vs = maximizeVotes_loop votes bits (ps_Bits r) [0..<length votes] (ps_Votes r)"
  have "set vs = set (filter (\<lambda>i. \<forall>b\<in>set (ps_Bits r). has_bit (votes ! i) (bits ! b)) [0..<length votes])"
    unfolding vs_def set_maximizeVotes_loop using ok by (auto simp: votes_candidate_def)
  moreover have "distinct vs" using ok by (simp add: vs_def votes_candidate_def distinct_maximizeVotes_loop)
  ultimately have vs: "mset vs = mset (filter (\<lambda>i. \<forall>b\<in>set (ps_Bits r). has_bit (votes ! i) (bits ! b)) [0..<length votes])"
    by (subst set_eq_iff_mset_eq_distinct [symmetric]) auto
  have w: "unat aw + weight_of (\<lambda>_. True) ?W vs = sol_weight votes aw ?B"
    using weight_of_mset [OF vs, of "\<lambda>_. True" ?W] supporters_weight [of aw votes bits T 0 False "ps_Bits r"]
    by (simp add: weight_of_filter supports_candidate)
  have "sol_weight votes aw ?B \<le> unat wv"
    using pr weight_of_le_all [of _ av_Weight votes] by (simp add: sol_weight_def problem_ok_def)
  then have "sol_weight votes aw ?B < 65536" using unat_u16_less [of wv] by linarith
  then have "ps_Value (MaximizeVotes r votes bits af aw T) = sol_value votes aw af T ?B"
    using CalcValueFromFees_exact [of aw votes "r\<lparr>ps_Votes := vs\<rparr>" bits af T] w
    by (simp add: MaximizeVotes_def vs_def Let_def sol_value_def sol_fee_def comp_def)
  moreover have "ps_Bits (MaximizeVotes r votes bits af aw T) = ps_Bits r"
    by (simp add: MaximizeVotes_def Let_def)
  ultimately show ?thesis using ok by (simp add: candidate_ok_def votes_candidate_def)
qed

lemma BranchAndBoundVotes_search:
  "BranchAndBoundVotes votes bits aw wv T af m bound ef =
     (let p = root_info votes bits T m ef;
          (status, res) = votes_search p \<lparr>ss_CurrentBound = bound, ss_NumOperations = 0\<rparr> 0 (votes_root bits wv af);
          opt = (ss_NumOperations status < m)
      in case res of
           None \<Rightarrow> empty_answer votes
         | Some r \<Rightarrow>
             (let r = (if \<not> opt then MaximizeVotes r votes bits af aw T else r)
              in \<lparr>cs_Votes = map ((!) votes) (ps_Votes r), cs_Bits = map ((!) bits) (ps_Bits r),
                  cs_Value = ps_Value r, cs_Optimal = opt\<rparr>))"
  by (simp add: BranchAndBoundVotes_def votes_search_def votes_root_def root_info_def foldl_fees empty_answer_def Let_def)

lemma votes_root_found:
  assumes pr: "problem_ok votes bits aw wv T af"
    and s: "votes_search (root_info votes bits T m ef) st 0 (votes_root bits wv af) = (st', Some r)"
  shows "votes_candidate votes bits aw T af r" and "ss_CurrentBound st' = ps_Value r"
    and "ss_NumOperations st' < m \<Longrightarrow> mset bs \<subseteq># mset bits \<Longrightarrow> feasible votes aw T bs \<Longrightarrow>
      sol_value votes aw af T bs \<le> ps_Value r"
proof -
  let ?p = "root_info votes bits T m ef"
  note inv = votes_root_inv [OF pr, of m ef]
  have "bb_found ps_Value (votes_solution ?p 0 (votes_root bits wv af)) st
      (votes_search ?p st 0 (votes_root bits wv af))"
    by (rule votesSearch.search_found [OF inv]) simp
  then have sol: "votes_solution ?p 0 (votes_root bits wv af) r" and bound: "ss_CurrentBound st' = ps_Value r"
    unfolding s by simp_all
  from votes_root_selects [OF pr votes_solution_selects [OF sol inv]]
  show "votes_candidate votes bits aw T af r" .
  show "ss_CurrentBound st' = ps_Value r" by (rule bound)
  assume opt: "ss_NumOperations st' < m" and bs: "mset bs \<subseteq># mset bits" "feasible votes aw T bs"
  obtain r' where r': "votes_solution ?p 0 (votes_root bits wv af) r'" "sol_value votes aw af T bs \<le> ps_Value r'"
    using candidate_votes_solution [OF pr bs] by blast
  from votesSearch.search_complete [OF inv _ _ r'(1), of st] opt bound
  have "ps_Value r' \<le> ps_Value r" by (simp add: s)
  with r'(2) show "sol_value votes aw af T bs \<le> ps_Value r" by (rule order_trans)
qed

text \<open>An optimal search need not complete its votes: its value already is the candidate's value.\<close>

lemma votes_optimal_candidate:
  assumes pr: "problem_ok votes bits aw wv T af"
    and s: "votes_search (root_info votes bits T m ef) st 0 (votes_root bits wv af) = (st', Some r)"
    and opt: "ss_NumOperations st' < m"
  shows "candidate_ok votes bits aw T af (ps_Bits r) (ps_Value r)"
proof -
  note c = votes_root_found(1) [OF pr s]
  then have "mset (map ((!) bits) (ps_Bits r)) \<subseteq># mset bits"
    by (intro mset_map_nth_subset) (auto simp: votes_candidate_def)
  with c have "sol_value votes aw af T (map ((!) bits) (ps_Bits r)) \<le> ps_Value r"
    by (intro votes_root_found(3) [OF pr s opt]) (auto simp: votes_candidate_def)
  with c show ?thesis by (auto simp: votes_candidate_def candidate_ok_def)
qed

lemma BranchAndBoundVotes_sound:
  assumes "problem_ok votes bits aw wv T af"
  shows "sound_answer votes bits aw T af (BranchAndBoundVotes votes bits aw wv T af m bound ef)"
proof -
  let ?st = "\<lparr>ss_CurrentBound = bound, ss_NumOperations = 0\<rparr>"
  obtain st res where s: "votes_search (root_info votes bits T m ef) ?st 0 (votes_root bits wv af) = (st, res)"
    by fastforce
  show ?thesis
  proof (cases res)
    case None
    with s show ?thesis by (auto simp: BranchAndBoundVotes_search sound_answer_def Let_def)
  next
    case (Some r)
    note s' = s [unfolded Some]
    from votes_optimal_candidate [OF assms s'] MaximizeVotes_candidate [OF assms votes_root_found(1) [OF assms s']]
    show ?thesis
      unfolding BranchAndBoundVotes_search Let_def s Some by (auto intro: candidate_sound)
  qed
qed

lemma BranchAndBoundVotes_optimal:
  assumes "problem_ok votes bits aw wv T af"
    and "cs_Optimal (BranchAndBoundVotes votes bits aw wv T af m bound ef)"
  shows "optimal_answer votes bits aw T af (BranchAndBoundVotes votes bits aw wv T af m bound ef)"
proof -
  let ?st = "\<lparr>ss_CurrentBound = bound, ss_NumOperations = 0\<rparr>"
  obtain st res where s: "votes_search (root_info votes bits T m ef) ?st 0 (votes_root bits wv af) = (st, res)"
    by fastforce
  with assms(2) obtain r where r: "res = Some r" and opt: "ss_NumOperations st < m"
    by (auto simp: BranchAndBoundVotes_search empty_answer_def Let_def split: option.splits)
  from votes_root_found(3) [OF assms(1) s [unfolded r] opt] show ?thesis
    unfolding BranchAndBoundVotes_search Let_def s r using opt by (simp add: optimal_answer_def)
qed

lemma withVote_loop_length:
  "withVote_loop p v bs nb f st = (nb', f', st') \<Longrightarrow>
   ss_NumOperations st' + int (length nb') \<le> ss_NumOperations st + int (length nb) + int (length bs)"
proof (induction p v bs nb f st rule: withVote_loop.induct)
  case (2 p v b bs nb f st)
  have "length (key_insert b nb) \<le> Suc (length nb)" by (simp add: key_insert_def)
  with 2 show ?case by (auto split: if_splits)
qed simp

lemma withVote_loop_operations:
  "withVote_loop p v bs nb f st = (nb', f', st') \<Longrightarrow> ss_NumOperations st \<le> ss_NumOperations st'"
  by (induction p v bs nb f st rule: withVote_loop.induct) (auto split: if_splits)

lemma votes_incl_length: "votes_incl p k (bs, f, w) = Some (bs', f', w') \<Longrightarrow> length bs' \<le> length bs"
  using withVote_loop_length [of p "pi_BitVotes p ! k" bs "[]" f "\<lparr>ss_CurrentBound = Value 0 0, ss_NumOperations = 0\<rparr>"]
    withVote_loop_operations [of p "pi_BitVotes p ! k" bs "[]" f "\<lparr>ss_CurrentBound = Value 0 0, ss_NumOperations = 0\<rparr>"]
  by (auto simp: votes_incl_def Let_def split: prod.splits)

lemma votes_icost_length: "votes_icost p k (bs, f, w) \<le> int (length bs)"
proof -
  obtain bs' f' st' where l: "withVote_loop p (pi_BitVotes p ! k) bs [] f \<lparr>ss_CurrentBound = Value 0 0, ss_NumOperations = 0\<rparr> =
      (bs', f', st')" by (metis prod_cases3)
  show ?thesis using withVote_loop_length [OF l] by (simp add: votes_icost_def l)
qed

lemma votes_search_budget:
  assumes "problem_ok votes bits aw wv T af"
  shows "ss_NumOperations (fst (votes_search (root_info votes bits T m ef) \<lparr>ss_CurrentBound = bound, ss_NumOperations = 0\<rparr>
      0 (votes_root bits wv af))) < tree_budget (length votes) (int (length bits))"
proof -
  let ?p = "root_info votes bits T m ef" and ?c = "int (length bits)"
  let ?P = "\<lambda>(bs, f, w). length bs \<le> length bits"
  have "ss_NumOperations (fst (votes_search ?p \<lparr>ss_CurrentBound = bound, ss_NumOperations = 0\<rparr> 0 (votes_root bits wv af))) \<le>
      ss_NumOperations \<lparr>ss_CurrentBound = bound, ss_NumOperations = 0\<rparr> + (2 ^ Suc (pi_NumProviders ?p - 0) - 1) * (1 + 2 * ?c)"
  proof (rule votesSearch.search_operations_bound [where P = ?P])
    show "?P x \<Longrightarrow> votes_incl ?p k x = Some y \<Longrightarrow> ?P y" for k x y
      by (cases x; cases y) (auto dest: votes_incl_length)
    show "?P x \<Longrightarrow> votes_excl ?p k x = Some y \<Longrightarrow> ?P y" for k x y
      by (auto simp: votes_excl_def Let_def split: prod.splits if_splits)
    show "?P x \<Longrightarrow> votes_icost ?p k x \<le> ?c" for k x
    proof -
      assume P: "?P x"
      obtain bs f w where x: "x = (bs, f, w)" by (cases x)
      have "votes_icost ?p k x \<le> int (length bs)" unfolding x by (rule votes_icost_length)
      then show ?thesis using P by (simp add: x)
    qed
    show "votes_inv ?p 0 (votes_root bits wv af)" by (rule votes_root_inv [OF assms])
  qed (auto simp: votes_root_def)
  also have "\<dots> < tree_budget (length votes) ?c" using tree_budget_less [of ?c "length votes"] by simp
  finally show ?thesis .
qed

lemma BranchAndBoundVotes_enough:
  assumes "problem_ok votes bits aw wv T af" "tree_budget (length votes) (int (length bits)) \<le> m"
  shows "exhausted_answer votes bits aw T af bound (BranchAndBoundVotes votes bits aw wv T af m bound ef)"
proof -
  let ?st = "\<lparr>ss_CurrentBound = bound, ss_NumOperations = 0\<rparr>"
  let ?p = "root_info votes bits T m ef"
  obtain st res where s: "votes_search ?p ?st 0 (votes_root bits wv af) = (st, res)" by fastforce
  then have opt: "ss_NumOperations st < m"
    using votes_search_budget [OF assms(1), of m ef bound] assms(2) by simp
  show ?thesis
  proof (cases res)
    case (Some r)
    then show ?thesis unfolding BranchAndBoundVotes_search Let_def s using opt by (simp add: exhausted_answer_def)
  next
    case None
    have "sol_value votes aw af T bs \<le> bound" if bs: "mset bs \<subseteq># mset bits" "feasible votes aw T bs" for bs
    proof -
      note inv = votes_root_inv [OF assms(1), of m ef]
      obtain r' where r': "votes_solution ?p 0 (votes_root bits wv af) r'" "sol_value votes aw af T bs \<le> ps_Value r'"
        using candidate_votes_solution [OF assms(1) bs] by blast
      have "bb_found ps_Value (votes_solution ?p 0 (votes_root bits wv af)) ?st (st, res)"
        using votesSearch.search_found [OF inv, of ?st] unfolding s by simp
      then have "ss_CurrentBound st = bound" by (simp add: None)
      with votesSearch.search_complete [OF inv _ _ r'(1), of ?st] opt r'(2) show ?thesis by (simp add: s)
    qed
    then show ?thesis
      unfolding BranchAndBoundVotes_search Let_def s None by (simp add: exhausted_answer_def empty_answer_def)
  qed
qed

lemma BranchAndBoundVotesDouble_better:
  "BranchAndBoundVotesDouble votes bits aw wv T af m bound =
     better_answer (BranchAndBoundVotes (sortVotes votes cmpValVoteDsc) bits aw wv T af m bound False)
       (BranchAndBoundVotes (sortVotes votes cmpValVoteAsc) bits aw wv T af m bound True)"
  by (simp add: BranchAndBoundVotesDouble_def better_answer_def Let_def)

lemma mset_sortVotes [simp]: "mset (sortVotes votes c) = mset votes"
  by (simp add: sortVotes_def)

interpretation votesSolver: solver BranchAndBoundVotesDouble
proof unfold_locales
  fix votes bits aw wv T af m bound
  let ?a = "BranchAndBoundVotes (sortVotes votes cmpValVoteDsc) bits aw wv T af m bound False"
  let ?b = "BranchAndBoundVotes (sortVotes votes cmpValVoteAsc) bits aw wv T af m bound True"
  assume "problem_ok votes bits aw wv T af"
  then have ok: "problem_ok (sortVotes votes c) bits aw wv T af" for c
    by (simp add: problem_ok_mset [OF mset_sortVotes refl])
  note sound = BranchAndBoundVotes_sound [OF ok, unfolded sound_answer_mset [OF mset_sortVotes refl]]
  note opt = BranchAndBoundVotes_optimal [OF ok, unfolded optimal_answer_mset [OF mset_sortVotes refl]]
  show "sound_answer votes bits aw T af (BranchAndBoundVotesDouble votes bits aw wv T af m bound)"
    unfolding BranchAndBoundVotesDouble_better using better_answer_cases [of ?a ?b] sound by metis
  show "cs_Optimal (BranchAndBoundVotesDouble votes bits aw wv T af m bound) \<Longrightarrow>
      optimal_answer votes bits aw T af (BranchAndBoundVotesDouble votes bits aw wv T af m bound)"
    unfolding BranchAndBoundVotesDouble_better using better_answer_cases [of ?a ?b] opt by metis
qed

lemma length_sortVotes [simp]: "length (sortVotes votes c) = length votes"
  by (simp add: sortVotes_def)

interpretation votesComplete: complete_solver BranchAndBoundVotesDouble
  "\<lambda>nvotes nbits. tree_budget nvotes (int nbits)"
proof unfold_locales
  fix votes bits aw wv T af m bound
  assume "problem_ok votes bits aw wv T af"
  then have ok: "problem_ok (sortVotes votes c) bits aw wv T af" for c
    by (simp add: problem_ok_mset [OF mset_sortVotes refl])
  assume "tree_budget (length votes) (int (length bits)) \<le> m"
  then have m: "tree_budget (length (sortVotes votes c)) (int (length bits)) \<le> m" for c by simp
  show "exhausted_answer votes bits aw T af bound (BranchAndBoundVotesDouble votes bits aw wv T af m bound)"
    unfolding BranchAndBoundVotesDouble_better
    by (intro exhausted_better BranchAndBoundVotes_enough [OF ok m, unfolded exhausted_answer_mset [OF mset_sortVotes refl]])
qed

end
