(* ===== verification/Ensemble.thy ===== *)
theory Ensemble
  imports Preprocess BB_Votes
begin

text \<open>
  \<^verbatim>\<open>client/attestation/bitVotes/ensemble.go\<close>: the consensus bit vote. The votes are filtered and
  aggregated, the method with the smaller search space runs first, and if it was cut off the other one
  starts from its value. Shown here, for the votes of a round whose weights sum to a \<^verbatim>\<open>uint16\<close>: an
  error is returned exactly when no more than half of the total weight voted; otherwise every bit of
  the result is confirmed by one and the same set of votes with more than half of the weight; and when
  the search reports an optimal solution, no feasible set of bits has a larger value.
\<close>

datatype ConsensusError = OnlyVoted u16 u16

definition ensemble ::
  "WeightedBitVote list \<Rightarrow> int list \<Rightarrow> u16 \<Rightarrow> int \<Rightarrow> ConsensusError + FilterResults \<times> ConsensusSolution" where
  "ensemble allBitVotes fees totalWeight maxOperations =
     (let (aggregatedVotes, aggregatedFees, filterResults) = FilterAndAggregate allBitVotes fees totalWeight;
          (method0, method1) =
            (if length aggregatedVotes < length aggregatedFees
             then (BranchAndBoundVotesDouble, BranchAndBoundBitsDouble)
             else (BranchAndBoundBitsDouble, BranchAndBoundVotesDouble));
          weightVoted = add_weights (\<lambda>_. True) av_Weight aggregatedVotes (fr_GuaranteedWeight filterResults)
      in if weightVoted \<le> totalWeight div 2 then Inl (OnlyVoted weightVoted totalWeight)
         else
           let solution = method0 aggregatedVotes aggregatedFees (fr_GuaranteedWeight filterResults) weightVoted
                 totalWeight (fr_GuaranteedFees filterResults) maxOperations (Value 0 0);
               solution =
                 (if \<not> cs_Optimal solution then
                    let solution2 = method1 aggregatedVotes aggregatedFees (fr_GuaranteedWeight filterResults)
                          weightVoted totalWeight (fr_GuaranteedFees filterResults) maxOperations
                          (Value_Copy (cs_Value solution))
                    in if Value_Cmp (cs_Value solution2) (cs_Value solution) = 1 then solution2 else solution
                  else solution)
           in Inr (filterResults, solution))"

definition EnsembleConsensusBitVote ::
  "WeightedBitVote list \<Rightarrow> int list \<Rightarrow> u16 \<Rightarrow> int \<Rightarrow> ConsensusError + BitVote" where
  "EnsembleConsensusBitVote allBitVotes fees totalWeight maxOperations =
     (case ensemble allBitVotes fees totalWeight maxOperations of
        Inl err \<Rightarrow> Inl err
      | Inr (filterResults, filterSolution) \<Rightarrow>
          Inr (AssembleSolution filterResults filterSolution (of_nat (length fees))))"

section \<open>The assembled bits\<close>

definition bits_of :: "BitVote \<Rightarrow> nat set" where
  "bits_of b = {i. bit (bv_BitVector b) i}"

lemma foldl_set_bit: "bit (foldl (\<lambda>bv i. set_bit i bv) bv is) n \<longleftrightarrow> bit bv n \<or> n \<in> set is"
  for bv :: int
  by (induction "is" arbitrary: bv) (auto simp: bit_simps)

lemma foldl_set_bits:
  "bit (foldl (\<lambda>bv b. foldl (\<lambda>bv k. set_bit k bv) bv (ab_Indexes b)) bv bs) n \<longleftrightarrow> bit bv n \<or> n \<in> covers bs"
  for bv :: int
  by (induction bs arbitrary: bv) (auto simp: foldl_set_bit covers_def)

lemma bits_of_AssembleSolution:
  "bits_of (AssembleSolution fr sol n) = set (fr_AlwaysInBits fr) \<union> covers (cs_Bits sol)"
  by (auto simp: bits_of_def AssembleSolution_def Let_def foldl_set_bits foldl_set_bit)

lemma covers_remaining: "set bs \<subseteq> set (AggregateBits votes fees fr) \<Longrightarrow> covers bs \<subseteq> set (fr_RemainingBits fr)"
  unfolding covers_def using AggregateBits_entry(2) by blast

section \<open>Weights and fees of assembled candidates\<close>

lemma remaining_nowrap:
  "votes_nowrap votes \<Longrightarrow> filter_ok votes fees T fr \<Longrightarrow>
   weight_of (\<lambda>_. True) (vote_weight votes) (fr_RemainingVotes fr) < 65536"
  using filter_ok_nowrap [of votes fees T fr "\<lambda>_. True"] by simp

lemma sol_weight_filtered:
  assumes "votes_nowrap votes" "filter_ok votes fees T fr" "set bs \<subseteq> set (AggregateBits votes fees fr)"
  shows "sol_weight (AggregateVotes votes fees fr) (fr_GuaranteedWeight fr) bs =
     unat (fr_GuaranteedWeight fr) +
     weight_of (\<lambda>j. \<forall>i\<in>covers bs. vote_bit votes j i) (vote_weight votes) (fr_RemainingVotes fr)"
  unfolding sol_weight_def by (simp add: aggregated_weight [OF remaining_nowrap [OF assms(1,2)] assms(3)])

lemma sol_weight_le_supp:
  assumes "votes_nowrap votes" "filter_ok votes fees T fr" "set bs \<subseteq> set (AggregateBits votes fees fr)"
  shows "sol_weight (AggregateVotes votes fees fr) (fr_GuaranteedWeight fr) bs \<le>
     supp_weight votes (set (fr_AlwaysInBits fr) \<union> covers bs)"
proof -
  let ?S = "set (fr_AlwaysInBits fr) \<union> covers bs"
  have cov: "covers bs \<subseteq> set (fr_RemainingBits fr)" by (rule covers_remaining [OF assms(3)])
  moreover have "set (fr_AlwaysInBits fr) \<inter> set (fr_RemainingBits fr) = {}" using assms(2) by (auto simp: filter_ok_def)
  ultimately have "?S \<inter> set (fr_RemainingBits fr) = covers bs" by auto
  then show ?thesis
    unfolding sol_weight_filtered [OF assms] using filtered_weight(1) [OF assms(2), of ?S] cov by auto
qed

lemma distinct_sub_mset:
  assumes "mset ys \<subseteq># mset xs" "distinct xs"
  shows "distinct ys"
  unfolding distinct_count_atmost_1
proof
  fix a
  have "count (mset ys) a \<le> count (mset xs) a" by (rule mset_subset_eq_count [OF assms(1)])
  also have "\<dots> \<le> 1" using assms(2) unfolding distinct_count_atmost_1 by (metis le0 order_refl)
  finally have le: "count (mset ys) a \<le> 1" .
  show "count (mset ys) a = (if a \<in> set ys then 1 else 0)"
  proof (cases "a \<in> set ys")
    case True
    then have "count (mset ys) a \<noteq> 0" by (metis count_mset_0_iff)
    with le True show ?thesis by presburger
  qed simp
qed

lemma mset_concat_map_mono: "mset ys \<subseteq># mset xs \<Longrightarrow> mset (concat (map f ys)) \<subseteq># mset (concat (map f xs))"
proof -
  assume "mset ys \<subseteq># mset xs"
  then obtain zs where "mset xs = mset ys + mset zs" by (metis ex_mset subset_mset.le_iff_add)
  moreover have "mset (concat (map f us)) = \<Sum>\<^sub># (image_mset (mset \<circ> f) (mset us))" for us
    by (induction us) auto
  ultimately show ?thesis by simp
qed

lemma sol_fee_filtered:
  assumes ok: "filter_ok votes fees T fr" and bs: "mset bs \<subseteq># mset (AggregateBits votes fees fr)"
  shows "sol_fee (fr_GuaranteedFees fr) bs = fees_sum fees (set (fr_AlwaysInBits fr) \<union> covers bs)"
proof -
  let ?AB = "AggregateBits votes fees fr" and ?cs = "concat (map ab_Indexes bs)"
  have sub: "set bs \<subseteq> set ?AB" using set_mset_mono [OF bs] by simp
  have d: "distinct (fr_AlwaysInBits fr @ fr_AlwaysOutBits fr @ fr_RemainingBits fr)" using ok by (simp add: filter_ok_def)
  have "mset (concat (map ab_Indexes ?AB)) = mset (fr_RemainingBits fr)"
    unfolding AggregateBits_aggregate by (simp add: aggBits.group_mset del: map_map)
  then have "distinct (concat (map ab_Indexes ?AB)) = distinct (fr_RemainingBits fr)" by (rule mset_eq_imp_distinct_iff)
  then have "distinct (concat (map ab_Indexes ?AB))" using d by simp
  then have cs: "distinct ?cs" by (rule distinct_sub_mset [OF mset_concat_map_mono [OF bs]])
  have set_cs: "set ?cs = covers bs" by (simp add: covers_def)
  have "sum_list (map ab_Fee bs) = sum_list (map ((!) fees) ?cs)"
    using sub by (induction bs) (auto simp: AggregateBits_entry(3))
  also have "\<dots> = fees_sum fees (covers bs)" unfolding fees_sum_def set_cs [symmetric] by (rule sum_list_distinct_conv_sum_set [OF cs])
  finally have fee: "sum_list (map ab_Fee bs) = fees_sum fees (covers bs)" .
  have "fr_GuaranteedFees fr = fees_sum fees (set (fr_AlwaysInBits fr))"
    using ok d by (simp add: filter_ok_def fees_sum_def sum_list_distinct_conv_sum_set)
  moreover have "set (fr_AlwaysInBits fr) \<inter> covers bs = {}" using covers_remaining [OF sub] d by auto
  moreover have "finite (covers bs)" by (simp add: covers_def)
  ultimately show ?thesis by (simp add: sol_fee_def fee fees_sum_def sum.union_disjoint)
qed


section \<open>The problem handed to the solvers\<close>

definition voted_weight :: "WeightedBitVote list \<Rightarrow> int list \<Rightarrow> FilterResults \<Rightarrow> u16" where
  "voted_weight votes fees fr = add_weights (\<lambda>_. True) av_Weight (AggregateVotes votes fees fr) (fr_GuaranteedWeight fr)"

lemma sol_weight_empty:
  "sol_weight vs aw [] = unat aw + weight_of (\<lambda>_. True) av_Weight vs"
  by (simp add: sol_weight_def)

lemma voted_weight_exact:
  assumes "votes_nowrap votes" "filter_ok votes fees T fr"
  shows "unat (voted_weight votes fees fr) = sol_weight (AggregateVotes votes fees fr) (fr_GuaranteedWeight fr) []"
    "unat (voted_weight votes fees fr) =
       unat (fr_GuaranteedWeight fr) + weight_of (\<lambda>_. True) (vote_weight votes) (fr_RemainingVotes fr)"
proof -
  have eq: "weight_of (\<lambda>_. True) av_Weight (AggregateVotes votes fees fr) =
      weight_of (\<lambda>_. True) (vote_weight votes) (fr_RemainingVotes fr)"
    using aggregated_weight [OF remaining_nowrap [OF assms], of "[]"] by (simp add: covers_def)
  show v: "unat (voted_weight votes fees fr) =
      unat (fr_GuaranteedWeight fr) + weight_of (\<lambda>_. True) (vote_weight votes) (fr_RemainingVotes fr)"
    using filter_ok_nowrap [OF assms, of "\<lambda>_. True"] by (simp add: voted_weight_def unat_add_weights eq)
  show "unat (voted_weight votes fees fr) = sol_weight (AggregateVotes votes fees fr) (fr_GuaranteedWeight fr) []"
    unfolding v sol_weight_empty eq by simp
qed

lemma reduced_problem_ok:
  assumes nw: "votes_nowrap votes" and ok: "filter_ok votes fees T fr" and fees: "\<forall>f\<in>set fees. 0 \<le> f"
    and maj: "T div 2 < voted_weight votes fees fr"
  shows "problem_ok (AggregateVotes votes fees fr) (AggregateBits votes fees fr) (fr_GuaranteedWeight fr)
     (voted_weight votes fees fr) T (fr_GuaranteedFees fr)"
proof -
  have idx: "set (fr_AlwaysInBits fr) \<subseteq> {..<length fees}" "set (fr_RemainingBits fr) \<subseteq> {..<length fees}"
    using ok by (auto simp: filter_ok_def)
  have pos: "i < length fees \<Longrightarrow> 0 \<le> fees ! i" for i using fees by simp
  have "0 \<le> ab_Fee b" if b: "b \<in> set (AggregateBits votes fees fr)" for b
    unfolding AggregateBits_entry(3) [OF b] using AggregateBits_entry(2) [OF b] idx(2) pos by (intro sum_list_nonneg_int) auto
  moreover have "0 \<le> fr_GuaranteedFees fr"
  proof -
    have "fr_GuaranteedFees fr = sum_list (map ((!) fees) (fr_AlwaysInBits fr))" using ok by (simp add: filter_ok_def)
    then show ?thesis using idx(1) pos by (auto intro!: sum_list_nonneg_int)
  qed
  ultimately show ?thesis
    using maj voted_weight_exact(1) [OF nw ok] by (simp add: problem_ok_def word_less_unat sol_weight_empty)
qed

text \<open>The two methods in the order in which they are tried, and what is known of the answer.\<close>

lemma ensemble_cases:
  fixes votes fees T
  defines "fr \<equiv> Filter votes fees T"
  shows "voted_weight votes fees fr \<le> T div 2 \<Longrightarrow> ensemble votes fees T m = Inl (OnlyVoted (voted_weight votes fees fr) T)"
    and "T div 2 < voted_weight votes fees fr \<Longrightarrow>
      \<exists>sol method bound. ensemble votes fees T m = Inr (fr, sol) \<and>
        method \<in> {BranchAndBoundBitsDouble, BranchAndBoundVotesDouble} \<and>
        sol = method (AggregateVotes votes fees fr) (AggregateBits votes fees fr) (fr_GuaranteedWeight fr)
          (voted_weight votes fees fr) T (fr_GuaranteedFees fr) m bound"
proof -
  show "voted_weight votes fees fr \<le> T div 2 \<Longrightarrow> ensemble votes fees T m = Inl (OnlyVoted (voted_weight votes fees fr) T)"
    unfolding ensemble_def FilterAndAggregate_def Let_def fr_def
    by (auto simp: voted_weight_def split: prod.splits)
  assume "T div 2 < voted_weight votes fees fr"
  then show "\<exists>sol method bound. ensemble votes fees T m = Inr (fr, sol) \<and>
        method \<in> {BranchAndBoundBitsDouble, BranchAndBoundVotesDouble} \<and>
        sol = method (AggregateVotes votes fees fr) (AggregateBits votes fees fr) (fr_GuaranteedWeight fr)
          (voted_weight votes fees fr) T (fr_GuaranteedFees fr) m bound"
    unfolding ensemble_def FilterAndAggregate_def Let_def fr_def voted_weight_def [symmetric] split_beta fst_conv snd_conv
    by (cases "length (AggregateVotes votes fees (Filter votes fees T)) < length (AggregateBits votes fees (Filter votes fees T))")
      (auto simp: not_le [symmetric])
qed

lemma double_methods:
  assumes "method \<in> {BranchAndBoundBitsDouble, BranchAndBoundVotesDouble}" "problem_ok vs bs aw wv T af"
  shows "sound_answer vs bs aw T af (method vs bs aw wv T af m bound)"
    "cs_Optimal (method vs bs aw wv T af m bound) \<Longrightarrow> optimal_answer vs bs aw T af (method vs bs aw wv T af m bound)"
  using assms bitsSolver.solve_sound bitsSolver.solve_optimal votesSolver.solve_sound votesSolver.solve_optimal by auto

section \<open>The result against the original votes\<close>

lemma ensemble_sound:
  assumes nw: "votes_nowrap votes" and fees: "\<forall>f\<in>set fees. 0 \<le> f" and res: "ensemble votes fees T m = Inr (fr, sol)"
  shows "fr = Filter votes fees T" "filter_ok votes fees T fr" "T div 2 < voted_weight votes fees fr"
    "sound_answer (AggregateVotes votes fees fr) (AggregateBits votes fees fr) (fr_GuaranteedWeight fr) T (fr_GuaranteedFees fr) sol"
    "cs_Optimal sol \<Longrightarrow>
     optimal_answer (AggregateVotes votes fees fr) (AggregateBits votes fees fr) (fr_GuaranteedWeight fr) T (fr_GuaranteedFees fr) sol"
proof -
  let ?fr = "Filter votes fees T"
  have ok: "filter_ok votes fees T ?fr" by (rule Filter_ok [OF nw])
  have maj: "T div 2 < voted_weight votes fees ?fr" using ensemble_cases(1) [of votes fees T m] res by fastforce
  obtain solve bound where m: "fr = ?fr" "solve \<in> {BranchAndBoundBitsDouble, BranchAndBoundVotesDouble}"
    "sol = solve (AggregateVotes votes fees ?fr) (AggregateBits votes fees ?fr) (fr_GuaranteedWeight ?fr)
          (voted_weight votes fees ?fr) T (fr_GuaranteedFees ?fr) m bound"
    using ensemble_cases(2) [OF maj, of m] res by auto
  show "fr = ?fr" "filter_ok votes fees T fr" "T div 2 < voted_weight votes fees fr" using m(1) ok maj by simp_all
  note double_methods [OF m(2) reduced_problem_ok [OF nw ok fees maj], of m bound, folded m(3), folded m(1)]
  then show "sound_answer (AggregateVotes votes fees fr) (AggregateBits votes fees fr) (fr_GuaranteedWeight fr) T (fr_GuaranteedFees fr) sol"
    "cs_Optimal sol \<Longrightarrow>
     optimal_answer (AggregateVotes votes fees fr) (AggregateBits votes fees fr) (fr_GuaranteedWeight fr) T (fr_GuaranteedFees fr) sol"
    by auto
qed

lemma sound_answer_bits:
  "sound_answer vs bits aw T af sol \<Longrightarrow> mset (cs_Bits sol) \<subseteq># mset bits"
  by (auto simp: sound_answer_def empty_answer_def)

lemma ensemble_feasible:
  assumes nw: "votes_nowrap votes" and fees: "\<forall>f\<in>set fees. 0 \<le> f" and res: "ensemble votes fees T m = Inr (fr, sol)"
  shows "unat T div 2 < sol_weight (AggregateVotes votes fees fr) (fr_GuaranteedWeight fr) (cs_Bits sol)"
proof -
  note ens = ensemble_sound [OF assms]
  consider vs where "mset vs = mset (AggregateVotes votes fees fr)" "sol = empty_answer vs"
    | "feasible (AggregateVotes votes fees fr) (fr_GuaranteedWeight fr) T (cs_Bits sol)"
    using ens(4) unfolding sound_answer_def by blast
  then show ?thesis
  proof cases
    case 1
    have "unat T div 2 < unat (voted_weight votes fees fr)" using ens(3) by (simp add: word_less_unat)
    then show ?thesis using 1(2) voted_weight_exact(1) [OF nw ens(2)] by (simp add: empty_answer_def)
  next
    case 2
    then show ?thesis by (simp add: feasible_def)
  qed
qed

lemma ensemble_majority:
  assumes "votes_nowrap votes" "\<forall>f\<in>set fees. 0 \<le> f" "ensemble votes fees T m = Inr (fr, sol)"
  shows "unat T div 2 < supp_weight votes (set (fr_AlwaysInBits fr) \<union> covers (cs_Bits sol))"
proof -
  note ens = ensemble_sound [OF assms]
  have "set (cs_Bits sol) \<subseteq> set (AggregateBits votes fees fr)" using set_mset_mono [OF sound_answer_bits [OF ens(4)]] by simp
  from sol_weight_le_supp [OF assms(1) ens(2) this] ensemble_feasible [OF assms] show ?thesis by simp
qed


lemma set_value_empty: "set_value votes fees T {} = Value 0 0"
  by (simp add: set_value_def fees_sum_def value_of_def)

lemma fees_sum_mono:
  assumes "\<forall>f\<in>set fees. 0 \<le> f" "S \<subseteq> S'" "S' \<subseteq> {..<length fees}"
  shows "0 \<le> fees_sum fees S" "fees_sum fees S \<le> fees_sum fees S'"
proof -
  have "finite S'" by (rule finite_subset [OF assms(3)]) simp
  moreover have "0 \<le> fees ! i" if "i \<in> S'" for i using that assms(1,3) by auto
  ultimately show "0 \<le> fees_sum fees S" "fees_sum fees S \<le> fees_sum fees S'"
    unfolding fees_sum_def using assms(2) by (auto intro!: sum_nonneg sum_mono2)
qed

text \<open>Every set of bits with a majority is dominated by a feasible candidate of the reduced problem.\<close>

lemma candidate_for_set:
  assumes nw: "votes_nowrap votes" and fees: "\<forall>f\<in>set fees. 0 \<le> f" and ok: "filter_ok votes fees T fr"
    and S: "S \<subseteq> {..<length fees}" "S \<noteq> {}" "unat T div 2 < supp_weight votes S"
  shows "\<exists>bs. mset bs \<subseteq># mset (AggregateBits votes fees fr) \<and>
     feasible (AggregateVotes votes fees fr) (fr_GuaranteedWeight fr) T bs \<and>
     set_value votes fees T S \<le>
       sol_value (AggregateVotes votes fees fr) (fr_GuaranteedWeight fr) (fr_GuaranteedFees fr) T bs"
proof -
  let ?AB = "AggregateBits votes fees fr" and ?R = "set (fr_RemainingBits fr)"
  define bs where "bs = filter (\<lambda>b. set (ab_Indexes b) \<inter> S \<noteq> {}) ?AB"
  have sub: "mset bs \<subseteq># mset ?AB" by (simp add: bs_def mset_filter)
  have in_AB: "set bs \<subseteq> set ?AB" by (auto simp: bs_def)
  have cov: "covers bs \<subseteq> ?R" by (rule covers_remaining [OF in_AB])
  have S_in: "S \<subseteq> set (fr_AlwaysInBits fr) \<union> ?R" by (rule feasible_not_out [OF ok S(1,3)])
  have "set (concat (map ab_Indexes ?AB)) = ?R"
    using mset_eq_setD [of "concat (map ab_Indexes ?AB)" "sort (fr_RemainingBits fr)"]
    unfolding AggregateBits_aggregate by (simp add: aggBits.group_mset del: map_map set_concat)
  then have S_cov: "S \<inter> ?R \<subseteq> covers bs" by (fastforce simp: covers_def bs_def)
  have agree: "(\<forall>i\<in>covers bs. vote_bit votes j i) \<longleftrightarrow> (\<forall>i\<in>S \<inter> ?R. vote_bit votes j i)" if j: "j \<in> set (fr_RemainingVotes fr)" for j
  proof
    assume all: "\<forall>i\<in>S \<inter> ?R. vote_bit votes j i"
    show "\<forall>i\<in>covers bs. vote_bit votes j i"
    proof
      fix i assume "i \<in> covers bs"
      then obtain b i' where b: "b \<in> set ?AB" "i \<in> set (ab_Indexes b)" "i' \<in> set (ab_Indexes b)" "i' \<in> S"
        by (auto simp: covers_def bs_def)
      then have "vote_bit votes j i'" using all AggregateBits_entry(2) [OF b(1)] by blast
      then show "vote_bit votes j i"
        using AggregateBits_entry(4) [OF b(1,2) j] AggregateBits_entry(4) [OF b(1,3) j] by simp
    qed
  qed (use S_cov in blast)
  have "sol_weight (AggregateVotes votes fees fr) (fr_GuaranteedWeight fr) bs =
      unat (fr_GuaranteedWeight fr) + weight_of (\<lambda>j. \<forall>i\<in>S \<inter> ?R. vote_bit votes j i) (vote_weight votes) (fr_RemainingVotes fr)"
    unfolding sol_weight_filtered [OF nw ok in_AB] using agree by (intro arg_cong2 [of _ _ _ _ "(+)"] refl weight_of_cong) blast
  also have "\<dots> = supp_weight votes S" using filtered_weight(2) [OF ok S_in S(2)] by simp
  finally have w: "sol_weight (AggregateVotes votes fees fr) (fr_GuaranteedWeight fr) bs = supp_weight votes S" .
  have bound: "set (fr_AlwaysInBits fr) \<union> covers bs \<subseteq> {..<length fees}" using ok cov by (auto simp: filter_ok_def)
  have "S \<subseteq> set (fr_AlwaysInBits fr) \<union> covers bs" using S_in S_cov by blast
  from fees_sum_mono [OF fees this bound] have "set_value votes fees T S \<le>
      sol_value (AggregateVotes votes fees fr) (fr_GuaranteedWeight fr) (fr_GuaranteedFees fr) T bs"
    unfolding set_value_def sol_value_def w sol_fee_filtered [OF ok sub] by (intro value_of_mono) auto
  with sub w S(3) show ?thesis by (auto simp: feasible_def)
qed

lemma ensemble_best:
  assumes nw: "votes_nowrap votes" and fees: "\<forall>f\<in>set fees. 0 \<le> f" and res: "ensemble votes fees T m = Inr (fr, sol)"
    and best: "\<And>bs. mset bs \<subseteq># mset (AggregateBits votes fees fr) \<Longrightarrow>
      feasible (AggregateVotes votes fees fr) (fr_GuaranteedWeight fr) T bs \<Longrightarrow>
      sol_value (AggregateVotes votes fees fr) (fr_GuaranteedWeight fr) (fr_GuaranteedFees fr) T bs \<le> cs_Value sol"
    and S: "S \<subseteq> {..<length fees}" "unat T div 2 < supp_weight votes S"
  shows "set_value votes fees T S \<le> set_value votes fees T (set (fr_AlwaysInBits fr) \<union> covers (cs_Bits sol))"
proof -
  let ?AV = "AggregateVotes votes fees fr" and ?AB = "AggregateBits votes fees fr"
  let ?R = "set (fr_AlwaysInBits fr) \<union> covers (cs_Bits sol)"
  note ens = ensemble_sound [OF nw fees res]
  have sub: "mset (cs_Bits sol) \<subseteq># mset ?AB" by (rule sound_answer_bits [OF ens(4)])
  then have in_AB: "set (cs_Bits sol) \<subseteq> set ?AB" using set_mset_mono by fastforce
  have bound: "?R \<subseteq> {..<length fees}" using ens(2) covers_remaining [OF in_AB] by (auto simp: filter_ok_def)
  note pos = fees_sum_mono(1) [OF fees order_refl bound]
  have nonneg: "Value 0 0 \<le> set_value votes fees T ?R"
    using value_of_mono [OF order_refl pos le0, of "unat T" "supp_weight votes ?R"]
    by (simp add: set_value_def value_of_def)
  have le: "cs_Value sol \<le> set_value votes fees T ?R"
  proof (cases "\<exists>vs. mset vs = mset ?AV \<and> sol = empty_answer vs")
    case True
    with nonneg show ?thesis by (auto simp: empty_answer_def)
  next
    case False
    with ens(4) have val: "cs_Value sol = sol_value ?AV (fr_GuaranteedWeight fr) (fr_GuaranteedFees fr) T (cs_Bits sol)"
      by (simp add: sound_answer_def)
    show ?thesis
      unfolding val sol_value_def set_value_def sol_fee_filtered [OF ens(2) sub]
      using pos sol_weight_le_supp [OF nw ens(2) in_AB] by (intro value_of_mono) auto
  qed
  show ?thesis
  proof (cases "S = {}")
    case True
    then show ?thesis using nonneg by (simp add: set_value_empty)
  next
    case False
    obtain bs where bs: "mset bs \<subseteq># mset ?AB" "feasible ?AV (fr_GuaranteedWeight fr) T bs"
      "set_value votes fees T S \<le> sol_value ?AV (fr_GuaranteedWeight fr) (fr_GuaranteedFees fr) T bs"
      using candidate_for_set [OF nw fees ens(2) S(1) False S(2)] by blast
    from bs(3) best [OF bs(1,2)] le show ?thesis by (meson order_trans)
  qed
qed

lemma ensemble_optimal:
  assumes "votes_nowrap votes" "\<forall>f\<in>set fees. 0 \<le> f" "ensemble votes fees T m = Inr (fr, sol)" "cs_Optimal sol"
    and "S \<subseteq> {..<length fees}" "unat T div 2 < supp_weight votes S"
  shows "set_value votes fees T S \<le> set_value votes fees T (set (fr_AlwaysInBits fr) \<union> covers (cs_Bits sol))"
  by (rule ensemble_best [OF assms(1-3) _ assms(5,6)])
    (use ensemble_sound(5) [OF assms(1-4)] in \<open>simp add: optimal_answer_def\<close>)

section \<open>Enough operations\<close>

lemma length_le_concat: "(\<And>x. x \<in> set xs \<Longrightarrow> f x \<noteq> []) \<Longrightarrow> length xs \<le> length (concat (map f xs))"
proof (induction xs)
  case (Cons x xs)
  have "1 \<le> length (f x)" using Cons.prems [of x] by (cases "f x") auto
  then show ?case using Cons by simp
qed simp

lemma aggregated_lengths:
  assumes nw: "votes_nowrap votes" and ok: "filter_ok votes fees T fr"
  shows "length (AggregateBits votes fees fr) \<le> length fees" "length (AggregateVotes votes fees fr) \<le> length votes"
proof -
  have "mset (concat (map ab_Indexes (AggregateBits votes fees fr))) = mset (fr_RemainingBits fr)"
    unfolding AggregateBits_aggregate by (simp add: aggBits.group_mset del: map_map)
  from mset_eq_length [OF this] have "length (AggregateBits votes fees fr) \<le> length (fr_RemainingBits fr)"
    using length_le_concat [of "AggregateBits votes fees fr" ab_Indexes] AggregateBits_entry(1) by metis
  also have "length (fr_RemainingBits fr) = card (set (fr_RemainingBits fr))"
    using ok by (simp add: filter_ok_def distinct_card)
  also have "\<dots> \<le> card {..<length fees}" using ok by (intro card_mono) (auto simp: filter_ok_def)
  finally show "length (AggregateBits votes fees fr) \<le> length fees" by simp
  have "mset (concat (map av_Indexes (AggregateVotes votes fees fr))) = mset (fr_RemainingVotes fr)"
    unfolding AggregateVotes_aggregate by (simp add: aggVotes.group_mset del: map_map)
  from mset_eq_length [OF this] have "length (AggregateVotes votes fees fr) \<le> length (fr_RemainingVotes fr)"
    using length_le_concat [of "AggregateVotes votes fees fr" av_Indexes]
      AggregateVotes_entry(1) [OF _ remaining_nowrap [OF nw ok]] by metis
  also have "length (fr_RemainingVotes fr) = card (set (fr_RemainingVotes fr))"
    using ok by (simp add: filter_ok_def distinct_card)
  also have "\<dots> \<le> card {..<length votes}" using ok by (intro card_mono) (auto simp: filter_ok_def)
  finally show "length (AggregateVotes votes fees fr) \<le> length votes" by simp
qed

text \<open>
  The search that goes first branches on the shorter of the two lists; \<open>ensemble_budget\<close> covers it for
  every round with that many votes and attestations.
\<close>

definition ensemble_budget :: "nat \<Rightarrow> nat \<Rightarrow> int" where
  "ensemble_budget nvotes nfees = tree_budget (min nvotes nfees) (1 + int nvotes + int nfees)"

lemma first_method_best:
  assumes pr: "problem_ok vs bs aw wv T af" and m: "ensemble_budget nv nf \<le> m" and len: "length bs \<le> nf" "length vs \<le> nv"
    and cand: "mset cs \<subseteq># mset bs" "feasible vs aw T cs"
  shows "sol_value vs aw af T cs \<le> cs_Value
    ((if length vs < length bs then BranchAndBoundVotesDouble else BranchAndBoundBitsDouble) vs bs aw wv T af m (Value 0 0))"
proof (cases "length vs < length bs")
  case True
  have "tree_budget (length vs) (int (length bs)) \<le> ensemble_budget nv nf"
    unfolding ensemble_budget_def using True len by (intro tree_budget_mono) auto
  then show ?thesis using True m votesComplete.solve_best [OF pr _ order_refl cand] by simp
next
  case False
  have "tree_budget (length bs) (1 + int (length vs)) \<le> ensemble_budget nv nf"
    unfolding ensemble_budget_def using False len by (intro tree_budget_mono) auto
  then show ?thesis using False m bitsComplete.solve_best [OF pr _ order_refl cand] by simp
qed

lemma ensemble_first:
  assumes res: "ensemble votes fees T m = Inr (fr, sol)"
  shows "cs_Value ((if length (AggregateVotes votes fees fr) < length (AggregateBits votes fees fr)
      then BranchAndBoundVotesDouble else BranchAndBoundBitsDouble) (AggregateVotes votes fees fr) (AggregateBits votes fees fr)
      (fr_GuaranteedWeight fr) (voted_weight votes fees fr) T (fr_GuaranteedFees fr) m (Value 0 0)) \<le> cs_Value sol"
proof -
  let ?fr = "Filter votes fees T"
  have "T div 2 < voted_weight votes fees ?fr" using ensemble_cases(1) [of votes fees T m] res by fastforce
  with res show ?thesis
    unfolding ensemble_def FilterAndAggregate_def Let_def voted_weight_def [symmetric] split_beta fst_conv snd_conv
    by (cases "length (AggregateVotes votes fees ?fr) < length (AggregateBits votes fees ?fr)")
      (auto simp: not_le [symmetric] intro: less_imp_le split: if_splits)
qed

lemma ensemble_enough:
  assumes nw: "votes_nowrap votes" and fees: "\<forall>f\<in>set fees. 0 \<le> f" and res: "ensemble votes fees T m = Inr (fr, sol)"
    and m: "ensemble_budget (length votes) (length fees) \<le> m"
    and S: "S \<subseteq> {..<length fees}" "unat T div 2 < supp_weight votes S"
  shows "set_value votes fees T S \<le> set_value votes fees T (set (fr_AlwaysInBits fr) \<union> covers (cs_Bits sol))"
proof (rule ensemble_best [OF nw fees res _ S])
  note ens = ensemble_sound [OF nw fees res]
  have maj: "T div 2 < voted_weight votes fees fr" by (rule ens(3))
  note pr = reduced_problem_ok [OF nw ens(2) fees maj] and len = aggregated_lengths [OF nw ens(2)]
  fix bs assume "mset bs \<subseteq># mset (AggregateBits votes fees fr)"
    "feasible (AggregateVotes votes fees fr) (fr_GuaranteedWeight fr) T bs"
  from first_method_best [OF pr m len this] ensemble_first [OF res]
  show "sol_value (AggregateVotes votes fees fr) (fr_GuaranteedWeight fr) (fr_GuaranteedFees fr) T bs \<le> cs_Value sol"
    by (rule order_trans)
qed

section \<open>Errors\<close>

lemma ensemble_error_iff:
  assumes nw: "votes_nowrap votes"
  shows "(\<exists>e. ensemble votes fees T m = Inl e) \<longleftrightarrow> weight_of (\<lambda>_. True) wbv_Weight votes \<le> unat T div 2"
proof -
  let ?fr = "Filter votes fees T" and ?all = "weight_of (\<lambda>_. True) wbv_Weight votes"
  have ok: "filter_ok votes fees T ?fr" by (rule Filter_ok [OF nw])
  have all: "?all = supp_weight votes {}" by (simp add: supp_weight_def)
  have "unat (voted_weight votes fees ?fr) \<le> ?all"
    using filtered_weight(1) [OF ok, of "{}"] voted_weight_exact(2) [OF nw ok] by (simp add: all)
  moreover have "unat (voted_weight votes fees ?fr) = ?all" if "fr_AlwaysOutVotes ?fr = []"
    using supp_weight_parts [OF ok, of "{}"] that ok voted_weight_exact(2) [OF nw ok] by (simp add: all filter_ok_def)
  moreover have "unat T div 2 < unat (voted_weight votes fees ?fr)" if out: "fr_AlwaysOutVotes ?fr \<noteq> []"
  proof -
    obtain i where i: "i \<in> set (fr_AlwaysInBits ?fr) \<union> set (fr_RemainingBits ?fr)" "unat T div 2 < supp_weight votes {i}"
      using Filter_major [OF nw, of T fees] out by (auto simp: filter_major_def supp_weight_index)
    have "supp_weight votes {i} = unat (fr_GuaranteedWeight ?fr) +
        weight_of (\<lambda>j. \<forall>i\<in>{i} \<inter> set (fr_RemainingBits ?fr). vote_bit votes j i) (vote_weight votes) (fr_RemainingVotes ?fr)"
      using i(1) by (intro filtered_weight(2) [OF ok]) auto
    also have "\<dots> \<le> unat (voted_weight votes fees ?fr)"
      unfolding voted_weight_exact(2) [OF nw ok] using weight_of_le_all by (rule add_left_mono)
    finally show ?thesis using i(2) by simp
  qed
  ultimately have "voted_weight votes fees ?fr \<le> T div 2 \<longleftrightarrow> ?all \<le> unat T div 2"
    unfolding word_le_unat unat_half by (cases "fr_AlwaysOutVotes ?fr = []") auto
  moreover have "(\<exists>e. ensemble votes fees T m = Inl e) \<longleftrightarrow> voted_weight votes fees ?fr \<le> T div 2"
    using ensemble_cases(1) [of votes fees T m] ensemble_cases(2) [of T votes fees m]
    by (cases "voted_weight votes fees ?fr \<le> T div 2") (auto simp: not_le)
  ultimately show ?thesis by simp
qed


section \<open>The bit vote that is returned\<close>

lemma foldl_set_bit_nonneg: "0 \<le> bv \<Longrightarrow> 0 \<le> foldl (\<lambda>bv i. set_bit i bv) bv is"
  for bv :: int
  by (induction "is" arbitrary: bv) auto

lemma foldl_set_bits_nonneg: "0 \<le> bv \<Longrightarrow> 0 \<le> foldl (\<lambda>bv b. foldl (\<lambda>bv k. set_bit k bv) bv (ab_Indexes b)) bv bs"
  for bv :: int
  by (induction bs arbitrary: bv) (auto simp: foldl_set_bit_nonneg)

lemma AssembleSolution_nonneg: "0 \<le> bv_BitVector (AssembleSolution fr sol n)"
proof -
  let ?b = "foldl (\<lambda>bv b. foldl (\<lambda>bv k. set_bit k bv) bv (ab_Indexes b))
     (foldl (\<lambda>bv i. set_bit i bv) 0 (fr_AlwaysInBits fr)) (cs_Bits sol) :: int"
  have "bv_BitVector (AssembleSolution fr sol n) = ?b" by (simp add: AssembleSolution_def Let_def)
  moreover have "0 \<le> ?b" by (intro foldl_set_bits_nonneg foldl_set_bit_nonneg) (rule order_refl)
  ultimately show ?thesis by simp
qed

lemma consensus_result:
  assumes "votes_nowrap votes" "\<forall>f\<in>set fees. 0 \<le> f" "EnsembleConsensusBitVote votes fees T m = Inr b"
  obtains fr sol where "ensemble votes fees T m = Inr (fr, sol)" "b = AssembleSolution fr sol (of_nat (length fees))"
    "bits_of b = set (fr_AlwaysInBits fr) \<union> covers (cs_Bits sol)" "bits_of b \<subseteq> {..<length fees}"
proof -
  obtain fr sol where ens: "ensemble votes fees T m = Inr (fr, sol)" and b: "b = AssembleSolution fr sol (of_nat (length fees))"
    using assms(3) by (auto simp: EnsembleConsensusBitVote_def split: sum.splits)
  have bits: "bits_of b = set (fr_AlwaysInBits fr) \<union> covers (cs_Bits sol)" unfolding b by (rule bits_of_AssembleSolution)
  note sound = ensemble_sound [OF assms(1,2) ens]
  have "set (cs_Bits sol) \<subseteq> set (AggregateBits votes fees fr)" using set_mset_mono [OF sound_answer_bits [OF sound(4)]] by simp
  from covers_remaining [OF this] have "bits_of b \<subseteq> {..<length fees}"
    using sound(2) unfolding bits by (auto simp: filter_ok_def)
  with ens b bits that show thesis by blast
qed

lemma consensus_BitLen:
  assumes "votes_nowrap votes" "\<forall>f\<in>set fees. 0 \<le> f" "EnsembleConsensusBitVote votes fees T m = Inr b"
  shows "big_BitLen (bv_BitVector b) \<le> length fees"
proof -
  obtain fr sol where b: "b = AssembleSolution fr sol (of_nat (length fees))" "bits_of b \<subseteq> {..<length fees}"
    by (rule consensus_result [OF assms])
  show ?thesis
  proof (rule BitLen_le_bits)
    show "0 \<le> bv_BitVector b" unfolding b(1) by (rule AssembleSolution_nonneg)
    show "i < length fees" if "bit (bv_BitVector b) i" for i using b(2) that by (auto simp: bits_of_def)
  qed
qed

section \<open>Properties\<close>

abbreviation (input) sample_vote :: "u16 \<Rightarrow> int \<Rightarrow> WeightedBitVote" where
  "sample_vote weight bits \<equiv>
     \<lparr>wbv_Index = 0, wbv_IndexTx = \<lparr>tx_BlockNumber = 1, tx_TransactionIndex = 0\<rparr>, wbv_Weight = weight,
      wbv_BitVote = \<lparr>bv_Length = 3, bv_BitVector = bits\<rparr>\<rparr>"

abbreviation (input) sample_votes :: "WeightedBitVote list" where
  "sample_votes \<equiv> [sample_vote 30 3, sample_vote 40 5, sample_vote 30 6]"

text \<open>
  C1. Safety of the consensus: whatever bit vote is returned, and whether or not the search was cut off by
  its operation limit, the attestations it chooses exist and are all supported by bit votes of more than
  half of the total weight.
\<close>

theorem consensus_majority:
  assumes "votes_nowrap votes" "\<forall>f\<in>set fees. 0 \<le> f" "EnsembleConsensusBitVote votes fees T m = Inr b"
  shows "bits_of b \<subseteq> {..<length fees} \<and> unat T div 2 < supp_weight votes (bits_of b)"
proof -
  from assms obtain fr sol where e: "ensemble votes fees T m = Inr (fr, sol)"
    and b: "bits_of b = set (fr_AlwaysInBits fr) \<union> covers (cs_Bits sol)" "bits_of b \<subseteq> {..<length fees}"
    by (rule consensus_result) iprover
  from ensemble_majority [OF assms(1,2) e] b show ?thesis by simp
qed

theorem consensus_majority_witness:
  "50 < supp_weight sample_votes (bits_of \<lparr>bv_Length = 3, bv_BitVector = 4\<rparr>)"
proof -
  have "votes_nowrap sample_votes" by (simp add: votes_nowrap_def)
  moreover have "\<forall>f\<in>set [5, 7, 9 :: int]. 0 \<le> f" by simp
  moreover have "EnsembleConsensusBitVote sample_votes [5, 7, 9] 100 1000 = Inr \<lparr>bv_Length = 3, bv_BitVector = 4\<rparr>"
    by code_simp
  ultimately have "unat (100 :: u16) div 2 < supp_weight sample_votes (bits_of \<lparr>bv_Length = 3, bv_BitVector = 4\<rparr>)"
    by (blast dest: consensus_majority)
  then show ?thesis by simp
qed

text \<open>
  C2. Optimality of the consensus: a solution that the code marks optimal has, with the bits the filter has
  already fixed, a value at least that of every set of attestations supported by more than half of the
  total weight.
\<close>

theorem consensus_optimal:
  assumes "votes_nowrap votes" "\<forall>f\<in>set fees. 0 \<le> f" "ensemble votes fees T m = Inr (fr, sol)" "cs_Optimal sol"
    and "S \<subseteq> {..<length fees}" "unat T div 2 < supp_weight votes S"
  shows "set_value votes fees T S \<le> set_value votes fees T (bits_of (AssembleSolution fr sol n))"
  unfolding bits_of_AssembleSolution by (rule ensemble_optimal [OF assms])

theorem consensus_optimal_witness:
  "set_value sample_votes [5, 7, 9] 100 {0} \<le> set_value sample_votes [5, 7, 9] 100 (bits_of \<lparr>bv_Length = 3, bv_BitVector = 4\<rparr>)"
proof -
  obtain fr sol where e: "ensemble sample_votes [5, 7, 9] 100 1000 = Inr (fr, sol)" "cs_Optimal sol"
    "AssembleSolution fr sol 3 = \<lparr>bv_Length = 3, bv_BitVector = 4\<rparr>"
  proof -
    have "case ensemble sample_votes [5, 7, 9] 100 1000 of Inl _ \<Rightarrow> False
      | Inr (fr, sol) \<Rightarrow> cs_Optimal sol \<and> AssembleSolution fr sol 3 = \<lparr>bv_Length = 3, bv_BitVector = 4\<rparr>"
      by code_simp
    then show thesis using that by (auto split: sum.splits)
  qed
  have "votes_nowrap sample_votes" by (simp add: votes_nowrap_def)
  moreover have "\<forall>f\<in>set [5, 7, 9 :: int]. 0 \<le> f" by simp
  moreover have "unat (100 :: u16) div 2 < supp_weight sample_votes {0}" by code_simp
  ultimately have "set_value sample_votes [5, 7, 9] 100 {0} \<le>
      set_value sample_votes [5, 7, 9] 100 (bits_of (AssembleSolution fr sol 3))"
    by (intro consensus_optimal [OF _ _ e(1,2)]) simp_all
  then show ?thesis by (simp only: e(3))
qed

text \<open>
  C19. Enough operations: with a limit of at least \<open>ensemble_budget\<close> (about \<open>2^(min n k + 1)\<close> calls for \<open>n\<close> votes
  and \<open>k\<close> attestations) neither search is cut off, and the consensus bit vote is the best one without any
  condition on what the code reports.
\<close>

theorem consensus_enough_operations:
  assumes "votes_nowrap votes" "\<forall>f\<in>set fees. 0 \<le> f" "EnsembleConsensusBitVote votes fees T m = Inr b"
    and "ensemble_budget (length votes) (length fees) \<le> m"
    and "S \<subseteq> {..<length fees}" "unat T div 2 < supp_weight votes S"
  shows "set_value votes fees T S \<le> set_value votes fees T (bits_of b)"
proof -
  from assms(1-3) obtain fr sol where e: "ensemble votes fees T m = Inr (fr, sol)"
    and b: "bits_of b = set (fr_AlwaysInBits fr) \<union> covers (cs_Bits sol)"
    by (rule consensus_result) iprover
  show ?thesis unfolding b by (rule ensemble_enough [OF assms(1,2) e assms(4-6)])
qed

theorem consensus_enough_operations_witness:
  "set_value sample_votes [5, 7, 9] 100 {1} \<le> set_value sample_votes [5, 7, 9] 100 (bits_of \<lparr>bv_Length = 3, bv_BitVector = 4\<rparr>)"
proof -
  have "votes_nowrap sample_votes" by (simp add: votes_nowrap_def)
  moreover have "\<forall>f\<in>set [5, 7, 9 :: int]. 0 \<le> f" by simp
  moreover have "EnsembleConsensusBitVote sample_votes [5, 7, 9] 100 1000 = Inr \<lparr>bv_Length = 3, bv_BitVector = 4\<rparr>"
    by code_simp
  moreover have "ensemble_budget (length sample_votes) (length [5, 7, 9 :: int]) \<le> 1000"
    by (simp add: ensemble_budget_def tree_budget_def)
  moreover have "{1} \<subseteq> {..<length [5, 7, 9 :: int]}" by simp
  moreover have "unat (100 :: u16) div 2 < supp_weight sample_votes {1}" by code_simp
  ultimately show ?thesis by (rule consensus_enough_operations)
qed

text \<open>
  C20. The consensus fails exactly when the weight that voted is not more than half of the total weight.
\<close>

theorem consensus_error:
  assumes "votes_nowrap votes"
  shows "(\<exists>e. EnsembleConsensusBitVote votes fees T m = Inl e) \<longleftrightarrow>
    weight_of (\<lambda>_. True) wbv_Weight votes \<le> unat T div 2"
  unfolding ensemble_error_iff [OF assms, of fees T m, symmetric]
  by (auto simp: EnsembleConsensusBitVote_def split: sum.splits prod.splits)

theorem consensus_error_witness:
  "\<exists>e. EnsembleConsensusBitVote [sample_vote 30 3, sample_vote 20 3] [5, 7, 9] 100 1000 = Inl e"
proof -
  have "votes_nowrap [sample_vote 30 3, sample_vote 20 3]" by (simp add: votes_nowrap_def)
  then show ?thesis by (simp add: consensus_error)
qed

text \<open>
  The search on bits and the search on votes are interchangeable: where both report an optimal
  solution of the reduced problem, the two solutions have the same value.
\<close>

lemma searches_agree:
  assumes "problem_ok votes bits aw wv T af"
    and "cs_Optimal (BranchAndBoundBitsDouble votes bits aw wv T af m bound)"
    and "cs_Optimal (BranchAndBoundVotesDouble votes bits aw wv T af m' bound')"
  shows "cs_Value (BranchAndBoundBitsDouble votes bits aw wv T af m bound) =
    cs_Value (BranchAndBoundVotesDouble votes bits aw wv T af m' bound')"
proof -
  let ?v = "BranchAndBoundVotesDouble votes bits aw wv T af m' bound'"
  have "\<not> (\<exists>vs. ?v = empty_answer vs)" using assms(3) by (auto simp: empty_answer_def)
  then show ?thesis
    using votesSolver.solve_sound [OF assms(1), of m' bound'] votesSolver.solve_optimal [OF assms(1,3)]
    by (intro bitsSolver.optimal_value [OF assms(1,2)]) (auto simp: sound_answer_def)
qed

end
