(* ===== verification/Round.thy ===== *)
theory Round
  imports Attestation Ensemble
begin

text \<open>
  \<^verbatim>\<open>client/round/round.go\<close>: one voting round. Attestations are objects that the round, its request map and
  the verifier queues share, so they live in a heap and are named by addresses; a round's status is a
  cell of the same heap. Weighted bit votes are only ever appended and overwritten in place, so a
  pointer to one is its position in \<^verbatim>\<open>bitVotes\<close>.

  The round's \<^verbatim>\<open>RWMutex\<close> is the number of read locks left behind by calls that have returned: an operation
  that takes the write lock while there is one never gets it. Such an operation is \<open>None\<close>, "blocks
  forever". \<^verbatim>\<open>merkle.Build\<close> and \<^verbatim>\<open>Keccak256\<close> are parameters, and the voter set is what the code reads of
  \<^verbatim>\<open>voters.Set\<close>.

  Shown here: adding attestations refines a map from requests to fee and positions, in which the order
  of additions does not matter; the stored bit vote of a sender is its latest valid one; the votes of a
  round never weigh more than its voters, which discharges the no-overflow hypothesis of the consensus
  theorems; the consensus flags are the bits of the consensus bit vote; the Merkle tree is built from
  the hashes of exactly the chosen attestations, all of them confirmed; and \<^verbatim>\<open>MerkleTreeCached\<close> leaves a
  read lock behind when the tree is cached, after which the writing operations block.
\<close>

type_synonym address = bytes

record VoterData =
  vd_Index :: int
  vd_Weight :: u16

record VoterSet =
  vs_TotalWeight :: u16
  vs_SubmitToSigningAddress :: "address \<rightharpoonup> address"
  vs_VoterDataMap :: "address \<rightharpoonup> VoterData"

record 'arg heap =
  h_atts :: "nat \<Rightarrow> 'arg Attestation"
  h_status :: "nat \<Rightarrow> RoundStatus"

record Round =
  r_ID :: u32
  r_Status :: nat
  r_Attestations :: "nat list"
  r_attestationMap :: "bytes \<rightharpoonup> nat"
  r_bitVotes :: "WeightedBitVote list"
  r_bitVoteCheckList :: "address \<rightharpoonup> nat"
  r_ConsensusCalculationFinished :: bool
  r_ConsensusBitVote :: "BitVote option"
  r_voterSet :: VoterSet
  r_merkleTree :: "bytes list"
  r_readLocks :: nat

definition BitVoteMaxNoOfOperations :: int where
  "BitVoteMaxNoOfOperations = 20000000"

text \<open>\<^verbatim>\<open>New\<close>: the status cell at address \<open>cell\<close> is the freshly allocated one.\<close>

definition Round_New :: "'arg heap \<Rightarrow> nat \<Rightarrow> u32 \<Rightarrow> VoterSet \<Rightarrow> 'arg heap \<times> Round" where
  "Round_New h cell ident voterSet =
     (h\<lparr>h_status := (h_status h)(cell := PreConsensus)\<rparr>,
      \<lparr>r_ID = ident, r_Status = cell, r_Attestations = [], r_attestationMap = Map.empty, r_bitVotes = [],
       r_bitVoteCheckList = Map.empty, r_ConsensusCalculationFinished = False, r_ConsensusBitVote = None,
       r_voterSet = voterSet, r_merkleTree = [], r_readLocks = 0\<rparr>)"

definition with_Lock :: "Round \<Rightarrow> 'a \<Rightarrow> 'a option" where
  "with_Lock r result = (if r_readLocks r = 0 then Some result else None)"

text \<open>\<^verbatim>\<open>Index\<close> with the value after its (unreachable) panic.\<close>

definition index_of :: "'arg Attestation \<Rightarrow> IndexLog" where
  "index_of a = (case Index a of Some i \<Rightarrow> i | None \<Rightarrow> \<lparr>il_BlockNumber = -1, il_LogIndex = -1\<rparr>)"

definition AddAttestation :: "(bytes \<Rightarrow> bytes) \<Rightarrow> 'arg heap \<Rightarrow> Round \<Rightarrow> nat \<Rightarrow> ('arg heap \<times> Round \<times> bool) option" where
  "AddAttestation Keccak256Hash h r attToAdd = with_Lock r
     (let new = h_atts h attToAdd;
          identifier = Keccak256Hash (at_Request new)
      in case r_attestationMap r identifier of
           Some addr \<Rightarrow>
             (let att = h_atts h addr;
                  att = att\<lparr>at_Fee := at_Fee att + at_Fee new\<rparr>;
                  att = (if EarlierLog (index_of new) (index_of att)
                         then att\<lparr>at_Indexes := Prepend (at_Indexes att) (index_of new)\<rparr>
                         else att\<lparr>at_Indexes := at_Indexes att @ [index_of new]\<rparr>)
              in (h\<lparr>h_atts := (h_atts h)(addr := att)\<rparr>, r, False))
         | None \<Rightarrow>
             (h\<lparr>h_atts := (h_atts h)(attToAdd := new\<lparr>at_RoundStatus := RoundStatusOf (r_Status r)\<rparr>)\<rparr>,
              r\<lparr>r_attestationMap := (r_attestationMap r)(identifier \<mapsto> attToAdd),
                r_Attestations := r_Attestations r @ [attToAdd]\<rparr>,
              True))"

definition sortAttestations :: "'arg heap \<Rightarrow> Round \<Rightarrow> Round" where
  "sortAttestations h r =
     r\<lparr>r_Attestations := sort_Slice (\<lambda>i j. EarlierLog (index_of (h_atts h i)) (index_of (h_atts h j))) (r_Attestations r)\<rparr>"

definition Round_BitVote :: "'arg heap \<Rightarrow> Round \<Rightarrow> (Round \<times> (TooMany + BitVote)) option" where
  "Round_BitVote h r = with_Lock r
     (let r = sortAttestations h r in (r, BitVoteFromAttestations (map (h_atts h) (r_Attestations r))))"

definition BitVoteBytes :: "'arg heap \<Rightarrow> Round \<Rightarrow> (Round \<times> (TooMany + bytes)) option" where
  "BitVoteBytes h r =
     (case Round_BitVote h r of
        None \<Rightarrow> None
      | Some (r, Inl err) \<Rightarrow> Some (r, Inl err)
      | Some (r, Inr bitVote) \<Rightarrow> Some (r, Inr (EncodeBitVote bitVote)))"

datatype RoundError =
  ConsensusFailed ConsensusError | BitVectorTooLong u32 | NotConfirmed nat | TreeError
| BadPayload BitVoteError | WrongBitCount u16 nat | VoteVectorTooLong | NoSigningAddress | InvalidVoter | ZeroWeight

fun setConsensus_loop :: "int \<Rightarrow> nat \<Rightarrow> nat list \<Rightarrow> (nat \<Rightarrow> 'arg Attestation) \<Rightarrow> (nat \<Rightarrow> 'arg Attestation)" where
  "setConsensus_loop bitVector i [] atts = atts"
| "setConsensus_loop bitVector i (a # as) atts =
     setConsensus_loop bitVector (Suc i) as (atts(a := (atts a)\<lparr>at_Consensus := bit bitVector i\<rparr>))"

definition setConsensusStatus :: "'arg heap \<Rightarrow> Round \<Rightarrow> BitVote \<Rightarrow> 'arg heap \<times> RoundError option" where
  "setConsensusStatus h r consensusBitVote =
     (if length (r_Attestations r) < big_BitLen (bv_BitVector consensusBitVote) then (h, Some (BitVectorTooLong (r_ID r)))
      else (h\<lparr>h_atts := setConsensus_loop (bv_BitVector consensusBitVote) 0 (r_Attestations r) (h_atts h)\<rparr>, None))"

definition ComputeConsensusBitVote :: "'arg heap \<Rightarrow> Round \<Rightarrow> ('arg heap \<times> Round \<times> RoundError option) option" where
  "ComputeConsensusBitVote h r = with_Lock r
     (let r = sortAttestations h r;
          fees = map (\<lambda>a. at_Fee (h_atts h a)) (r_Attestations r)
      in case EnsembleConsensusBitVote (r_bitVotes r) fees (vs_TotalWeight (r_voterSet r)) BitVoteMaxNoOfOperations of
           Inl err \<Rightarrow> (h, r\<lparr>r_ConsensusCalculationFinished := True\<rparr>, Some (ConsensusFailed err))
         | Inr consensus \<Rightarrow>
             (let r = r\<lparr>r_ConsensusBitVote := Some consensus\<rparr>;
                  h = h\<lparr>h_status := (h_status h)(r_Status r := Consensus)\<rparr>;
                  (h, err) = setConsensusStatus h r consensus
              in (h, r\<lparr>r_ConsensusCalculationFinished := True\<rparr>, err)))"

definition GetConsensusBitVote :: "Round \<Rightarrow> BitVote option \<times> bool \<times> bool" where
  "GetConsensusBitVote r =
     (case r_ConsensusBitVote r of
        None \<Rightarrow> (None, False, r_ConsensusCalculationFinished r)
      | Some b \<Rightarrow> (Some b, True, r_ConsensusCalculationFinished r))"

fun merkleTree_loop :: "nat \<Rightarrow> 'arg Attestation list \<Rightarrow> bytes list \<Rightarrow> RoundError + bytes list" where
  "merkleTree_loop i [] hashes = Inr hashes"
| "merkleTree_loop i (a # as) hashes =
     (if at_Consensus a then
        if at_Status a \<noteq> Success then Inl (NotConfirmed i)
        else merkleTree_loop (Suc i) as (hashes @ [at_Hash a])
      else merkleTree_loop (Suc i) as hashes)"

definition MerkleTree ::
  "(bytes list \<Rightarrow> bytes list) \<Rightarrow> 'arg heap \<Rightarrow> Round \<Rightarrow> ('arg heap \<times> Round \<times> (RoundError + bytes list)) option" where
  "MerkleTree Build h r = with_Lock r
     (case merkleTree_loop 0 (map (h_atts h) (r_Attestations r)) [] of
        Inl err \<Rightarrow> (h, r, Inl err)
      | Inr hashes \<Rightarrow>
          (let merkleTree = Build hashes in
           (h\<lparr>h_status := (h_status h)(r_Status r := Done)\<rparr>, r\<lparr>r_merkleTree := merkleTree\<rparr>, Inr merkleTree)))"

text \<open>The early return keeps the read lock it took.\<close>

definition MerkleTreeCached ::
  "(bytes list \<Rightarrow> bytes list) \<Rightarrow> 'arg heap \<Rightarrow> Round \<Rightarrow> ('arg heap \<times> Round \<times> (RoundError + bytes list)) option" where
  "MerkleTreeCached Build h r =
     (let r = r\<lparr>r_readLocks := r_readLocks r + 1\<rparr> in
      if length (r_merkleTree r) \<noteq> 0 then Some (h, r, Inr (r_merkleTree r))
      else let r = r\<lparr>r_readLocks := r_readLocks r - 1\<rparr> in MerkleTree Build h r)"

definition MerkleRoot ::
  "(bytes list \<Rightarrow> bytes list) \<Rightarrow> (bytes list \<Rightarrow> bytes option) \<Rightarrow> 'arg heap \<Rightarrow> Round \<Rightarrow>
   ('arg heap \<times> Round \<times> (RoundError + bytes)) option" where
  "MerkleRoot Build Root h r =
     (case MerkleTreeCached Build h r of
        None \<Rightarrow> None
      | Some (h, r, Inl err) \<Rightarrow> Some (h, r, Inl err)
      | Some (h, r, Inr tree) \<Rightarrow>
          Some (h, r, case Root tree of None \<Rightarrow> Inl TreeError | Some root \<Rightarrow> Inr root))"

record Message =
  msg_From :: address
  msg_VotingRound :: u32
  msg_Timestamp :: u64
  msg_BlockNumber :: u64
  msg_TransactionIndex :: u64
  msg_Payload :: bytes

abbreviation msg_tx :: "Message \<Rightarrow> IndexTx" where
  "msg_tx m \<equiv> \<lparr>tx_BlockNumber = msg_BlockNumber m, tx_TransactionIndex = msg_TransactionIndex m\<rparr>"

definition ProcessBitVote :: "Round \<Rightarrow> Message \<Rightarrow> Round \<times> RoundError option" where
  "ProcessBitVote r message =
     (case DecodeBitVoteBytes (msg_Payload message) of
        Inl err \<Rightarrow> (r, Some (BadPayload err))
      | Inr bitVote \<Rightarrow>
          if unat (bv_Length bitVote) \<noteq> length (r_Attestations r) then
            (r, Some (WrongBitCount (bv_Length bitVote) (length (r_Attestations r))))
          else if length (r_Attestations r) < big_BitLen (bv_BitVector bitVote) then (r, Some VoteVectorTooLong)
          else case vs_SubmitToSigningAddress (r_voterSet r) (msg_From message) of
            None \<Rightarrow> (r, Some NoSigningAddress)
          | Some signingAddress \<Rightarrow>
              (case vs_VoterDataMap (r_voterSet r) signingAddress of
                 None \<Rightarrow> (r, Some InvalidVoter)
               | Some voter \<Rightarrow>
                   let weight = vd_Weight voter in
                   if weight \<le> 0 then (r, Some ZeroWeight)
                   else let vote = \<lparr>wbv_Index = vd_Index voter, wbv_IndexTx = msg_tx message, wbv_Weight = weight,
                                    wbv_BitVote = bitVote\<rparr>
                        in case r_bitVoteCheckList r (msg_From message) of
                             None \<Rightarrow>
                               (r\<lparr>r_bitVotes := r_bitVotes r @ [vote],
                                  r_bitVoteCheckList := (r_bitVoteCheckList r)(msg_From message \<mapsto> length (r_bitVotes r))\<rparr>,
                                None)
                           | Some p \<Rightarrow>
                               if EarlierTx (wbv_IndexTx (r_bitVotes r ! p)) (msg_tx message)
                               then (r\<lparr>r_bitVotes := (r_bitVotes r)[p := vote]\<rparr>, None)
                               else (r, None)))"


section \<open>The attestations of a round\<close>

lemma with_Lock_Some [simp]: "with_Lock r x = Some y \<longleftrightarrow> r_readLocks r = 0 \<and> x = y"
  by (simp add: with_Lock_def)

text \<open>
  The request map and the list hold the same attestations, each under its own identifier; each has a
  position, the earliest first, and points to the round's status cell.
\<close>

definition earliest_first :: "IndexLog list \<Rightarrow> bool" where
  "earliest_first is \<longleftrightarrow> is \<noteq> [] \<and> (\<forall>i\<in>set is. \<not> EarlierLog i (hd is))"

definition round_atts_ok :: "(bytes \<Rightarrow> bytes) \<Rightarrow> 'arg heap \<Rightarrow> Round \<Rightarrow> bool" where
  "round_atts_ok K h r \<longleftrightarrow>
     distinct (r_Attestations r) \<and>
     (\<forall>k a. r_attestationMap r k = Some a \<longleftrightarrow> a \<in> set (r_Attestations r) \<and> K (at_Request (h_atts h a)) = k) \<and>
     (\<forall>a\<in>set (r_Attestations r). earliest_first (at_Indexes (h_atts h a)) \<and>
        at_RoundStatus (h_atts h a) = RoundStatusOf (r_Status r))"

lemma index_of_hd: "at_Indexes a \<noteq> [] \<Longrightarrow> index_of a = hd (at_Indexes a)"
  by (simp add: index_of_def Index_def hd_conv_nth)

lemma index_of_fee [simp]: "index_of (a\<lparr>at_Fee := f\<rparr>) = index_of a"
  by (simp add: index_of_def Index_def)

lemma earliest_first_Prepend:
  assumes "earliest_first is" "EarlierLog i (hd is)"
  shows "earliest_first (Prepend is i)"
proof -
  have "\<not> EarlierLog j i" if "j \<in> set is" for j
    using assms that EarlierLog_trans [of j i "hd is"] by (auto simp: earliest_first_def)
  moreover have "\<not> EarlierLog i i" by (simp add: EarlierLog_def)
  ultimately show ?thesis by (auto simp: earliest_first_def)
qed

lemma earliest_first_append:
  "earliest_first is \<Longrightarrow> \<not> EarlierLog i (hd is) \<Longrightarrow> earliest_first (is @ [i])"
  by (auto simp: earliest_first_def)

text \<open>The object that \<^verbatim>\<open>AddAttestation\<close> leaves behind when the request is already in the round.\<close>

definition merge_att :: "'arg Attestation \<Rightarrow> 'arg Attestation \<Rightarrow> 'arg Attestation" where
  "merge_att att new =
     att\<lparr>at_Fee := at_Fee att + at_Fee new,
         at_Indexes := (if EarlierLog (index_of new) (index_of att) then Prepend (at_Indexes att) (index_of new)
                        else at_Indexes att @ [index_of new])\<rparr>"

lemma merge_att_simps [simp]:
  "at_Request (merge_att a b) = at_Request a" "at_RoundStatus (merge_att a b) = at_RoundStatus a"
  "at_Fee (merge_att a b) = at_Fee a + at_Fee b"
  "mset (at_Indexes (merge_att a b)) = add_mset (index_of b) (mset (at_Indexes a))"
  by (simp_all add: merge_att_def)

lemma merge_att_earliest:
  assumes "earliest_first (at_Indexes a)"
  shows "earliest_first (at_Indexes (merge_att a b))"
proof -
  have "index_of a = hd (at_Indexes a)" using assms by (simp add: index_of_hd earliest_first_def)
  then show ?thesis
    using earliest_first_Prepend [OF assms] earliest_first_append [OF assms] by (simp add: merge_att_def)
qed

lemma round_map_iff:
  "round_atts_ok K h r \<Longrightarrow>
   r_attestationMap r k = Some a \<longleftrightarrow> a \<in> set (r_Attestations r) \<and> K (at_Request (h_atts h a)) = k"
  by (simp add: round_atts_ok_def)

lemma round_map_None:
  "round_atts_ok K h r \<Longrightarrow> r_attestationMap r k = None \<Longrightarrow> a \<in> set (r_Attestations r) \<Longrightarrow> K (at_Request (h_atts h a)) \<noteq> k"
  using round_map_iff [of K h r k a] by auto

lemma AddAttestation_cases:
  assumes "AddAttestation K h r n = Some (h', r', added)"
  obtains (new) "r_attestationMap r (K (at_Request (h_atts h n))) = None" "added"
      "h' = h\<lparr>h_atts := (h_atts h)(n := (h_atts h n)\<lparr>at_RoundStatus := RoundStatusOf (r_Status r)\<rparr>)\<rparr>"
      "r' = r\<lparr>r_attestationMap := (r_attestationMap r)(K (at_Request (h_atts h n)) \<mapsto> n),
              r_Attestations := r_Attestations r @ [n]\<rparr>"
    | (old) a where "r_attestationMap r (K (at_Request (h_atts h n))) = Some a" "\<not> added"
      "h' = h\<lparr>h_atts := (h_atts h)(a := merge_att (h_atts h a) (h_atts h n))\<rparr>" "r' = r"
proof (cases "r_attestationMap r (K (at_Request (h_atts h n)))")
  case None
  with assms new show thesis by (simp add: AddAttestation_def Let_def)
next
  case (Some a)
  have "AddAttestation K h r n =
      with_Lock r (h\<lparr>h_atts := (h_atts h)(a := merge_att (h_atts h a) (h_atts h n))\<rparr>, r, False)"
    unfolding AddAttestation_def Let_def Some merge_att_def option.case by (simp split: if_split)
  with assms old [OF Some] show thesis by simp
qed

lemma AddAttestation_ok [wf_keep]:
  assumes ok: "round_atts_ok K h r" and n: "n \<notin> set (r_Attestations r)" "earliest_first (at_Indexes (h_atts h n))"
    and add: "AddAttestation K h r n = Some (h', r', added)"
  shows "round_atts_ok K h' r'"
  using add
proof (cases rule: AddAttestation_cases)
  case new
  note none = round_map_None [OF ok new(1)]
  have "r_attestationMap r' k = Some a \<longleftrightarrow> a \<in> set (r_Attestations r') \<and> K (at_Request (h_atts h' a)) = k" for k a
    using round_map_iff [OF ok, of k a] none [of a] n(1) by (auto simp: new)
  moreover have "distinct (r_Attestations r')" using ok n(1) by (simp add: new round_atts_ok_def)
  ultimately show ?thesis using ok n unfolding round_atts_ok_def by (auto simp: new)
next
  case (old a)
  have a: "a \<in> set (r_Attestations r)" using round_map_iff [OF ok] old(1) by simp
  have req: "at_Request (h_atts h' b) = at_Request (h_atts h b)" for b by (simp add: old)
  have "earliest_first (at_Indexes (h_atts h' b)) \<and> at_RoundStatus (h_atts h' b) = RoundStatusOf (r_Status r)"
    if "b \<in> set (r_Attestations r)" for b
    using that a ok by (simp add: old round_atts_ok_def merge_att_earliest)
  then show ?thesis using ok unfolding round_atts_ok_def old(4) req by simp
qed

section \<open>Refinement: requests with their fees and positions\<close>

type_synonym request_map = "bytes \<rightharpoonup> int \<times> IndexLog multiset"

definition round_abs :: "'arg heap \<Rightarrow> Round \<Rightarrow> request_map" where
  "round_abs h r k = map_option (\<lambda>a. (at_Fee (h_atts h a), mset (at_Indexes (h_atts h a)))) (r_attestationMap r k)"

definition spec_add :: "bytes \<Rightarrow> int \<Rightarrow> IndexLog \<Rightarrow> request_map \<Rightarrow> request_map" where
  "spec_add k fee i m = m(k \<mapsto> (case m k of None \<Rightarrow> (fee, {#i#}) | Some (f, is) \<Rightarrow> (f + fee, add_mset i is)))"

lemma spec_add_commute: "spec_add k f i (spec_add k' f' i' m) = spec_add k' f' i' (spec_add k f i m)"
  by (auto simp: spec_add_def fun_eq_iff add_mset_commute split: option.splits)

lemma AddAttestation_refines:
  assumes ok: "round_atts_ok K h r" and n: "n \<notin> set (r_Attestations r)" "at_Indexes (h_atts h n) = [i]"
    and add: "AddAttestation K h r n = Some (h', r', added)"
  shows "round_abs h' r' = spec_add (K (at_Request (h_atts h n))) (at_Fee (h_atts h n)) i (round_abs h r)"
  using add
proof (cases rule: AddAttestation_cases)
  case new
  have ne: "k \<noteq> n" if "r_attestationMap r x = Some k" for x k using that round_map_iff [OF ok] n(1) by auto
  show ?thesis
  proof
    fix x
    show "round_abs h' r' x = spec_add (K (at_Request (h_atts h n))) (at_Fee (h_atts h n)) i (round_abs h r) x"
      using ne [of x] n(2) new(1) by (cases "r_attestationMap r x") (auto simp: round_abs_def spec_add_def new(3,4))
  qed
next
  case (old a)
  have own: "x = K (at_Request (h_atts h n))" if "r_attestationMap r x = Some a" for x
    using that old(1) round_map_iff [OF ok] by simp
  have idx: "index_of (h_atts h n) = i" using n(2) by (simp add: index_of_hd)
  show ?thesis
  proof
    fix x
    show "round_abs h' r' x = spec_add (K (at_Request (h_atts h n))) (at_Fee (h_atts h n)) i (round_abs h r) x"
      using own [of x] old(1) idx by (cases "r_attestationMap r x") (auto simp: round_abs_def spec_add_def old(3,4))
  qed
qed


section \<open>The bit votes of a round\<close>

text \<open>The checks of \<^verbatim>\<open>ProcessBitVote\<close> and the vote it would store.\<close>

definition vote_of :: "Round \<Rightarrow> Message \<Rightarrow> RoundError + WeightedBitVote" where
  "vote_of r m =
     (case DecodeBitVoteBytes (msg_Payload m) of
        Inl err \<Rightarrow> Inl (BadPayload err)
      | Inr bitVote \<Rightarrow>
          if unat (bv_Length bitVote) \<noteq> length (r_Attestations r) then
            Inl (WrongBitCount (bv_Length bitVote) (length (r_Attestations r)))
          else if length (r_Attestations r) < big_BitLen (bv_BitVector bitVote) then Inl VoteVectorTooLong
          else case vs_SubmitToSigningAddress (r_voterSet r) (msg_From m) of
            None \<Rightarrow> Inl NoSigningAddress
          | Some signingAddress \<Rightarrow>
              (case vs_VoterDataMap (r_voterSet r) signingAddress of
                 None \<Rightarrow> Inl InvalidVoter
               | Some voter \<Rightarrow>
                   if vd_Weight voter \<le> 0 then Inl ZeroWeight
                   else Inr \<lparr>wbv_Index = vd_Index voter, wbv_IndexTx = msg_tx m, wbv_Weight = vd_Weight voter,
                             wbv_BitVote = bitVote\<rparr>))"

definition store_vote :: "Round \<Rightarrow> address \<Rightarrow> WeightedBitVote \<Rightarrow> Round" where
  "store_vote r ad v =
     (case r_bitVoteCheckList r ad of
        None \<Rightarrow> r\<lparr>r_bitVotes := r_bitVotes r @ [v], r_bitVoteCheckList := (r_bitVoteCheckList r)(ad \<mapsto> length (r_bitVotes r))\<rparr>
      | Some p \<Rightarrow>
          if EarlierTx (wbv_IndexTx (r_bitVotes r ! p)) (wbv_IndexTx v) then r\<lparr>r_bitVotes := (r_bitVotes r)[p := v]\<rparr> else r)"

lemma ProcessBitVote_vote_of:
  "ProcessBitVote r m =
     (case vote_of r m of Inl err \<Rightarrow> (r, Some err) | Inr v \<Rightarrow> (store_vote r (msg_From m) v, None))"
  by (auto simp: ProcessBitVote_def vote_of_def store_vote_def Let_def split: sum.splits option.splits)

lemma vote_of_Inr:
  assumes "vote_of r m = Inr v"
  shows "wf_BitVote (wbv_BitVote v)" "unat (bv_Length (wbv_BitVote v)) = length (r_Attestations r)"
    "wbv_Weight v \<noteq> 0" "wbv_IndexTx v = msg_tx m"
    "\<exists>sa vd. vs_SubmitToSigningAddress (r_voterSet r) (msg_From m) = Some sa \<and>
       vs_VoterDataMap (r_voterSet r) sa = Some vd \<and> wbv_Weight v = vd_Weight vd"
  using assms
  by (auto simp: vote_of_def Decode_wf split: sum.splits option.splits if_splits)

lemma store_vote_frame [frame]:
  "r_Attestations (store_vote r ad v) = r_Attestations r" "r_voterSet (store_vote r ad v) = r_voterSet r"
  by (auto simp: store_vote_def split: option.splits)

lemma ProcessBitVote_frame [frame]:
  "r_Attestations (fst (ProcessBitVote r m)) = r_Attestations r"
  "r_voterSet (fst (ProcessBitVote r m)) = r_voterSet r"
  by (auto simp: ProcessBitVote_vote_of frame split: sum.splits)

lemma vote_of_cong:
  "r_Attestations r' = r_Attestations r \<Longrightarrow> r_voterSet r' = r_voterSet r \<Longrightarrow> vote_of r' m = vote_of r m"
  unfolding vote_of_def by (auto split: sum.splits option.splits)

text \<open>
  Every stored vote belongs to one sender, the sender to a registered voter, and the vote carries that
  voter's non-zero weight and no bit beyond its length.
\<close>

definition voter_of :: "VoterSet \<Rightarrow> address \<Rightarrow> VoterData option" where
  "voter_of vs ad = (case vs_SubmitToSigningAddress vs ad of None \<Rightarrow> None | Some sa \<Rightarrow> vs_VoterDataMap vs sa)"

definition vote_ok :: "VoterSet \<Rightarrow> address \<Rightarrow> WeightedBitVote \<Rightarrow> bool" where
  "vote_ok vs ad v \<longleftrightarrow> wf_BitVote (wbv_BitVote v) \<and> wbv_Weight v \<noteq> 0 \<and>
     (\<exists>vd. voter_of vs ad = Some vd \<and> wbv_Weight v = vd_Weight vd)"

definition bitvotes_ok :: "Round \<Rightarrow> bool" where
  "bitvotes_ok r \<longleftrightarrow>
     (\<forall>ad p. r_bitVoteCheckList r ad = Some p \<longrightarrow> p < length (r_bitVotes r) \<and> vote_ok (r_voterSet r) ad (r_bitVotes r ! p)) \<and>
     (\<forall>ad ad' p. r_bitVoteCheckList r ad = Some p \<longrightarrow> r_bitVoteCheckList r ad' = Some p \<longrightarrow> ad = ad') \<and>
     (\<forall>p<length (r_bitVotes r). \<exists>ad. r_bitVoteCheckList r ad = Some p)"

lemma bitvotes_okD:
  assumes "bitvotes_ok r"
  shows "r_bitVoteCheckList r ad = Some p \<Longrightarrow> p < length (r_bitVotes r)"
    "r_bitVoteCheckList r ad = Some p \<Longrightarrow> vote_ok (r_voterSet r) ad (r_bitVotes r ! p)"
    "r_bitVoteCheckList r ad = Some p \<Longrightarrow> r_bitVoteCheckList r ad' = Some p \<Longrightarrow> ad = ad'"
    "p < length (r_bitVotes r) \<Longrightarrow> \<exists>ad. r_bitVoteCheckList r ad = Some p"
  using assms unfolding bitvotes_ok_def by blast+

lemma store_vote_ok [wf_keep]:
  assumes ok: "bitvotes_ok r" and v: "vote_ok (r_voterSet r) ad v"
  shows "bitvotes_ok (store_vote r ad v)"
proof (cases "r_bitVoteCheckList r ad")
  case None
  let ?n = "length (r_bitVotes r)"
  have store: "store_vote r ad v = r\<lparr>r_bitVotes := r_bitVotes r @ [v], r_bitVoteCheckList := (r_bitVoteCheckList r)(ad \<mapsto> ?n)\<rparr>"
    using None by (simp add: store_vote_def)
  have "p < Suc ?n \<and> vote_ok (r_voterSet r) a ((r_bitVotes r @ [v]) ! p)"
    if "((r_bitVoteCheckList r)(ad \<mapsto> ?n)) a = Some p" for a p
    using that v bitvotes_okD(1,2) [OF ok, of a p] by (auto simp: nth_append split: if_splits)
  moreover have "a = a'" if "((r_bitVoteCheckList r)(ad \<mapsto> ?n)) a = Some p" "((r_bitVoteCheckList r)(ad \<mapsto> ?n)) a' = Some p" for a a' p
    using that bitvotes_okD(1) [OF ok, of a p] bitvotes_okD(1) [OF ok, of a' p] bitvotes_okD(3) [OF ok, of a p a'] by (auto split: if_splits)
  moreover have "\<exists>a. ((r_bitVoteCheckList r)(ad \<mapsto> ?n)) a = Some p" if p: "p < Suc ?n" for p
  proof (cases "p = ?n")
    case True
    then show ?thesis by (intro exI [of _ ad]) simp
  next
    case False
    with p obtain a where "r_bitVoteCheckList r a = Some p" using bitvotes_okD(4) [OF ok, of p] by auto
    with None show ?thesis by (intro exI [of _ a]) auto
  qed
  moreover have "r_bitVotes (store_vote r ad v) = r_bitVotes r @ [v]"
    "r_bitVoteCheckList (store_vote r ad v) = (r_bitVoteCheckList r)(ad \<mapsto> ?n)" by (simp_all add: store)
  ultimately show ?thesis
    unfolding bitvotes_ok_def store_vote_frame(2) by (simp only: length_append_singleton) blast
next
  case (Some p)
  show ?thesis
  proof (cases "EarlierTx (wbv_IndexTx (r_bitVotes r ! p)) (wbv_IndexTx v)")
    case True
    with Some have store: "store_vote r ad v = r\<lparr>r_bitVotes := (r_bitVotes r)[p := v]\<rparr>" by (simp add: store_vote_def)
    have "q < length (r_bitVotes r) \<and> vote_ok (r_voterSet r) a ((r_bitVotes r)[p := v] ! q)"
      if "r_bitVoteCheckList r a = Some q" for a q
      using that v bitvotes_okD(1,2) [OF ok, of a q] bitvotes_okD(3) [OF ok Some, of a]
      by (cases "q = p") (auto simp: nth_list_update)
    then show ?thesis using bitvotes_okD(3,4) [OF ok] unfolding bitvotes_ok_def store by simp
  next
    case False
    with Some ok show ?thesis by (simp add: store_vote_def)
  qed
qed

lemma vote_of_ok: "vote_of r m = Inr v \<Longrightarrow> vote_ok (r_voterSet r) (msg_From m) v"
  using vote_of_Inr [of r m v] by (auto simp: vote_ok_def voter_of_def)

lemma ProcessBitVote_ok [wf_keep]: "bitvotes_ok r \<Longrightarrow> bitvotes_ok (fst (ProcessBitVote r m))"
  by (auto simp: ProcessBitVote_vote_of vote_of_ok intro: wf_keep split: sum.splits)

section \<open>The latest valid vote of a sender\<close>

definition stored :: "Round \<Rightarrow> address \<Rightarrow> WeightedBitVote option" where
  "stored r ad = map_option (\<lambda>p. r_bitVotes r ! p) (r_bitVoteCheckList r ad)"

definition later_vote :: "WeightedBitVote option \<Rightarrow> WeightedBitVote \<Rightarrow> WeightedBitVote" where
  "later_vote w v = (case w of None \<Rightarrow> v | Some w \<Rightarrow> if EarlierTx (wbv_IndexTx w) (wbv_IndexTx v) then v else w)"

lemma store_vote_stored:
  assumes ok: "bitvotes_ok r"
  shows "stored (store_vote r ad v) a = (if a = ad then Some (later_vote (stored r ad) v) else stored r a)"
proof (cases "r_bitVoteCheckList r ad")
  case None
  then show ?thesis
    using bitvotes_okD(1) [OF ok, of a]
    by (cases "r_bitVoteCheckList r a") (auto simp: store_vote_def stored_def later_vote_def nth_append)
next
  case (Some p)
  then show ?thesis
    using bitvotes_okD(1) [OF ok Some] bitvotes_okD(3) [OF ok Some, of a]
    by (cases "r_bitVoteCheckList r a") (auto simp: store_vote_def stored_def later_vote_def nth_list_update)
qed

definition ProcessBitVotes :: "Round \<Rightarrow> Message list \<Rightarrow> Round" where
  "ProcessBitVotes r ms = foldl (\<lambda>r m. fst (ProcessBitVote r m)) r ms"

lemma ProcessBitVotes_frame [frame]:
  "r_Attestations (ProcessBitVotes r ms) = r_Attestations r" "r_voterSet (ProcessBitVotes r ms) = r_voterSet r"
  unfolding ProcessBitVotes_def by (induction ms arbitrary: r) (auto simp: frame)

lemma ProcessBitVotes_ok: "bitvotes_ok r \<Longrightarrow> bitvotes_ok (ProcessBitVotes r ms)"
  unfolding ProcessBitVotes_def by (induction ms arbitrary: r) (auto intro: wf_keep)

definition valid_votes :: "Round \<Rightarrow> address \<Rightarrow> Message list \<Rightarrow> WeightedBitVote set" where
  "valid_votes r ad ms = {v. \<exists>m\<in>set ms. msg_From m = ad \<and> vote_of r m = Inr v}"

definition latest_in :: "WeightedBitVote option \<Rightarrow> WeightedBitVote set \<Rightarrow> bool" where
  "latest_in w V \<longleftrightarrow>
     (case w of None \<Rightarrow> V = {} | Some w \<Rightarrow> w \<in> V \<and> (\<forall>v\<in>V. \<not> EarlierTx (wbv_IndexTx w) (wbv_IndexTx v)))"

lemma latest_in_later:
  assumes "latest_in w V"
  shows "latest_in (Some (later_vote w v)) (insert v V)"
proof (cases w)
  case None
  with assms show ?thesis by (simp add: latest_in_def later_vote_def EarlierTx_def)
next
  case (Some x)
  have "\<not> EarlierTx (wbv_IndexTx v) (wbv_IndexTx u)" if "EarlierTx (wbv_IndexTx x) (wbv_IndexTx v)" "u \<in> V" for u
    using assms that Some tx.less_negtrans [of "wbv_IndexTx x" "wbv_IndexTx v" "wbv_IndexTx u"]
      tx.less_asym [of "wbv_IndexTx u" "wbv_IndexTx v"] by (auto simp: latest_in_def)
  moreover have "\<not> EarlierTx t t" for t by (simp add: EarlierTx_def)
  ultimately show ?thesis using assms Some by (auto simp: latest_in_def later_vote_def)
qed

lemma valid_votes_snoc:
  "valid_votes r ad (ms @ [m]) =
     (case vote_of r m of Inr v \<Rightarrow> if msg_From m = ad then insert v (valid_votes r ad ms) else valid_votes r ad ms
      | Inl _ \<Rightarrow> valid_votes r ad ms)"
  by (auto simp: valid_votes_def split: sum.splits)

lemma ProcessBitVotes_latest:
  assumes "bitvotes_ok r" "r_bitVoteCheckList r = Map.empty"
  shows "latest_in (stored (ProcessBitVotes r ms) ad) (valid_votes r ad ms)"
proof (induction ms rule: rev_induct)
  case Nil
  then show ?case using assms by (simp add: ProcessBitVotes_def stored_def latest_in_def valid_votes_def)
next
  case (snoc m ms)
  let ?r = "ProcessBitVotes r ms"
  have ok: "bitvotes_ok ?r" by (rule ProcessBitVotes_ok [OF assms(1)])
  have vo: "vote_of ?r m = vote_of r m" by (rule vote_of_cong) (simp_all add: frame)
  have step: "ProcessBitVotes r (ms @ [m]) = fst (ProcessBitVote ?r m)" by (simp add: ProcessBitVotes_def)
  show ?case
    unfolding step ProcessBitVote_vote_of vo valid_votes_snoc using snoc.IH
    by (cases "vote_of r m") (auto simp: store_vote_stored [OF ok] latest_in_later)
qed

text \<open>The latest vote is unique when different valid votes of a sender are at different positions.\<close>

definition positions_distinct :: "WeightedBitVote set \<Rightarrow> bool" where
  "positions_distinct V \<longleftrightarrow> (\<forall>v\<in>V. \<forall>w\<in>V. wbv_IndexTx v = wbv_IndexTx w \<longrightarrow> v = w)"

lemma latest_in_unique:
  assumes "latest_in w V" "latest_in w' V" "positions_distinct V"
  shows "w = w'"
  using assms EarlierTx_total by (cases w; cases w') (fastforce simp: latest_in_def positions_distinct_def)+

section \<open>The weight of the bit votes\<close>

text \<open>
  What the signing policy guarantees of a voter set: finitely many voters whose weights sum to the
  total weight, and different submit addresses for different voters.
\<close>

definition voter_set_ok :: "VoterSet \<Rightarrow> bool" where
  "voter_set_ok vs \<longleftrightarrow>
     finite (dom (vs_VoterDataMap vs)) \<and>
     (\<Sum>sa\<in>dom (vs_VoterDataMap vs). unat (vd_Weight (the (vs_VoterDataMap vs sa)))) = unat (vs_TotalWeight vs) \<and>
     inj_on (vs_SubmitToSigningAddress vs) (dom (vs_SubmitToSigningAddress vs))"

lemma bitvotes_weight:
  assumes ok: "bitvotes_ok r" and vs: "voter_set_ok (r_voterSet r)"
  shows "weight_of (\<lambda>_. True) wbv_Weight (r_bitVotes r) \<le> unat (vs_TotalWeight (r_voterSet r))"
proof -
  let ?vs = "r_voterSet r" and ?n = "length (r_bitVotes r)"
  let ?W = "\<lambda>sa. unat (vd_Weight (the (vs_VoterDataMap ?vs sa)))"
  have "\<exists>ad sa. r_bitVoteCheckList r ad = Some p \<and> vs_SubmitToSigningAddress ?vs ad = Some sa \<and>
      sa \<in> dom (vs_VoterDataMap ?vs) \<and> unat (wbv_Weight (r_bitVotes r ! p)) = ?W sa" if "p < ?n" for p
    using bitvotes_okD(4) [OF ok that] bitvotes_okD(2) [OF ok]
    by (fastforce simp: vote_ok_def voter_of_def split: option.splits)
  then obtain ad sa where f: "\<And>p. p < ?n \<Longrightarrow> r_bitVoteCheckList r (ad p) = Some p \<and>
      vs_SubmitToSigningAddress ?vs (ad p) = Some (sa p) \<and> sa p \<in> dom (vs_VoterDataMap ?vs) \<and>
      unat (wbv_Weight (r_bitVotes r ! p)) = ?W (sa p)"
    by metis
  have inj: "inj_on sa {..<?n}"
  proof (rule inj_onI)
    fix p q assume "p \<in> {..<?n}" "q \<in> {..<?n}" and sa: "sa p = sa q"
    then have p: "p < ?n" and q: "q < ?n" by simp_all
    have inj: "inj_on (vs_SubmitToSigningAddress ?vs) (dom (vs_SubmitToSigningAddress ?vs))" using vs by (simp add: voter_set_ok_def)
    note sp = f [OF p, THEN conjunct2, THEN conjunct1] and sq = f [OF q, THEN conjunct2, THEN conjunct1]
    have "ad p = ad q"
      by (rule inj_onD [OF inj _ domI [where m = "vs_SubmitToSigningAddress ?vs", OF sp]
            domI [where m = "vs_SubmitToSigningAddress ?vs", OF sq]]) (simp only: sp sq sa)
    then have "Some p = Some q" by (simp only: f [OF p, THEN conjunct1, symmetric] f [OF q, THEN conjunct1, symmetric])
    then show "p = q" by simp
  qed
  have "weight_of (\<lambda>_. True) wbv_Weight (r_bitVotes r) = (\<Sum>p<?n. unat (wbv_Weight (r_bitVotes r ! p)))"
    by (simp add: weight_of_def sum_list_sum_nth atLeast0LessThan)
  also have "\<dots> = (\<Sum>p<?n. ?W (sa p))" using f by (intro sum.cong) auto
  also have "\<dots> = (\<Sum>x\<in>sa ` {..<?n}. ?W x)" using inj by (simp add: sum.reindex)
  also have "\<dots> \<le> (\<Sum>x\<in>dom (vs_VoterDataMap ?vs). ?W x)"
    using vs f by (intro sum_mono2) (auto simp: voter_set_ok_def)
  also have "\<dots> = unat (vs_TotalWeight ?vs)" using vs by (simp add: voter_set_ok_def)
  finally show ?thesis .
qed

lemma bitvotes_nowrap: "bitvotes_ok r \<Longrightarrow> voter_set_ok (r_voterSet r) \<Longrightarrow> votes_nowrap (r_bitVotes r)"
  unfolding votes_nowrap_def by (rule le_less_trans [OF bitvotes_weight unat_u16_less])


section \<open>Order of the attestations\<close>

interpretation attOrder: less_order "\<lambda>i j. EarlierLog (index_of (h_atts h i)) (index_of (h_atts h j))" for h
  by unfold_locales (use logs.less_asym logs.less_negtrans in blast)+

lemma sortAttestations_mset [simp]: "mset (r_Attestations (sortAttestations h r)) = mset (r_Attestations r)"
  by (simp add: sortAttestations_def)

lemma sortAttestations_set [simp]:
  "set (r_Attestations (sortAttestations h r)) = set (r_Attestations r)"
  "length (r_Attestations (sortAttestations h r)) = length (r_Attestations r)"
  "distinct (r_Attestations (sortAttestations h r)) = distinct (r_Attestations r)"
  using sortAttestations_mset [of h r] by (metis set_mset_mset, metis size_mset, metis mset_eq_imp_distinct_iff)

lemma sortAttestations_frame [simp, frame]:
  "r_bitVotes (sortAttestations h r) = r_bitVotes r" "r_voterSet (sortAttestations h r) = r_voterSet r"
  "r_Status (sortAttestations h r) = r_Status r" "r_attestationMap (sortAttestations h r) = r_attestationMap r"
  "r_merkleTree (sortAttestations h r) = r_merkleTree r" "r_readLocks (sortAttestations h r) = r_readLocks r"
  by (simp_all add: sortAttestations_def)

lemma sortAttestations_unique:
  assumes "mset (r_Attestations r) = mset (r_Attestations r')"
    and "inj_on (\<lambda>a. index_of (h_atts h a)) (set (r_Attestations r))"
  shows "r_Attestations (sortAttestations h r) = r_Attestations (sortAttestations h r')"
  unfolding sortAttestations_def using assms EarlierLog_total
  by (auto intro!: attOrder.sort_Slice_unique dest: inj_onD)

lemma sortAttestations_sorted:
  "sorted_wrt (\<lambda>i j. \<not> EarlierLog (index_of (h_atts h j)) (index_of (h_atts h i))) (r_Attestations (sortAttestations h r))"
  unfolding sortAttestations_def using attOrder.sorted_sort_Slice [of h "r_Attestations r"] by simp

section \<open>The consensus flags\<close>

lemma setConsensus_loop_other: "a \<notin> set as \<Longrightarrow> setConsensus_loop bv i as atts a = atts a"
  by (induction bv i as atts rule: setConsensus_loop.induct) auto

lemma setConsensus_loop_nth:
  "distinct as \<Longrightarrow> k < length as \<Longrightarrow>
   setConsensus_loop bv i as atts (as ! k) = (atts (as ! k))\<lparr>at_Consensus := bit bv (i + k)\<rparr>"
proof (induction bv i as atts arbitrary: k rule: setConsensus_loop.induct)
  case (2 bv i a as atts)
  show ?case
  proof (cases k)
    case 0
    with 2 show ?thesis by (simp add: setConsensus_loop_other)
  next
    case (Suc j)
    with 2 have j: "distinct as" "j < length as" "as ! j \<noteq> a" by auto
    show ?thesis unfolding Suc setConsensus_loop.simps nth_Cons_Suc "2.IH" [OF j(1,2)] using j(3) by simp
  qed
qed simp

text \<open>
  The inputs of the consensus computation of a round whose voter set and fees are as the contracts
  guarantee.
\<close>

definition round_fees :: "'arg heap \<Rightarrow> Round \<Rightarrow> int list" where
  "round_fees h r = map (\<lambda>a. at_Fee (h_atts h a)) (r_Attestations r)"

definition round_ok :: "(bytes \<Rightarrow> bytes) \<Rightarrow> 'arg heap \<Rightarrow> Round \<Rightarrow> bool" where
  "round_ok K h r \<longleftrightarrow> round_atts_ok K h r \<and> bitvotes_ok r \<and> voter_set_ok (r_voterSet r) \<and>
     (\<forall>a\<in>set (r_Attestations r). 0 \<le> at_Fee (h_atts h a))"

lemma round_fees_nonneg: "round_ok K h r \<Longrightarrow> \<forall>f\<in>set (round_fees h (sortAttestations h r)). 0 \<le> f"
  by (auto simp: round_ok_def round_fees_def)

lemma ComputeConsensus_cases:
  assumes ok: "round_ok K h r" and res: "ComputeConsensusBitVote h r = Some (h', r', err)"
  defines "s \<equiv> sortAttestations h r"
  obtains (failed) e where "EnsembleConsensusBitVote (r_bitVotes r) (round_fees h s) (vs_TotalWeight (r_voterSet r)) BitVoteMaxNoOfOperations = Inl e"
      "err = Some (ConsensusFailed e)" "h' = h" "r' = s\<lparr>r_ConsensusCalculationFinished := True\<rparr>"
    | (computed) b where "EnsembleConsensusBitVote (r_bitVotes r) (round_fees h s) (vs_TotalWeight (r_voterSet r)) BitVoteMaxNoOfOperations = Inr b"
      "err = None" "r' = s\<lparr>r_ConsensusBitVote := Some b, r_ConsensusCalculationFinished := True\<rparr>"
      "h_status h' = (h_status h)(r_Status r := Consensus)"
      "h_atts h' = setConsensus_loop (bv_BitVector b) 0 (r_Attestations s) (h_atts h)"
proof -
  let ?cons = "EnsembleConsensusBitVote (r_bitVotes r) (round_fees h s) (vs_TotalWeight (r_voterSet r)) BitVoteMaxNoOfOperations"
  have s: "r_bitVotes s = r_bitVotes r" "r_voterSet s = r_voterSet r" "r_Status s = r_Status r" by (simp_all add: s_def)
  have fees: "map (\<lambda>a. at_Fee (h_atts h a)) (r_Attestations s) = round_fees h s" by (simp add: round_fees_def)
  show thesis
  proof (cases ?cons)
    case (Inl e)
    then have "ComputeConsensusBitVote h r =
        with_Lock r (h, s\<lparr>r_ConsensusCalculationFinished := True\<rparr>, Some (ConsensusFailed e))"
      unfolding ComputeConsensusBitVote_def s_def [symmetric] Let_def fees s by simp
    with res have "r' = s\<lparr>r_ConsensusCalculationFinished := True\<rparr>" "h' = h" "err = Some (ConsensusFailed e)" by simp_all
    with Inl failed show thesis by blast
  next
    case (Inr b)
    have "big_BitLen (bv_BitVector b) \<le> length (round_fees h s)"
      using Inr ok by (intro consensus_BitLen [of "r_bitVotes r"] bitvotes_nowrap)
        (auto simp: round_ok_def s_def round_fees_def)
    then have "big_BitLen (bv_BitVector b) \<le> length (r_Attestations s)" by (simp add: round_fees_def)
    with Inr have "ComputeConsensusBitVote h r =
        with_Lock r (h\<lparr>h_status := (h_status h)(r_Status r := Consensus),
            h_atts := setConsensus_loop (bv_BitVector b) 0 (r_Attestations s) (h_atts h)\<rparr>,
          s\<lparr>r_ConsensusBitVote := Some b, r_ConsensusCalculationFinished := True\<rparr>, None)"
      unfolding ComputeConsensusBitVote_def s_def [symmetric] Let_def fees s by (simp add: setConsensusStatus_def s(3))
    with res have "r' = s\<lparr>r_ConsensusBitVote := Some b, r_ConsensusCalculationFinished := True\<rparr>" "err = None"
      "h' = h\<lparr>h_status := (h_status h)(r_Status r := Consensus),
            h_atts := setConsensus_loop (bv_BitVector b) 0 (r_Attestations s) (h_atts h)\<rparr>" by simp_all
    with Inr computed show thesis by simp
  qed
qed

section \<open>The Merkle tree\<close>

lemma merkleTree_loop_Inr:
  "merkleTree_loop i as hs = Inr out \<longleftrightarrow>
     (\<forall>a\<in>set as. at_Consensus a \<longrightarrow> at_Status a = Success) \<and> out = hs @ map at_Hash (filter at_Consensus as)"
  by (induction i as hs rule: merkleTree_loop.induct) auto

lemma MerkleTree_Inr:
  assumes "MerkleTree Build h r = Some (h', r', Inr tree)"
  shows "tree = Build (map at_Hash (filter at_Consensus (map (h_atts h) (r_Attestations r))))"
    "\<forall>a\<in>set (r_Attestations r). at_Consensus (h_atts h a) \<longrightarrow> at_Status (h_atts h a) = Success"
    "h_status h' (r_Status r) = Done" "r_merkleTree r' = tree"
  using assms
  by (auto simp: MerkleTree_def Let_def merkleTree_loop_Inr split: sum.splits)


section \<open>What the operations leave unchanged\<close>

lemma Round_New_atts [simp]: "h_atts (fst (Round_New h c k vs)) = h_atts h"
  by (simp add: Round_New_def)

lemma round_atts_ok_fields:
  "r_Attestations r' = r_Attestations r \<Longrightarrow> r_attestationMap r' = r_attestationMap r \<Longrightarrow> r_Status r' = r_Status r \<Longrightarrow>
   round_atts_ok K h r' = round_atts_ok K h r"
  by (simp add: round_atts_ok_def)

lemma bitvotes_ok_fields:
  "r_bitVotes r' = r_bitVotes r \<Longrightarrow> r_bitVoteCheckList r' = r_bitVoteCheckList r \<Longrightarrow> r_voterSet r' = r_voterSet r \<Longrightarrow>
   bitvotes_ok r' = bitvotes_ok r"
  by (simp add: bitvotes_ok_def)

lemma ProcessBitVote_fields [frame]:
  "r_ID (fst (ProcessBitVote r m)) = r_ID r" "r_Status (fst (ProcessBitVote r m)) = r_Status r"
  "r_attestationMap (fst (ProcessBitVote r m)) = r_attestationMap r"
  by (auto simp: ProcessBitVote_vote_of store_vote_def split: sum.splits option.splits)

lemma AddAttestation_fields:
  assumes "AddAttestation K h r n = Some (h', r', added)"
  shows "r_ID r' = r_ID r" "r_Status r' = r_Status r" "r_bitVotes r' = r_bitVotes r"
    "r_bitVoteCheckList r' = r_bitVoteCheckList r" "r_voterSet r' = r_voterSet r"
    "set (r_Attestations r') \<subseteq> insert n (set (r_Attestations r))" "h_status h' = h_status h"
proof -
  from assms have "r_ID r' = r_ID r \<and> r_Status r' = r_Status r \<and> r_bitVotes r' = r_bitVotes r \<and>
    r_bitVoteCheckList r' = r_bitVoteCheckList r \<and> r_voterSet r' = r_voterSet r \<and>
    set (r_Attestations r') \<subseteq> insert n (set (r_Attestations r)) \<and> h_status h' = h_status h"
  proof (cases rule: AddAttestation_cases)
    case new
    show ?thesis unfolding new(3,4) by auto
  next
    case (old a)
    show ?thesis unfolding old(3,4) by auto
  qed
  then show "r_ID r' = r_ID r" "r_Status r' = r_Status r" "r_bitVotes r' = r_bitVotes r"
    "r_bitVoteCheckList r' = r_bitVoteCheckList r" "r_voterSet r' = r_voterSet r"
    "set (r_Attestations r') \<subseteq> insert n (set (r_Attestations r))" "h_status h' = h_status h" by blast+
qed

lemma AddAttestation_elsewhere:
  assumes "AddAttestation K h r n = Some (h', r', added)" "round_atts_ok K h r" "a \<noteq> n" "a \<notin> set (r_Attestations r)"
  shows "h_atts h' a = h_atts h a"
  using assms(1)
proof (cases rule: AddAttestation_cases)
  case new
  with assms(3) show ?thesis by simp
next
  case (old b)
  then have "b \<in> set (r_Attestations r)" using round_map_iff [OF assms(2)] by simp
  with old assms(4) show ?thesis by auto
qed

lemma setConsensus_loop_keeps: "\<exists>c. setConsensus_loop bv i as atts a = (atts a)\<lparr>at_Consensus := c\<rparr>"
proof (induction bv i as atts rule: setConsensus_loop.induct)
  case (1 bv i atts)
  show ?case by (intro exI [of _ "at_Consensus (atts a)"]) simp
next
  case (2 bv i b as atts)
  then obtain c where "setConsensus_loop bv (Suc i) as (atts(b := (atts b)\<lparr>at_Consensus := bit bv i\<rparr>)) a =
      ((atts(b := (atts b)\<lparr>at_Consensus := bit bv i\<rparr>)) a)\<lparr>at_Consensus := c\<rparr>" by blast
  then show ?case unfolding setConsensus_loop.simps by (intro exI [of _ c]) simp
qed

lemma setConsensusStatus_keeps: "\<exists>c. h_atts (fst (setConsensusStatus h r b)) a = (h_atts h a)\<lparr>at_Consensus := c\<rparr>"
proof (cases "length (r_Attestations r) < big_BitLen (bv_BitVector b)")
  case True
  then show ?thesis by (intro exI [of _ "at_Consensus (h_atts h a)"]) (simp add: setConsensusStatus_def)
next
  case False
  then show ?thesis using setConsensus_loop_keeps by (simp add: setConsensusStatus_def)
qed

lemma ComputeConsensus_outcome:
  assumes "ComputeConsensusBitVote h r = Some (h', r', err)"
  obtains b where "r' = (sortAttestations h r)\<lparr>r_ConsensusBitVote := b, r_ConsensusCalculationFinished := True\<rparr>"
    "\<And>a. \<exists>c. h_atts h' a = (h_atts h a)\<lparr>at_Consensus := c\<rparr>"
proof -
  define s where "s = sortAttestations h r"
  let ?cons = "EnsembleConsensusBitVote (r_bitVotes s) (map (\<lambda>a. at_Fee (h_atts h a)) (r_Attestations s)) (vs_TotalWeight (r_voterSet s)) BitVoteMaxNoOfOperations"
  note d = assms [unfolded ComputeConsensusBitVote_def s_def [symmetric] Let_def]
  show thesis
  proof (cases ?cons)
    case (Inl e)
    with d have r': "r' = s\<lparr>r_ConsensusCalculationFinished := True\<rparr>" and h': "h' = h" by simp_all
    have "\<exists>c. h_atts h' a = (h_atts h a)\<lparr>at_Consensus := c\<rparr>" for a
      unfolding h' by (intro exI [of _ "at_Consensus (h_atts h a)"]) simp
    with r' that [of "r_ConsensusBitVote s"] show thesis by (simp add: s_def)
  next
    case (Inr b)
    let ?h = "h\<lparr>h_status := (h_status h)(r_Status s := Consensus)\<rparr>" and ?s = "s\<lparr>r_ConsensusBitVote := Some b\<rparr>"
    from d Inr have h': "h' = fst (setConsensusStatus ?h ?s b)"
      and r': "r' = s\<lparr>r_ConsensusBitVote := Some b, r_ConsensusCalculationFinished := True\<rparr>"
      by (simp_all add: case_prod_beta)
    have "\<exists>c. h_atts h' a = (h_atts h a)\<lparr>at_Consensus := c\<rparr>" for a
      unfolding h' using setConsensusStatus_keeps [of ?h ?s b a] by simp
    with r' that [of "Some b"] show thesis by (simp add: s_def)
  qed
qed

lemma ComputeConsensus_fields:
  assumes "ComputeConsensusBitVote h r = Some (h', r', err)"
  shows "r_ID r' = r_ID r" "r_Status r' = r_Status r" "r_attestationMap r' = r_attestationMap r" "r_bitVotes r' = r_bitVotes r"
    "r_bitVoteCheckList r' = r_bitVoteCheckList r" "r_voterSet r' = r_voterSet r"
    "mset (r_Attestations r') = mset (r_Attestations r)"
    "\<exists>c. h_atts h' a = (h_atts h a)\<lparr>at_Consensus := c\<rparr>"
proof -
  from assms obtain b where r': "r' = (sortAttestations h r)\<lparr>r_ConsensusBitVote := b, r_ConsensusCalculationFinished := True\<rparr>"
    and a: "\<And>a. \<exists>c. h_atts h' a = (h_atts h a)\<lparr>at_Consensus := c\<rparr>"
    by (rule ComputeConsensus_outcome) iprover
  show "r_ID r' = r_ID r" "r_Status r' = r_Status r" "r_attestationMap r' = r_attestationMap r" "r_bitVotes r' = r_bitVotes r"
    "r_bitVoteCheckList r' = r_bitVoteCheckList r" "r_voterSet r' = r_voterSet r"
    "mset (r_Attestations r') = mset (r_Attestations r)"
    by (simp_all add: r' sortAttestations_def)
  show "\<exists>c. h_atts h' a = (h_atts h a)\<lparr>at_Consensus := c\<rparr>" by (rule a)
qed

section \<open>Many attestations\<close>

fun AddAttestations :: "(bytes \<Rightarrow> bytes) \<Rightarrow> 'arg heap \<Rightarrow> Round \<Rightarrow> nat list \<Rightarrow> ('arg heap \<times> Round) option" where
  "AddAttestations K h r [] = Some (h, r)"
| "AddAttestations K h r (n # ns) =
     (case AddAttestation K h r n of None \<Rightarrow> None | Some (h, r, _) \<Rightarrow> AddAttestations K h r ns)"

definition fresh_atts :: "'arg heap \<Rightarrow> Round \<Rightarrow> nat list \<Rightarrow> bool" where
  "fresh_atts h r ns \<longleftrightarrow> distinct ns \<and> (\<forall>n\<in>set ns. n \<notin> set (r_Attestations r) \<and> length (at_Indexes (h_atts h n)) = 1)"

definition spec_step :: "(bytes \<Rightarrow> bytes) \<Rightarrow> 'arg heap \<Rightarrow> nat \<Rightarrow> request_map \<Rightarrow> request_map" where
  "spec_step K h n = spec_add (K (at_Request (h_atts h n))) (at_Fee (h_atts h n)) (hd (at_Indexes (h_atts h n)))"

lemma earliest_first_single [simp]: "earliest_first [i]"
  by (simp add: earliest_first_def EarlierLog_def)

lemma AddAttestations_fold:
  assumes "AddAttestations K h r ns = Some (h', r')" "round_atts_ok K h r" "fresh_atts h r ns"
  shows "round_abs h' r' = fold (spec_step K h) ns (round_abs h r)"
  using assms
proof (induction ns arbitrary: h r)
  case (Cons n ns)
  then obtain h1 r1 b where add: "AddAttestation K h r n = Some (h1, r1, b)" and rest: "AddAttestations K h1 r1 ns = Some (h', r')"
    by (auto split: option.splits)
  have n: "n \<notin> set (r_Attestations r)" "at_Indexes (h_atts h n) = [hd (at_Indexes (h_atts h n))]"
    using Cons.prems(3) by (auto simp: fresh_atts_def length_Suc_conv)
  have early: "earliest_first (at_Indexes (h_atts h n))" by (subst n(2)) simp
  have ok: "round_atts_ok K h1 r1" by (rule AddAttestation_ok [OF Cons.prems(2) n(1) early add])
  have same: "h_atts h1 m = h_atts h m" if "m \<in> set ns" for m
    using that Cons.prems(3) by (intro AddAttestation_elsewhere [OF add Cons.prems(2)]) (auto simp: fresh_atts_def)
  have fresh: "fresh_atts h1 r1 ns"
    using Cons.prems(3) AddAttestation_fields(6) [OF add] same by (auto simp: fresh_atts_def)
  have "round_abs h' r' = fold (spec_step K h1) ns (round_abs h1 r1)" by (rule Cons.IH [OF rest ok fresh])
  also have "\<dots> = fold (spec_step K h) ns (round_abs h1 r1)"
    by (rule fold_cong) (simp_all add: spec_step_def same)
  also have "round_abs h1 r1 = spec_step K h n (round_abs h r)"
    unfolding spec_step_def by (rule AddAttestation_refines [OF Cons.prems(2) n add])
  finally show ?case by simp
qed simp

section \<open>Properties\<close>

text \<open>
  Adding a request refines the map of requests: whatever the representation by objects, list and index
  map, \<^verbatim>\<open>AddAttestation\<close> adds the fee and the position to the entry of the request's hash, or makes a new
  entry, and leaves every other request alone; the representation invariant is kept.
\<close>

lemma add_attestation_refines:
  assumes "round_atts_ok K h r" "n \<notin> set (r_Attestations r)" "at_Indexes (h_atts h n) = [i]"
    and "AddAttestation K h r n = Some (h', r', added)"
  shows "round_abs h' r' = spec_add (K (at_Request (h_atts h n))) (at_Fee (h_atts h n)) i (round_abs h r) \<and>
    round_atts_ok K h' r'"
proof -
  have "earliest_first (at_Indexes (h_atts h n))" using assms(3) by simp
  then show ?thesis using AddAttestation_refines [OF assms] AddAttestation_ok [OF assms(1,2) _ assms(4)] by blast
qed

abbreviation (input) sample_index :: "nat \<Rightarrow> IndexLog" where
  "sample_index n \<equiv> \<lparr>il_BlockNumber = of_nat n, il_LogIndex = 0\<rparr>"

definition sample_heap :: "nat heap" where
  "sample_heap = \<lparr>h_atts = (\<lambda>n.
     \<lparr>at_Indexes = [sample_index n], at_RoundID = 3, at_RoundStatus = OwnStatus Unassigned, at_Request = [of_nat (n mod 2)],
      at_Response = [], at_Fee = of_nat n, at_Status = Waiting, at_Consensus = False, at_Hash = [of_nat n], at_ResponseABI = None,
      at_ResponseABIString = None, at_LUTLimit = 0, at_QueueName = [], at_Credentials = None\<rparr>), h_status = (\<lambda>_. PreConsensus)\<rparr>"

definition sample_voters :: VoterSet where
  "sample_voters = \<lparr>vs_TotalWeight = 100, vs_SubmitToSigningAddress = [[1] \<mapsto> [11], [2] \<mapsto> [12]],
     vs_VoterDataMap = [[11] \<mapsto> \<lparr>vd_Index = 0, vd_Weight = 60\<rparr>, [12] \<mapsto> \<lparr>vd_Index = 1, vd_Weight = 40\<rparr>]\<rparr>"

definition sample_round :: Round where
  "sample_round = snd (Round_New sample_heap 9 3 sample_voters)"

lemma sample_round_simps [simp]:
  "r_Attestations sample_round = []" "r_attestationMap sample_round = Map.empty" "r_readLocks sample_round = 0"
  "r_bitVotes sample_round = []" "r_bitVoteCheckList sample_round = Map.empty" "r_voterSet sample_round = sample_voters"
  "r_Status sample_round = 9"
  by (simp_all add: sample_round_def Round_New_def)

lemma sample_round_ok [simp]: "round_atts_ok K h sample_round" "bitvotes_ok sample_round"
  by (simp_all add: round_atts_ok_def bitvotes_ok_def)

lemma sample_voters_ok [simp]: "voter_set_ok sample_voters"
  by (auto simp: voter_set_ok_def sample_voters_def inj_on_def split: if_splits)

text \<open>
  The order in which the requests of a round arrive does not matter: adding the same fresh attestation
  objects in two orders gives rounds with the same requests, each with the same fee and the same positions.
\<close>

lemma request_order_irrelevant:
  assumes "round_atts_ok K h r" "fresh_atts h r ns" "mset ns = mset ms"
    and "AddAttestations K h r ns = Some (h1, r1)" "AddAttestations K h r ms = Some (h2, r2)"
  shows "round_abs h1 r1 = round_abs h2 r2"
proof -
  have "distinct ms" "set ms = set ns"
    using assms(2,3) mset_eq_setD [OF assms(3)] mset_eq_imp_distinct_iff [OF assms(3)] by (simp_all add: fresh_atts_def)
  then have ms: "fresh_atts h r ms" using assms(2) by (simp add: fresh_atts_def)
  have "fold (spec_step K h) ns = fold (spec_step K h) ms"
    using assms(3) by (intro fold_multiset_equiv) (auto simp: spec_step_def spec_add_commute fun_eq_iff)
  then show ?thesis
    by (simp add: AddAttestations_fold [OF assms(4,1,2)] AddAttestations_fold [OF assms(5,1) ms])
qed

text \<open>
  All providers number the attestations of a round alike: sorting gives the same list for every order in
  which they were collected, when no two first positions are equal, and the list is sorted by the position of
  the earliest request.
\<close>

lemma attestation_order_canonical:
  assumes "mset (r_Attestations r) = mset (r_Attestations r')"
    and "inj_on (\<lambda>a. index_of (h_atts h a)) (set (r_Attestations r))"
  shows "r_Attestations (sortAttestations h r) = r_Attestations (sortAttestations h r') \<and>
    sorted_wrt (\<lambda>i j. \<not> EarlierLog (index_of (h_atts h j)) (index_of (h_atts h i))) (r_Attestations (sortAttestations h r))"
  using sortAttestations_unique [OF assms] sortAttestations_sorted by blast

text \<open>
  C17. The bit votes of a round after any sequence of messages: the vote stored for a sender is the one at the
  latest position among the sender's valid votes, and none is stored when no message of the sender is valid;
  rejected, older and foreign messages have no effect on it.
\<close>

theorem latest_vote_counts:
  assumes "bitvotes_ok r" "r_bitVoteCheckList r = Map.empty"
  shows "latest_in (stored (ProcessBitVotes r ms) ad) (valid_votes r ad ms) \<and> bitvotes_ok (ProcessBitVotes r ms)"
  using ProcessBitVotes_latest [OF assms] ProcessBitVotes_ok [OF assms(1)] by blast

abbreviation (input) sample_message :: "u64 \<Rightarrow> bytes \<Rightarrow> Message" where
  "sample_message block payload \<equiv> \<lparr>msg_From = [1], msg_VotingRound = 3, msg_Timestamp = 0, msg_BlockNumber = block,
     msg_TransactionIndex = 0, msg_Payload = payload\<rparr>"

definition sample_messages :: "Message list" where
  "sample_messages = [sample_message 7 [0, 0], sample_message 5 [0, 0], sample_message 9 [0, 1]]"

lemma sample_valid:
  "valid_votes sample_round [1] sample_messages =
     (\<lambda>b. \<lparr>wbv_Index = 0, wbv_IndexTx = \<lparr>tx_BlockNumber = b, tx_TransactionIndex = 0\<rparr>, wbv_Weight = 60,
       wbv_BitVote = \<lparr>bv_Length = 0, bv_BitVector = 0\<rparr>\<rparr>) ` {7, 5}"
  by (auto simp: valid_votes_def sample_messages_def vote_of_def sample_voters_def BigEndian_Uint16_def
      big_SetBytes_def big_BitLen_def)

theorem latest_vote_counts_witness:
  "map_option (\<lambda>v. tx_BlockNumber (wbv_IndexTx v)) (stored (ProcessBitVotes sample_round sample_messages) [1]) = Some 7"
proof -
  have "latest_in (stored (ProcessBitVotes sample_round sample_messages) [1]) (valid_votes sample_round [1] sample_messages) \<and>
    bitvotes_ok (ProcessBitVotes sample_round sample_messages)"
    by (rule latest_vote_counts) simp_all
  then show ?thesis by (auto simp: latest_in_def sample_valid EarlierTx_def split: option.splits)
qed

text \<open>
  The votes that count do not depend on the order of the messages: when different valid votes of a sender
  are at different positions, two sequences with the same messages, in any order and with any repetitions,
  leave the same vote of every such sender.
\<close>

lemma vote_order_irrelevant:
  assumes "bitvotes_ok r" "r_bitVoteCheckList r = Map.empty" "set ms = set ms'" "positions_distinct (valid_votes r ad ms)"
  shows "stored (ProcessBitVotes r ms) ad = stored (ProcessBitVotes r ms') ad"
proof (rule latest_in_unique [OF _ _ assms(4)])
  show "latest_in (stored (ProcessBitVotes r ms) ad) (valid_votes r ad ms)" by (rule ProcessBitVotes_latest [OF assms(1,2)])
  have "valid_votes r ad ms = valid_votes r ad ms'" by (simp add: valid_votes_def assms(3))
  then show "latest_in (stored (ProcessBitVotes r ms') ad) (valid_votes r ad ms)" using ProcessBitVotes_latest [OF assms(1,2)] by simp
qed

text \<open>
  C18. The weight of the stored votes never exceeds the total weight of the voter set, after any sequence of
  messages: no voter is counted twice, and the 16-bit sums of the consensus computation do not wrap around.
\<close>

theorem vote_weight_bounded:
  assumes "bitvotes_ok r" "voter_set_ok (r_voterSet r)"
  shows "weight_of (\<lambda>_. True) wbv_Weight (r_bitVotes (ProcessBitVotes r ms)) \<le> unat (vs_TotalWeight (r_voterSet r)) \<and>
    votes_nowrap (r_bitVotes (ProcessBitVotes r ms))"
  using bitvotes_weight [OF ProcessBitVotes_ok [OF assms(1)], of ms] bitvotes_nowrap [OF ProcessBitVotes_ok [OF assms(1)], of ms]
    assms(2) by (simp add: frame)

theorem vote_weight_bounded_witness:
  "weight_of (\<lambda>_. True) wbv_Weight (r_bitVotes (ProcessBitVotes sample_round sample_messages)) \<le> 100"
proof -
  have "voter_set_ok (r_voterSet sample_round)" by simp
  from vote_weight_bounded [OF sample_round_ok(2) this, of sample_messages] have
    "weight_of (\<lambda>_. True) wbv_Weight (r_bitVotes (ProcessBitVotes sample_round sample_messages)) \<le>
       unat (vs_TotalWeight (r_voterSet sample_round))" by blast
  then show ?thesis by (simp add: sample_voters_def)
qed

text \<open>
  C4. The consensus of a round, end to end: when the computation reports no error, the stored consensus bit
  vote is supported by more than half of the total weight of the voters, the \<open>k\<close>-th attestation in canonical
  order is marked chosen exactly when bit \<open>k\<close> is set, no other object changes, and the status cell that the
  attestations share is \<open>Consensus\<close>.
\<close>

theorem round_consensus:
  assumes ok: "round_ok K h r" and res: "ComputeConsensusBitVote h r = Some (h', r', None)"
  shows "\<exists>b. r_ConsensusBitVote r' = Some b \<and> r_Attestations r' = r_Attestations (sortAttestations h r) \<and>
    unat (vs_TotalWeight (r_voterSet r)) div 2 < supp_weight (r_bitVotes r) (bits_of b) \<and>
    bits_of b \<subseteq> {..<length (r_Attestations r)} \<and>
    (\<forall>k<length (r_Attestations r). at_Consensus (h_atts h' (r_Attestations r' ! k)) \<longleftrightarrow> k \<in> bits_of b) \<and>
    (\<forall>a. a \<notin> set (r_Attestations r) \<longrightarrow> h_atts h' a = h_atts h a) \<and> h_status h' (r_Status r) = Consensus"
  using ok res
proof (cases rule: ComputeConsensus_cases)
  case (computed b)
  let ?s = "sortAttestations h r" and ?fees = "round_fees h (sortAttestations h r)"
  have r: "votes_nowrap (r_bitVotes r)" "distinct (r_Attestations ?s)"
    using ok by (auto simp: round_ok_def round_atts_ok_def bitvotes_nowrap)
  obtain fr sol where e: "ensemble (r_bitVotes r) ?fees (vs_TotalWeight (r_voterSet r)) BitVoteMaxNoOfOperations = Inr (fr, sol)"
    and b: "bits_of b = set (fr_AlwaysInBits fr) \<union> covers (cs_Bits sol)" "bits_of b \<subseteq> {..<length ?fees}"
    by (rule consensus_result [OF r(1) round_fees_nonneg [OF ok] computed(1)]) iprover
  have maj: "unat (vs_TotalWeight (r_voterSet r)) div 2 < supp_weight (r_bitVotes r) (bits_of b)"
    using ensemble_majority [OF r(1) round_fees_nonneg [OF ok] e] b(1) by simp
  have "at_Consensus (h_atts h' (r_Attestations r' ! k)) \<longleftrightarrow> k \<in> bits_of b" if "k < length (r_Attestations r)" for k
    using setConsensus_loop_nth [OF r(2), of k "bv_BitVector b" 0 "h_atts h"] that
    by (simp add: computed(3,5) bits_of_def)
  with maj b(2) computed(3-5) show ?thesis by (simp add: round_fees_def setConsensus_loop_other)
qed simp

definition voted_round :: Round where
  "voted_round = sample_round\<lparr>r_Attestations := [4, 1], r_attestationMap := [[0] \<mapsto> 4, [1] \<mapsto> 1],
     r_bitVotes := [\<lparr>wbv_Index = 0, wbv_IndexTx = \<lparr>tx_BlockNumber = 7, tx_TransactionIndex = 0\<rparr>, wbv_Weight = 60,
        wbv_BitVote = \<lparr>bv_Length = 2, bv_BitVector = 2\<rparr>\<rparr>],
     r_bitVoteCheckList := [[1] \<mapsto> 0]\<rparr>"

definition voted_heap :: "nat heap" where
  "voted_heap = sample_heap\<lparr>h_atts := (\<lambda>n. (h_atts sample_heap n)\<lparr>at_RoundStatus := RoundStatusOf 9\<rparr>)\<rparr>"

lemma voted_round_ok: "round_ok id voted_heap voted_round"
  unfolding round_ok_def
proof (intro conjI)
  show "round_atts_ok id voted_heap voted_round"
    by (auto simp: round_atts_ok_def voted_round_def voted_heap_def sample_heap_def split: if_splits)
  have "wf_BitVote \<lparr>bv_Length = 2, bv_BitVector = 2\<rparr>" by code_simp
  then show "bitvotes_ok voted_round"
    by (auto simp: bitvotes_ok_def voted_round_def vote_ok_def voter_of_def sample_voters_def split: if_splits)
qed (simp_all add: voted_round_def voted_heap_def sample_heap_def)

theorem round_consensus_witness:
  "\<exists>h' r' b. ComputeConsensusBitVote voted_heap voted_round = Some (h', r', None) \<and> r_ConsensusBitVote r' = Some b \<and>
     50 < supp_weight (r_bitVotes voted_round) (bits_of b)"
proof -
  have "case ComputeConsensusBitVote voted_heap voted_round of Some (h', r', None) \<Rightarrow> True | _ \<Rightarrow> False" by code_simp
  then obtain h' r' where res: "ComputeConsensusBitVote voted_heap voted_round = Some (h', r', None)"
    by (auto split: option.splits)
  from round_consensus [OF voted_round_ok res] res show ?thesis by (auto simp: voted_round_def sample_voters_def)
qed

lemma merkleTree_loop_Inl:
  assumes "merkleTree_loop i as hs = Inl e"
  obtains k where "k < length as" "e = NotConfirmed (i + k)" "at_Consensus (as ! k)" "at_Status (as ! k) \<noteq> Success"
  using assms
proof (induction i as hs arbitrary: thesis rule: merkleTree_loop.induct)
  case (2 i a as hs)
  show ?case
  proof (cases "at_Consensus a \<and> at_Status a \<noteq> Success")
    case True
    with 2 show ?thesis by force
  next
    case False
    have "\<exists>k<length as. e = NotConfirmed (Suc i + k) \<and> at_Consensus (as ! k) \<and> at_Status (as ! k) \<noteq> Success"
      using False 2 by (cases "at_Consensus a") (fastforce, fastforce)
    then obtain k where "k < length as" "e = NotConfirmed (Suc i + k)" "at_Consensus (as ! k)" "at_Status (as ! k) \<noteq> Success" by blast
    then show ?thesis by (intro "2.prems"(1) [of "Suc k"]) simp_all
  qed
qed simp

text \<open>
  The Merkle tree of a round: with no read lock held, the tree is built from the hashes of exactly the
  chosen attestations, in their order, if all of them are confirmed, and it is stored and the round is done;
  otherwise the error names a chosen attestation that is not confirmed and nothing changes.
\<close>

lemma merkle_tree_of_chosen:
  assumes "r_readLocks r = 0"
  shows "let atts = map (h_atts h) (r_Attestations r) in
    if \<forall>a\<in>set atts. at_Consensus a \<longrightarrow> at_Status a = Success
    then MerkleTree Build h r =
      (let tree = Build (map at_Hash (filter at_Consensus atts))
       in Some (h\<lparr>h_status := (h_status h)(r_Status r := Done)\<rparr>, r\<lparr>r_merkleTree := tree\<rparr>, Inr tree))
    else \<exists>k<length atts. at_Consensus (atts ! k) \<and> at_Status (atts ! k) \<noteq> Success \<and>
      MerkleTree Build h r = Some (h, r, Inl (NotConfirmed k))"
proof (cases "merkleTree_loop 0 (map (h_atts h) (r_Attestations r)) []")
  case (Inl e)
  then obtain k where k: "k < length (map (h_atts h) (r_Attestations r))" "e = NotConfirmed (0 + k)"
    "at_Consensus (map (h_atts h) (r_Attestations r) ! k)" "at_Status (map (h_atts h) (r_Attestations r) ! k) \<noteq> Success"
    by (rule merkleTree_loop_Inl)
  then have "\<not> (\<forall>a\<in>set (map (h_atts h) (r_Attestations r)). at_Consensus a \<longrightarrow> at_Status a = Success)" using nth_mem by blast
  moreover have "MerkleTree Build h r = Some (h, r, Inl (NotConfirmed k))" using Inl k(2) assms by (simp add: MerkleTree_def)
  ultimately show ?thesis unfolding Let_def using k(1,3,4) by (simp only: if_False) blast
next
  case (Inr hashes)
  then have all: "\<forall>a\<in>set (map (h_atts h) (r_Attestations r)). at_Consensus a \<longrightarrow> at_Status a = Success"
    and hs: "hashes = map at_Hash (filter at_Consensus (map (h_atts h) (r_Attestations r)))"
    by (simp_all add: merkleTree_loop_Inr)
  have tree: "MerkleTree Build h r = (let tree = Build hashes in
      Some (h\<lparr>h_status := (h_status h)(r_Status r := Done)\<rparr>, r\<lparr>r_merkleTree := tree\<rparr>, Inr tree))"
    using Inr assms by (simp add: MerkleTree_def Let_def)
  show ?thesis unfolding Let_def if_P [OF all] tree [unfolded Let_def hs] by (rule refl)
qed

end
