(* ===== verification/Manager.thy ===== *)
theory Manager
  imports Round
begin

text \<open>
  \<^verbatim>\<open>client/manager\<close>: the process that owns the rounds. It receives signing policies, the bit votes of a round
  whose choose phase has ended, and attestation requests; each receive of \<^verbatim>\<open>Run\<close> is one handler here, and
  \<open>manager_reach\<close> interleaves them, and the queue workers, in any order.

  \<^verbatim>\<open>storage.Cyclic\<close>, \<^verbatim>\<open>policy.Storage\<close> and \<^verbatim>\<open>priority.PriorityQueue\<close> come from \<^verbatim>\<open>go-flare-common\<close> and are the
  fields of the parameter \<open>lib\<close>. Rounds and attestations are objects named by addresses drawn from one
  counter; the status cell of a round has the address of the round. The shutdown after a bad signing policy
  is the time it is scheduled for; logging is not modelled.

  Shown here: votes outside the choose phase change nothing; a round is created once and with the voters
  of the policy for it; every reachable manager has rounds with consistent request maps and vote lists,
  and no attestation belongs to two rounds.
\<close>

record Policy =
  pol_Voters :: "address list"
  pol_RewardEpochId :: int
  pol_StartVotingRoundId :: u32

record VotersData =
  vdt_Policy :: Policy
  vdt_SubmitToSigningAddress :: "(address \<times> address) list"

record ('s, 'p, 'sp, 'q) lib =
  cy_Get :: "'s \<Rightarrow> u32 \<Rightarrow> nat option"
  cy_Store :: "'s \<Rightarrow> u32 \<Rightarrow> nat \<Rightarrow> 's"
  sp_New :: "Policy \<Rightarrow> (address \<times> address) list \<Rightarrow> 'sp"
  sp_Add :: "'p \<Rightarrow> 'sp \<Rightarrow> 'p option"
  sp_ForVotingRound :: "'p \<Rightarrow> u32 \<Rightarrow> VoterSet option"
  sp_RemoveBefore :: "'p \<Rightarrow> u32 \<Rightarrow> 'p \<times> nat list"
  q_Add :: "'q \<Rightarrow> nat \<Rightarrow> Weight \<Rightarrow> 'q"
  q_AddFast :: "'q \<Rightarrow> nat \<Rightarrow> Weight \<Rightarrow> 'q"

record ('arg, 's, 'p, 'q) Manager =
  m_Rounds :: 's
  m_lastRoundCreated :: u32
  m_policies :: 'p
  m_types :: "bytes \<rightharpoonup> 'arg AttestationType"
  m_queues :: "string \<rightharpoonup> 'q"
  m_heap :: "'arg heap"
  m_round :: "nat \<rightharpoonup> Round"
  m_next :: nat

datatype ManagerError =
  NoSigningPolicy u32 | VoteTooSoon | VoteTooLate | VoteRejected RoundError | BadRequest AttError
| NoQueue string | VoterWithoutSubmit address | PolicyRejected

definition buildQueues :: "(string \<times> 'params) list \<Rightarrow> ('params \<Rightarrow> string \<Rightarrow> 'q) \<Rightarrow> (string \<rightharpoonup> 'q)" where
  "buildQueues queuesConfigs priority_New =
     foldl (\<lambda>queues (k, params). queues(k \<mapsto> priority_New params k)) Map.empty queuesConfigs"

definition GetOrCreateRound ::
  "('s, 'p, 'sp, 'q) lib \<Rightarrow> ('arg, 's, 'p, 'q) Manager \<Rightarrow> u32 \<Rightarrow> ('arg, 's, 'p, 'q) Manager \<times> (ManagerError + nat)" where
  "GetOrCreateRound L m roundID =
     (case cy_Get L (m_Rounds m) roundID of
        Some roundForID \<Rightarrow> (m, Inr roundForID)
      | None \<Rightarrow>
          (case sp_ForVotingRound L (m_policies m) roundID of
             None \<Rightarrow> (m, Inl (NoSigningPolicy roundID))
           | Some voters \<Rightarrow>
               (let ra = m_next m;
                    (h, roundForID) = Round_New (m_heap m) ra roundID voters
                in (m\<lparr>m_heap := h, m_round := (m_round m)(ra \<mapsto> roundForID), m_next := Suc ra,
                      m_lastRoundCreated := roundID, m_Rounds := cy_Store L (m_Rounds m) roundID ra\<rparr>,
                    Inr ra))))"

definition OnBitVote ::
  "('s, 'p, 'sp, 'q) lib \<Rightarrow> Timing \<Rightarrow> ('arg, 's, 'p, 'q) Manager \<Rightarrow> Message \<Rightarrow>
   ('arg, 's, 'p, 'q) Manager \<times> ManagerError option \<times> ManagerError option" where
  "OnBitVote L Chain m message =
     (if msg_Timestamp message < ChooseStartTS Chain (msg_VotingRound message) then (m, Some VoteTooSoon, None)
      else if ChooseEndTS Chain (msg_VotingRound message) \<le> msg_Timestamp message then (m, Some VoteTooLate, None)
      else case GetOrCreateRound L m (msg_VotingRound message) of
             (m, Inl err) \<Rightarrow> (m, None, Some err)
           | (m, Inr ra) \<Rightarrow>
               (let (r, err) = ProcessBitVote (the (m_round m ra)) message;
                    m = m\<lparr>m_round := (m_round m)(ra \<mapsto> r)\<rparr>
                in case err of
                     Some e \<Rightarrow> (m, Some (VoteRejected e), None)
                   | None \<Rightarrow> (m, None, None)))"

definition AddToQueue ::
  "('s, 'p, 'sp, 'q) lib \<Rightarrow> ('arg, 's, 'p, 'q) Manager \<Rightarrow> nat \<Rightarrow> ('arg, 's, 'p, 'q) Manager \<times> ManagerError option" where
  "AddToQueue L m a =
     (let (att, err) = PrepareRequest (m_types m) (h_atts (m_heap m) a);
          m = m\<lparr>m_heap := (m_heap m)\<lparr>h_atts := (h_atts (m_heap m))(a := att)\<rparr>\<rparr>
      in case err of
           Some e \<Rightarrow> (m, Some (BadRequest e))
         | None \<Rightarrow>
             (case m_queues m (at_QueueName att) of
                None \<Rightarrow> (m, Some (NoQueue (at_QueueName att)))
              | Some queue \<Rightarrow>
                  (m\<lparr>m_queues := (m_queues m)(at_QueueName att \<mapsto> q_Add L queue a \<lparr>wt_Index = index_of att\<rparr>)\<rparr>, None)))"

text \<open>\<open>None\<close>: the round's write lock is never granted.\<close>

definition OnRequest ::
  "('s, 'p, 'sp, 'q) lib \<Rightarrow> ('m dbLog_scheme \<Rightarrow> (bytes \<times> int) option) \<Rightarrow> (bytes \<Rightarrow> bytes) \<Rightarrow> Timing \<Rightarrow>
   ('arg, 's, 'p, 'q) Manager \<Rightarrow> 'm dbLog_scheme \<Rightarrow> (('arg, 's, 'p, 'q) Manager \<times> ManagerError option) option" where
  "OnRequest L parse Keccak256Hash Chain m request =
     (case AttestationFromDatabaseLog parse Chain request of
        Inl err \<Rightarrow> Some (m, Some (BadRequest err))
      | Inr att \<Rightarrow>
          (let a = m_next m;
               m = m\<lparr>m_heap := (m_heap m)\<lparr>h_atts := (h_atts (m_heap m))(a := att)\<rparr>, m_next := Suc a\<rparr>
           in case GetOrCreateRound L m (at_RoundID att) of
                (m, Inl err) \<Rightarrow> Some (m, Some err)
              | (m, Inr ra) \<Rightarrow>
                  (case AddAttestation Keccak256Hash (m_heap m) (the (m_round m ra)) a of
                     None \<Rightarrow> None
                   | Some (h, r, added) \<Rightarrow>
                       (let m = m\<lparr>m_heap := h, m_round := (m_round m)(ra \<mapsto> r)\<rparr>
                        in Some (if added then AddToQueue L m a else (m, None))))))"

definition VotersDataCheck :: "VotersData \<Rightarrow> ManagerError option" where
  "VotersDataCheck data =
     (let sigToSubmit = Invert (vdt_SubmitToSigningAddress data) in
      map_option VoterWithoutSubmit (List.find (\<lambda>voter. sigToSubmit voter = None) (pol_Voters (vdt_Policy data))))"

definition OnSigningPolicy ::
  "('s, 'p, 'sp, 'q) lib \<Rightarrow> ('arg, 's, 'p, 'q) Manager \<Rightarrow> VotersData \<Rightarrow> ('arg, 's, 'p, 'q) Manager \<times> ManagerError option" where
  "OnSigningPolicy L m data =
     (case VotersDataCheck data of
        Some err \<Rightarrow> (m, Some err)
      | None \<Rightarrow>
          (let parsedPolicy = sp_New L (vdt_Policy data) (vdt_SubmitToSigningAddress data) in
           case sp_Add L (m_policies m) parsedPolicy of
             None \<Rightarrow> (m, Some PolicyRejected)
           | Some ps \<Rightarrow> (m\<lparr>m_policies := ps\<rparr>, None)))"

fun retry_loop ::
  "('s, 'p, 'sp, 'q) lib \<Rightarrow> (nat \<times> 'arg Attestation) list \<Rightarrow> (string \<rightharpoonup> 'q) \<Rightarrow> nat \<Rightarrow> (string \<rightharpoonup> 'q) \<times> (ManagerError + nat)" where
  "retry_loop L [] queues n = (queues, Inr n)"
| "retry_loop L ((a, att) # rest) queues n =
     (if at_Consensus att \<and> at_Status att \<noteq> Success then
        case queues (at_QueueName att) of
          None \<Rightarrow> (queues, Inl (NoQueue (at_QueueName att)))
        | Some queue \<Rightarrow>
            retry_loop L rest (queues(at_QueueName att \<mapsto> q_AddFast L queue a \<lparr>wt_Index = index_of att\<rparr>)) (n + 1)
      else retry_loop L rest queues n)"

definition retryUnsuccessfulChosen ::
  "('s, 'p, 'sp, 'q) lib \<Rightarrow> ('arg, 's, 'p, 'q) Manager \<Rightarrow> Round \<Rightarrow> ('arg, 's, 'p, 'q) Manager \<times> (ManagerError + nat)" where
  "retryUnsuccessfulChosen L m round =
     (let (queues, res) = retry_loop L (map (\<lambda>a. (a, h_atts (m_heap m) a)) (r_Attestations round)) (m_queues m) 0
      in (m\<lparr>m_queues := queues\<rparr>, res))"

section \<open>One receive of Run\<close>

definition Run_signingPolicies ::
  "('s, 'p, 'sp, 'q) lib \<Rightarrow> ('arg, 's, 'p, 'q) Manager \<Rightarrow> VotersData list \<Rightarrow> ('arg, 's, 'p, 'q) Manager" where
  "Run_signingPolicies L m signingPolicies =
     (let m = foldl (\<lambda>m data. fst (OnSigningPolicy L m data)) m signingPolicies
      in m\<lparr>m_policies := fst (sp_RemoveBefore L (m_policies m) (m_lastRoundCreated m))\<rparr>)"

text \<open>
  The first receive of \<^verbatim>\<open>Run\<close>: a rejected policy is a panic, \<open>None\<close> here. Later on, a rejected policy
  schedules a shutdown for the start of the round after the one its epoch would start with.
\<close>

fun Run_initialPolicies ::
  "('s, 'p, 'sp, 'q) lib \<Rightarrow> ('arg, 's, 'p, 'q) Manager \<Rightarrow> VotersData list \<Rightarrow> ('arg, 's, 'p, 'q) Manager option" where
  "Run_initialPolicies L m [] = Some m"
| "Run_initialPolicies L m (data # rest) =
     (case OnSigningPolicy L m data of
        (m, Some err) \<Rightarrow> None
      | (m, None) \<Rightarrow> Run_initialPolicies L m rest)"

fun policy_shutdowns ::
  "('s, 'p, 'sp, 'q) lib \<Rightarrow> Timing \<Rightarrow> ('arg, 's, 'p, 'q) Manager \<Rightarrow> VotersData list \<Rightarrow> u64 list" where
  "policy_shutdowns L Chain m [] = []"
| "policy_shutdowns L Chain m (data # rest) =
     (case OnSigningPolicy L m data of
        (m, Some err) \<Rightarrow>
          RoundStartTS Chain (pol_StartVotingRoundId (vdt_Policy data) + 1) # policy_shutdowns L Chain m rest
      | (m, None) \<Rightarrow> policy_shutdowns L Chain m rest)"

definition Run_bitVotes ::
  "('s, 'p, 'sp, 'q) lib \<Rightarrow> Timing \<Rightarrow> ('arg, 's, 'p, 'q) Manager \<Rightarrow> u32 \<Rightarrow> Message list \<Rightarrow>
   ('arg, 's, 'p, 'q) Manager option" where
  "Run_bitVotes L Chain m roundID messages =
     (let m = foldl (\<lambda>m message. fst (OnBitVote L Chain m message)) m messages in
      case cy_Get L (m_Rounds m) roundID of
        None \<Rightarrow> Some m
      | Some ra \<Rightarrow>
          (case ComputeConsensusBitVote (m_heap m) (the (m_round m ra)) of
             None \<Rightarrow> None
           | Some (h, r, err) \<Rightarrow>
               (let m = m\<lparr>m_heap := h, m_round := (m_round m)(ra \<mapsto> r)\<rparr>
                in Some (if err = None then fst (retryUnsuccessfulChosen L m r) else m))))"

fun Run_requests ::
  "('s, 'p, 'sp, 'q) lib \<Rightarrow> ('m dbLog_scheme \<Rightarrow> (bytes \<times> int) option) \<Rightarrow> (bytes \<Rightarrow> bytes) \<Rightarrow> Timing \<Rightarrow>
   ('arg, 's, 'p, 'q) Manager \<Rightarrow> 'm dbLog_scheme list \<Rightarrow> ('arg, 's, 'p, 'q) Manager option" where
  "Run_requests L parse K Chain m [] = Some m"
| "Run_requests L parse K Chain m (request # requests) =
     (case OnRequest L parse K Chain m request of
        None \<Rightarrow> None
      | Some (m, err) \<Rightarrow> Run_requests L parse K Chain m requests)"

text \<open>
  A queue worker takes an attestation out of its queue, drops it if \<^verbatim>\<open>discard\<close> says so, and otherwise handles
  it.
\<close>

definition handler ::
  "http \<Rightarrow> ('arg, 'val) abi \<Rightarrow> (bytes \<Rightarrow> bytes) \<Rightarrow> Timing \<Rightarrow> ('arg, 's, 'p, 'q) Manager \<Rightarrow> nat \<Rightarrow>
   ('arg, 's, 'p, 'q) Manager \<times> AttError option" where
  "handler H A K Chain m a =
     (let (att, err) = Handle H A K Chain (h_atts (m_heap m) a)
      in (m\<lparr>m_heap := (m_heap m)\<lparr>h_atts := (h_atts (m_heap m))(a := att)\<rparr>\<rparr>, err))"

definition discard :: "('arg, 's, 'p, 'q) Manager \<Rightarrow> nat \<Rightarrow> bool" where
  "discard m a = Discard (h_status (m_heap m)) (h_atts (m_heap m) a)"

definition run_dequeued ::
  "http \<Rightarrow> ('arg, 'val) abi \<Rightarrow> (bytes \<Rightarrow> bytes) \<Rightarrow> Timing \<Rightarrow> ('arg, 's, 'p, 'q) Manager \<Rightarrow> nat \<Rightarrow> ('arg, 's, 'p, 'q) Manager" where
  "run_dequeued H A K Chain m a = (if discard m a then m else fst (handler H A K Chain m a))"


section \<open>The invariant\<close>

text \<open>What the code relies on of the cyclic storage: a stored round is found, another one is unchanged or gone.\<close>

definition cyclic_ok :: "('s, 'p, 'sp, 'q) lib \<Rightarrow> bool" where
  "cyclic_ok L \<longleftrightarrow>
     (\<forall>s k v. cy_Get L (cy_Store L s k v) k = Some v) \<and>
     (\<forall>s k v k'. k' \<noteq> k \<longrightarrow> cy_Get L (cy_Store L s k v) k' = None \<or> cy_Get L (cy_Store L s k v) k' = cy_Get L s k')"

definition round_in_manager :: "(bytes \<Rightarrow> bytes) \<Rightarrow> ('arg, 's, 'p, 'q) Manager \<Rightarrow> nat \<Rightarrow> Round \<Rightarrow> bool" where
  "round_in_manager K m ra r \<longleftrightarrow>
     ra < m_next m \<and> r_Status r = ra \<and> round_atts_ok K (m_heap m) r \<and> bitvotes_ok r \<and>
     (\<forall>a\<in>set (r_Attestations r). a < m_next m)"

definition manager_ok :: "('s, 'p, 'sp, 'q) lib \<Rightarrow> (bytes \<Rightarrow> bytes) \<Rightarrow> ('arg, 's, 'p, 'q) Manager \<Rightarrow> bool" where
  "manager_ok L K m \<longleftrightarrow>
     (\<forall>ra r. m_round m ra = Some r \<longrightarrow> round_in_manager K m ra r) \<and>
     (\<forall>ra ra' r r' a. m_round m ra = Some r \<longrightarrow> m_round m ra' = Some r' \<longrightarrow>
        a \<in> set (r_Attestations r) \<longrightarrow> a \<in> set (r_Attestations r') \<longrightarrow> ra = ra') \<and>
     (\<forall>k ra. cy_Get L (m_Rounds m) k = Some ra \<longrightarrow> (\<exists>r. m_round m ra = Some r \<and> r_ID r = k))"

lemma manager_okD:
  assumes "manager_ok L K m"
  shows "m_round m ra = Some r \<Longrightarrow> round_in_manager K m ra r"
    "m_round m ra = Some r \<Longrightarrow> m_round m ra' = Some r' \<Longrightarrow> a \<in> set (r_Attestations r) \<Longrightarrow> a \<in> set (r_Attestations r') \<Longrightarrow> ra = ra'"
    "cy_Get L (m_Rounds m) k = Some ra \<Longrightarrow> \<exists>r. m_round m ra = Some r \<and> r_ID r = k"
  using assms unfolding manager_ok_def by blast+

lemma manager_okI:
  assumes "\<And>ra r. m_round m ra = Some r \<Longrightarrow> round_in_manager K m ra r"
    and "\<And>ra ra' r r' a. m_round m ra = Some r \<Longrightarrow> m_round m ra' = Some r' \<Longrightarrow>
      a \<in> set (r_Attestations r) \<Longrightarrow> a \<in> set (r_Attestations r') \<Longrightarrow> ra = ra'"
    and "\<And>k ra. cy_Get L (m_Rounds m) k = Some ra \<Longrightarrow> \<exists>r. m_round m ra = Some r \<and> r_ID r = k"
  shows "manager_ok L K m"
  unfolding manager_ok_def using assms by blast

lemma round_atts_ok_heap:
  assumes "round_atts_ok K h r"
    and "\<And>a. a \<in> set (r_Attestations r) \<Longrightarrow> at_Request (h_atts h' a) = at_Request (h_atts h a) \<and>
      at_Indexes (h_atts h' a) = at_Indexes (h_atts h a) \<and> at_RoundStatus (h_atts h' a) = at_RoundStatus (h_atts h a)"
  shows "round_atts_ok K h' r"
proof -
  have "r_attestationMap r k = Some a \<longleftrightarrow> a \<in> set (r_Attestations r) \<and> K (at_Request (h_atts h' a)) = k" for k a
    unfolding round_map_iff [OF assms(1)] using assms(2) [of a] by (cases "a \<in> set (r_Attestations r)") simp_all
  moreover have "earliest_first (at_Indexes (h_atts h' a)) \<and> at_RoundStatus (h_atts h' a) = RoundStatusOf (r_Status r)"
    if a: "a \<in> set (r_Attestations r)" for a
    using assms(2) [OF a] assms(1) a by (simp add: round_atts_ok_def)
  moreover have "distinct (r_Attestations r)" using assms(1) by (simp add: round_atts_ok_def)
  ultimately show ?thesis unfolding round_atts_ok_def by blast
qed

text \<open>A change of the heap that keeps every attestation's request, positions and status cell.\<close>

definition heap_same :: "'arg heap \<Rightarrow> 'arg heap \<Rightarrow> bool" where
  "heap_same h h' \<longleftrightarrow> (\<forall>a. at_Request (h_atts h' a) = at_Request (h_atts h a) \<and>
     at_Indexes (h_atts h' a) = at_Indexes (h_atts h a) \<and> at_RoundStatus (h_atts h' a) = at_RoundStatus (h_atts h a))"

lemma round_atts_ok_same: "heap_same h h' \<Longrightarrow> round_atts_ok K h r \<Longrightarrow> round_atts_ok K h' r"
  by (rule round_atts_ok_heap) (simp_all add: heap_same_def)

lemma round_in_manager_same:
  "round_in_manager K m ra r \<Longrightarrow> heap_same (m_heap m) (m_heap m') \<Longrightarrow> m_next m \<le> m_next m' \<Longrightarrow> round_in_manager K m' ra r"
  unfolding round_in_manager_def by (meson less_le_trans round_atts_ok_same)

lemma heap_same_atts:
  "same_request (h_atts h a) att \<Longrightarrow> heap_same h (h\<lparr>h_atts := (h_atts h)(a := att)\<rparr>)"
  by (simp add: heap_same_def same_request_def)

lemma manager_ok_heap:
  assumes "manager_ok L K m" "heap_same (m_heap m) h"
  shows "manager_ok L K (m\<lparr>m_heap := h\<rparr>)"
proof (rule manager_okI)
  fix ra r assume "m_round (m\<lparr>m_heap := h\<rparr>) ra = Some r"
  then have "round_in_manager K m ra r" using manager_okD(1) [OF assms(1)] by simp
  then show "round_in_manager K (m\<lparr>m_heap := h\<rparr>) ra r" by (rule round_in_manager_same) (simp_all add: assms(2))
next
  show "m_round (m\<lparr>m_heap := h\<rparr>) ra = Some r \<Longrightarrow> m_round (m\<lparr>m_heap := h\<rparr>) ra' = Some r' \<Longrightarrow>
      a \<in> set (r_Attestations r) \<Longrightarrow> a \<in> set (r_Attestations r') \<Longrightarrow> ra = ra'" for ra ra' r r' a
    using manager_okD(2) [OF assms(1), of ra r ra' r' a] by simp
  show "cy_Get L (m_Rounds (m\<lparr>m_heap := h\<rparr>)) k = Some ra \<Longrightarrow> \<exists>r. m_round (m\<lparr>m_heap := h\<rparr>) ra = Some r \<and> r_ID r = k" for k ra
    using manager_okD(3) [OF assms(1), of k ra] by simp
qed

lemma manager_ok_queues [simp]:
  "manager_ok L K (m\<lparr>m_queues := q\<rparr>) = manager_ok L K m" "manager_ok L K (m\<lparr>m_policies := p\<rparr>) = manager_ok L K m"
  by (simp_all add: manager_ok_def round_in_manager_def)

lemma manager_ok_round:
  assumes ok: "manager_ok L K m" and old: "m_round m ra = Some r0"
    and r: "round_in_manager K m ra r" "set (r_Attestations r) = set (r_Attestations r0)" "r_ID r = r_ID r0"
  shows "manager_ok L K (m\<lparr>m_round := (m_round m)(ra \<mapsto> r)\<rparr>)"
proof (rule manager_okI)
  fix ra' r' assume "m_round (m\<lparr>m_round := (m_round m)(ra \<mapsto> r)\<rparr>) ra' = Some r'"
  then have "round_in_manager K m ra' r'" using manager_okD(1) [OF ok] r(1) by (auto split: if_splits)
  then show "round_in_manager K (m\<lparr>m_round := (m_round m)(ra \<mapsto> r)\<rparr>) ra' r'" by (simp add: round_in_manager_def)
next
  fix ra1 ra2 r1 r2 a
  assume "m_round (m\<lparr>m_round := (m_round m)(ra \<mapsto> r)\<rparr>) ra1 = Some r1"
    "m_round (m\<lparr>m_round := (m_round m)(ra \<mapsto> r)\<rparr>) ra2 = Some r2" "a \<in> set (r_Attestations r1)" "a \<in> set (r_Attestations r2)"
  then show "ra1 = ra2"
    using manager_okD(2) [OF ok, of ra1 _ ra2 _ a] old r(2) by (auto split: if_splits)
next
  fix k ra' assume "cy_Get L (m_Rounds (m\<lparr>m_round := (m_round m)(ra \<mapsto> r)\<rparr>)) k = Some ra'"
  then show "\<exists>r'. m_round (m\<lparr>m_round := (m_round m)(ra \<mapsto> r)\<rparr>) ra' = Some r' \<and> r_ID r' = k"
    using manager_okD(3) [OF ok, of k ra'] old r(3) by auto
qed

section \<open>The handlers keep the invariant\<close>

lemma round_New_ok: "round_atts_ok K (fst (Round_New h c k vs)) (snd (Round_New h c k vs))" "bitvotes_ok (snd (Round_New h c k vs))"
  by (simp_all add: Round_New_def round_atts_ok_def bitvotes_ok_def)

text \<open>The state in which a round has been created.\<close>

definition create_round ::
  "('s, 'p, 'sp, 'q) lib \<Rightarrow> ('arg, 's, 'p, 'q) Manager \<Rightarrow> u32 \<Rightarrow> VoterSet \<Rightarrow> ('arg, 's, 'p, 'q) Manager" where
  "create_round L m k vs =
     m\<lparr>m_heap := fst (Round_New (m_heap m) (m_next m) k vs),
       m_round := (m_round m)(m_next m \<mapsto> snd (Round_New (m_heap m) (m_next m) k vs)),
       m_next := Suc (m_next m), m_lastRoundCreated := k, m_Rounds := cy_Store L (m_Rounds m) k (m_next m)\<rparr>"

lemma create_round_simps [simp]:
  "m_round (create_round L m k vs) = (m_round m)(m_next m \<mapsto> snd (Round_New (m_heap m) (m_next m) k vs))"
  "m_next (create_round L m k vs) = Suc (m_next m)" "h_atts (m_heap (create_round L m k vs)) = h_atts (m_heap m)"
  "m_Rounds (create_round L m k vs) = cy_Store L (m_Rounds m) k (m_next m)"
  "m_types (create_round L m k vs) = m_types m" "m_queues (create_round L m k vs) = m_queues m"
  "m_heap (create_round L m k vs) = fst (Round_New (m_heap m) (m_next m) k vs)"
  by (simp_all add: create_round_def Round_New_def)

lemma GetOrCreateRound_cases:
  obtains (found) ra where "cy_Get L (m_Rounds m) k = Some ra" "GetOrCreateRound L m k = (m, Inr ra)"
    | (no_policy) "cy_Get L (m_Rounds m) k = None" "sp_ForVotingRound L (m_policies m) k = None"
        "GetOrCreateRound L m k = (m, Inl (NoSigningPolicy k))"
    | (created) vs where "cy_Get L (m_Rounds m) k = None" "sp_ForVotingRound L (m_policies m) k = Some vs"
        "GetOrCreateRound L m k = (create_round L m k vs, Inr (m_next m))"
proof (cases "cy_Get L (m_Rounds m) k")
  case (Some ra)
  then show thesis by (intro found) (simp_all add: GetOrCreateRound_def)
next
  case None
  show thesis
  proof (cases "sp_ForVotingRound L (m_policies m) k")
    case None': None
    with None show thesis by (intro no_policy) (simp_all add: GetOrCreateRound_def)
  next
    case (Some vs)
    with None show thesis by (intro created) (simp_all add: GetOrCreateRound_def create_round_def case_prod_beta Let_def)
  qed
qed

lemma create_round_ok:
  assumes L: "cyclic_ok L" and ok: "manager_ok L K m"
  shows "manager_ok L K (create_round L m k vs)"
proof -
  let ?n = "m_next m" and ?m = "create_round L m k vs"
  let ?r = "snd (Round_New (m_heap m) ?n k vs)"
  have fresh: "m_round m ?n = None"
    using manager_okD(1) [OF ok, of ?n] by (cases "m_round m ?n") (auto simp: round_in_manager_def)
  have heap: "heap_same (m_heap m) (m_heap ?m)" by (simp add: heap_same_def)
  have old: "round_in_manager K ?m ra r" if "m_round m ra = Some r" for ra r
    by (rule round_in_manager_same [OF manager_okD(1) [OF ok that] heap]) simp
  have new: "round_in_manager K ?m ?n ?r"
    using round_New_ok(1) [of K "m_heap m" ?n k vs] round_New_ok(2) [of "m_heap m" ?n k vs]
    by (simp add: round_in_manager_def) (simp add: Round_New_def)
  have r0: "r_Attestations ?r = []" "r_ID ?r = k" by (simp_all add: Round_New_def)
  show ?thesis
  proof (rule manager_okI)
    fix ra r assume "m_round ?m ra = Some r"
    then show "round_in_manager K ?m ra r" using old [of ra r] new by (cases "ra = ?n") simp_all
  next
    fix ra1 ra2 r1 r2 a
    assume "m_round ?m ra1 = Some r1" "m_round ?m ra2 = Some r2" "a \<in> set (r_Attestations r1)" "a \<in> set (r_Attestations r2)"
    then show "ra1 = ra2"
      using manager_okD(2) [OF ok, of ra1 r1 ra2 r2 a] r0 by (cases "ra1 = ?n"; cases "ra2 = ?n") auto
  next
    fix k' ra assume g: "cy_Get L (m_Rounds ?m) k' = Some ra"
    show "\<exists>r. m_round ?m ra = Some r \<and> r_ID r = k'"
    proof (cases "k' = k")
      case True
      with g L have "ra = ?n" by (simp add: cyclic_ok_def)
      with True r0 show ?thesis by simp
    next
      case False
      have "cy_Get L (m_Rounds ?m) k' = None \<or> cy_Get L (m_Rounds ?m) k' = cy_Get L (m_Rounds m) k'"
        using L False by (simp add: cyclic_ok_def)
      with g obtain r where r: "m_round m ra = Some r" "r_ID r = k'" using manager_okD(3) [OF ok, of k' ra] by force
      with fresh have "ra \<noteq> ?n" by auto
      with r show ?thesis by simp
    qed
  qed
qed

lemma GetOrCreateRound_ok:
  assumes "cyclic_ok L" "manager_ok L K m" "GetOrCreateRound L m k = (m', out)"
  shows "manager_ok L K m'" "out = Inr ra \<Longrightarrow> \<exists>r. m_round m' ra = Some r \<and> r_ID r = k"
    "m_next m \<le> m_next m'" "h_atts (m_heap m') = h_atts (m_heap m)"
    "m_round m' ra' = Some r' \<Longrightarrow> a \<in> set (r_Attestations r') \<Longrightarrow> m_round m ra' = Some r'"
proof -
  have "manager_ok L K m' \<and> (out = Inr ra \<longrightarrow> (\<exists>r. m_round m' ra = Some r \<and> r_ID r = k)) \<and>
    m_next m \<le> m_next m' \<and> h_atts (m_heap m') = h_atts (m_heap m) \<and>
    (m_round m' ra' = Some r' \<longrightarrow> a \<in> set (r_Attestations r') \<longrightarrow> m_round m ra' = Some r')"
  proof (cases rule: GetOrCreateRound_cases [where L = L and m = m and k = k])
    case (found x)
    then show ?thesis using assms manager_okD(3) [OF assms(2) found(1)] by auto
  next
    case no_policy
    then show ?thesis using assms by auto
  next
    case (created vs)
    then have m': "m' = create_round L m k vs" "out = Inr (m_next m)" using assms(3) by simp_all
    show ?thesis
      using create_round_ok [OF assms(1,2), of k vs] unfolding m' by (auto simp: Round_New_def split: if_splits)
  qed
  then show "manager_ok L K m'" "out = Inr ra \<Longrightarrow> \<exists>r. m_round m' ra = Some r \<and> r_ID r = k"
    "m_next m \<le> m_next m'" "h_atts (m_heap m') = h_atts (m_heap m)"
    "m_round m' ra' = Some r' \<Longrightarrow> a \<in> set (r_Attestations r') \<Longrightarrow> m_round m ra' = Some r'" by blast+
qed


lemma OnBitVote_ok [wf_keep]:
  assumes "cyclic_ok L" "manager_ok L K m"
  shows "manager_ok L K (fst (OnBitVote L C m message))"
proof -
  obtain m1 out where g: "GetOrCreateRound L m (msg_VotingRound message) = (m1, out)" by fastforce
  note ok1 = GetOrCreateRound_ok [OF assms g]
  have "manager_ok L K (m1\<lparr>m_round := (m_round m1)(ra \<mapsto> fst (ProcessBitVote (the (m_round m1 ra)) message))\<rparr>)"
    if ra: "out = Inr ra" for ra
  proof -
    obtain r where r: "m_round m1 ra = Some r" using ok1(2) [OF ra] by blast
    have "round_in_manager K m1 ra r" by (rule manager_okD(1) [OF ok1(1) r])
    then have "round_in_manager K m1 ra (fst (ProcessBitVote r message))"
      by (auto simp: round_in_manager_def frame round_atts_ok_fields [of "fst (ProcessBitVote r message)" r] intro: wf_keep)
    then show ?thesis using manager_ok_round [OF ok1(1) r] by (simp add: r frame)
  qed
  then show ?thesis
    using assms(2) ok1(1) by (auto simp: OnBitVote_def g case_prod_beta Let_def split: sum.splits option.splits)
qed

lemma AddToQueue_ok [wf_keep]:
  assumes "manager_ok L K m"
  shows "manager_ok L K (fst (AddToQueue L m a))"
proof -
  obtain att err where p: "PrepareRequest (m_types m) (h_atts (m_heap m) a) = (att, err)" by fastforce
  let ?m = "m\<lparr>m_heap := (m_heap m)\<lparr>h_atts := (h_atts (m_heap m))(a := att)\<rparr>\<rparr>"
  have "manager_ok L K ?m"
    using PrepareRequest_same [of "h_atts (m_heap m) a" "m_types m"] p
    by (intro manager_ok_heap [OF assms] heap_same_atts) simp
  moreover have "\<exists>q. fst (AddToQueue L m a) = ?m\<lparr>m_queues := q\<rparr>"
    unfolding AddToQueue_def p Let_def prod.case
    by (cases err; cases "m_queues m (at_QueueName att)") (auto intro: exI [of _ "m_queues m"])
  ultimately show ?thesis by (metis manager_ok_queues(1))
qed

lemma alloc_att_ok:
  assumes "manager_ok L K m"
  shows "manager_ok L K (m\<lparr>m_heap := (m_heap m)\<lparr>h_atts := (h_atts (m_heap m))(m_next m := att)\<rparr>, m_next := Suc (m_next m)\<rparr>)"
    (is "manager_ok L K ?m")
proof (rule manager_okI)
  fix ra r assume "m_round ?m ra = Some r"
  then have r: "round_in_manager K m ra r" using manager_okD(1) [OF assms] by simp
  have "round_atts_ok K (m_heap ?m) r"
    by (rule round_atts_ok_heap [of K "m_heap m"]) (use r in \<open>auto simp: round_in_manager_def\<close>)
  with r show "round_in_manager K ?m ra r" by (auto simp: round_in_manager_def)
next
  show "m_round ?m ra = Some r \<Longrightarrow> m_round ?m ra' = Some r' \<Longrightarrow>
      a \<in> set (r_Attestations r) \<Longrightarrow> a \<in> set (r_Attestations r') \<Longrightarrow> ra = ra'" for ra ra' r r' a
    using manager_okD(2) [OF assms, of ra r ra' r' a] by simp
  show "cy_Get L (m_Rounds ?m) k = Some ra \<Longrightarrow> \<exists>r. m_round ?m ra = Some r \<and> r_ID r = k" for k ra
    using manager_okD(3) [OF assms, of k ra] by simp
qed

lemma AddAttestation_manager_ok:
  assumes ok: "manager_ok L K m" and r: "m_round m ra = Some r"
    and n: "n < m_next m" "\<And>ra' r'. m_round m ra' = Some r' \<Longrightarrow> n \<notin> set (r_Attestations r')"
      "earliest_first (at_Indexes (h_atts (m_heap m) n))"
    and add: "AddAttestation K (m_heap m) r n = Some (h, r', added)"
  shows "manager_ok L K (m\<lparr>m_heap := h, m_round := (m_round m)(ra \<mapsto> r')\<rparr>)" (is "manager_ok L K ?m")
proof -
  have rm: "round_in_manager K m ra r" by (rule manager_okD(1) [OF ok r])
  then have rok: "round_atts_ok K (m_heap m) r" by (simp add: round_in_manager_def)
  note f = AddAttestation_fields [OF add]
  have here: "round_in_manager K ?m ra r'"
  proof -
    have "round_atts_ok K h r'" by (rule AddAttestation_ok [OF rok n(2) [OF r] n(3) add])
    moreover have "bitvotes_ok r'" using rm bitvotes_ok_fields [OF f(3,4,5)] by (simp add: round_in_manager_def)
    moreover have "\<forall>a\<in>set (r_Attestations r'). a < m_next m" using rm f(6) n(1) by (auto simp: round_in_manager_def)
    ultimately show ?thesis using rm f(2) by (simp add: round_in_manager_def)
  qed
  have there: "round_in_manager K ?m ra2 r2" if r2: "m_round m ra2 = Some r2" "ra2 \<noteq> ra" for ra2 r2
  proof -
    have rm2: "round_in_manager K m ra2 r2" by (rule manager_okD(1) [OF ok r2(1)])
    have "h_atts h a = h_atts (m_heap m) a" if a: "a \<in> set (r_Attestations r2)" for a
      using AddAttestation_elsewhere [OF add rok, of a] n(2) [OF r2(1)] manager_okD(2) [OF ok r2(1) r a] r2(2) a by blast
    then have "round_atts_ok K h r2"
      by (intro round_atts_ok_heap [of K "m_heap m" r2 h]) (use rm2 in \<open>simp_all add: round_in_manager_def\<close>)
    with rm2 show ?thesis by (simp add: round_in_manager_def)
  qed
  show ?thesis
  proof (rule manager_okI)
    show "m_round ?m ra' = Some x \<Longrightarrow> round_in_manager K ?m ra' x" for ra' x
      using here there [of ra' x] by (cases "ra' = ra") simp_all
  next
    fix ra1 ra2 r1 r2 a
    assume a: "m_round ?m ra1 = Some r1" "m_round ?m ra2 = Some r2" "a \<in> set (r_Attestations r1)" "a \<in> set (r_Attestations r2)"
    have old: "\<exists>x. m_round m ra' = Some x \<and> (a \<in> set (r_Attestations x) \<or> ra' = ra \<and> a = n)"
      if "m_round ?m ra' = Some x" "a \<in> set (r_Attestations x)" for ra' x
      using that f(6) r by (cases "ra' = ra") auto
    from old [OF a(1,3)] old [OF a(2,4)] obtain x1 x2 where
      x: "m_round m ra1 = Some x1" "a \<in> set (r_Attestations x1) \<or> ra1 = ra \<and> a = n"
        "m_round m ra2 = Some x2" "a \<in> set (r_Attestations x2) \<or> ra2 = ra \<and> a = n" by blast
    show "ra1 = ra2"
    proof (cases "a = n")
      case True
      with x n(2) show ?thesis by blast
    next
      case False
      with x manager_okD(2) [OF ok x(1,3), of a] show ?thesis by simp
    qed
  next
    show "cy_Get L (m_Rounds ?m) k = Some ra' \<Longrightarrow> \<exists>x. m_round ?m ra' = Some x \<and> r_ID x = k" for k ra'
      using manager_okD(3) [OF ok, of k ra'] r f(1) by (cases "ra' = ra") auto
  qed
qed

lemma OnRequest_ok [wf_keep]:
  fixes m :: "('arg, 's, 'p, 'q) Manager"
  assumes L: "cyclic_ok L" and ok: "manager_ok L K m" and res: "OnRequest L parse K C m request = Some (m', err)"
  shows "manager_ok L K m'"
proof (cases "AttestationFromDatabaseLog parse C request :: AttError + 'arg Attestation")
  case (Inl e)
  with res ok show ?thesis by (simp add: OnRequest_def)
next
  case (Inr att)
  let ?n = "m_next m"
  define m1 where "m1 = m\<lparr>m_heap := (m_heap m)\<lparr>h_atts := (h_atts (m_heap m))(?n := att)\<rparr>, m_next := Suc ?n\<rparr>"
  have ok1: "manager_ok L K m1" unfolding m1_def by (rule alloc_att_ok [OF ok])
  obtain m2 out where g: "GetOrCreateRound L m1 (at_RoundID att) = (m2, out)" by fastforce
  note ok2 = GetOrCreateRound_ok [OF L ok1 g]
  have att: "h_atts (m_heap m2) ?n = att" "earliest_first (at_Indexes att)"
    using ok2(4) Inr by (auto simp: m1_def AttestationFromDatabaseLog_def earliest_first_def EarlierLog_def split: option.splits sum.splits)
  have fresh: "?n \<notin> set (r_Attestations r)" if r: "m_round m2 ra = Some r" for ra r
  proof
    assume n: "?n \<in> set (r_Attestations r)"
    then have "m_round m ra = Some r" using ok2(5) [OF r n] by (simp add: m1_def)
    then show False using manager_okD(1) [OF ok] n by (auto simp: round_in_manager_def)
  qed
  have res2: "(case out of Inl e \<Rightarrow> Some (m2, Some e) | Inr ra \<Rightarrow>
      (case AddAttestation K (m_heap m2) (the (m_round m2 ra)) ?n of None \<Rightarrow> None
       | Some (h, r, added) \<Rightarrow>
           (let m = m2\<lparr>m_heap := h, m_round := (m_round m2)(ra \<mapsto> r)\<rparr> in Some (if added then AddToQueue L m ?n else (m, None))))) = Some (m', err)"
    using res Inr g unfolding OnRequest_def m1_def by (auto simp: Let_def split: sum.splits)
  show ?thesis
  proof (cases out)
    case (Inl e)
    with res2 ok2(1) show ?thesis by simp
  next
    case (Inr ra)
    obtain r where r: "m_round m2 ra = Some r" using ok2(2) [OF Inr] by blast
    obtain h r' added where add: "AddAttestation K (m_heap m2) r ?n = Some (h, r', added)"
      using res2 Inr r by (auto split: option.splits)
    have "?n < m_next m2" using ok2(3) by (simp add: m1_def)
    then have ok3: "manager_ok L K (m2\<lparr>m_heap := h, m_round := (m_round m2)(ra \<mapsto> r')\<rparr>)" (is "manager_ok L K ?m3")
      by (intro AddAttestation_manager_ok [OF ok2(1) r _ fresh _ add]) (simp_all add: att)
    have "m' = fst (if added then AddToQueue L ?m3 ?n else (?m3, None))"
      using res2 Inr r add by (auto simp: Let_def)
    then show ?thesis using AddToQueue_ok [OF ok3, of ?n] ok3 by simp
  qed
qed


lemma OnSigningPolicy_ok [wf_keep]: "manager_ok L K m \<Longrightarrow> manager_ok L K (fst (OnSigningPolicy L m d))"
  by (auto simp: OnSigningPolicy_def Let_def split: option.splits)

lemma Run_signingPolicies_ok [wf_keep]:
  assumes "manager_ok L K m"
  shows "manager_ok L K (Run_signingPolicies L m ds)"
proof -
  have "manager_ok L K (foldl (\<lambda>m d. fst (OnSigningPolicy L m d)) m ds)"
    using assms by (induction ds arbitrary: m) (auto intro: wf_keep)
  then show ?thesis by (simp add: Run_signingPolicies_def Let_def)
qed

lemma Run_initialPolicies_ok [wf_keep]:
  "manager_ok L K m \<Longrightarrow> Run_initialPolicies L m ds = Some m' \<Longrightarrow> manager_ok L K m'"
proof (induction ds arbitrary: m)
  case (Cons d ds)
  obtain m1 where "OnSigningPolicy L m d = (m1, None)" "Run_initialPolicies L m1 ds = Some m'"
    using Cons.prems(2) by (auto split: prod.splits option.splits)
  then show ?case using Cons.IH OnSigningPolicy_ok [OF Cons.prems(1), of d] by simp
qed simp

lemma policy_shutdowns_none:
  "Run_initialPolicies L m ds \<noteq> None \<longleftrightarrow> policy_shutdowns L C m ds = []"
  by (induction ds arbitrary: m) (auto split: prod.splits option.splits)

lemma retryUnsuccessfulChosen_ok [wf_keep]:
  "manager_ok L K m \<Longrightarrow> manager_ok L K (fst (retryUnsuccessfulChosen L m r))"
  by (simp add: retryUnsuccessfulChosen_def case_prod_beta Let_def)

lemma ComputeConsensus_manager_ok:
  assumes ok: "manager_ok L K m" and r: "m_round m ra = Some r"
    and res: "ComputeConsensusBitVote (m_heap m) r = Some (h, r', err)"
  shows "manager_ok L K (m\<lparr>m_heap := h, m_round := (m_round m)(ra \<mapsto> r')\<rparr>)"
proof -
  note f = ComputeConsensus_fields [OF res]
  have same: "heap_same (m_heap m) h" unfolding heap_same_def
  proof
    fix a
    obtain c where "h_atts h a = (h_atts (m_heap m) a)\<lparr>at_Consensus := c\<rparr>" using f(8) [of a] by blast
    then show "at_Request (h_atts h a) = at_Request (h_atts (m_heap m) a) \<and> at_Indexes (h_atts h a) = at_Indexes (h_atts (m_heap m) a) \<and>
        at_RoundStatus (h_atts h a) = at_RoundStatus (h_atts (m_heap m) a)" by simp
  qed
  have ok1: "manager_ok L K (m\<lparr>m_heap := h\<rparr>)" by (rule manager_ok_heap [OF ok same])
  have r1: "m_round (m\<lparr>m_heap := h\<rparr>) ra = Some r" by (simp add: r)
  have rm: "round_in_manager K (m\<lparr>m_heap := h\<rparr>) ra r" by (rule manager_okD(1) [OF ok1 r1])
  have sets: "set (r_Attestations r') = set (r_Attestations r)" by (rule mset_eq_setD [OF f(7)])
  have dist: "distinct (r_Attestations r') = distinct (r_Attestations r)" by (rule mset_eq_imp_distinct_iff [OF f(7)])
  have "round_atts_ok K h r'"
    using rm unfolding round_in_manager_def round_atts_ok_def by (simp add: sets dist f(2,3))
  moreover have "bitvotes_ok r'" using rm bitvotes_ok_fields [OF f(4,5,6)] by (simp add: round_in_manager_def)
  ultimately have "round_in_manager K (m\<lparr>m_heap := h\<rparr>) ra r'" using rm f(2) sets by (simp add: round_in_manager_def)
  from manager_ok_round [OF ok1 r1 this sets f(1)] show ?thesis by simp
qed

lemma Run_bitVotes_ok [wf_keep]:
  assumes L: "cyclic_ok L" and ok: "manager_ok L K m" and res: "Run_bitVotes L C m k ms = Some m'"
  shows "manager_ok L K m'"
proof -
  define m1 where "m1 = foldl (\<lambda>m message. fst (OnBitVote L C m message)) m ms"
  have ok1: "manager_ok L K m1"
    unfolding m1_def using ok by (induction ms arbitrary: m) (auto intro: OnBitVote_ok [OF L])
  note d = res [unfolded Run_bitVotes_def m1_def [symmetric] Let_def]
  show ?thesis
  proof (cases "cy_Get L (m_Rounds m1) k")
    case None
    with d ok1 show ?thesis by simp
  next
    case (Some ra)
    obtain r where r: "m_round m1 ra = Some r" using manager_okD(3) [OF ok1 Some] by blast
    obtain h r' err where c: "ComputeConsensusBitVote (m_heap m1) r = Some (h, r', err)"
      using d Some r by (auto split: option.splits)
    let ?m = "m1\<lparr>m_heap := h, m_round := (m_round m1)(ra \<mapsto> r')\<rparr>"
    have ok2: "manager_ok L K ?m" by (rule ComputeConsensus_manager_ok [OF ok1 r c])
    have "m' = (if err = None then fst (retryUnsuccessfulChosen L ?m r') else ?m)" using d Some r c by simp
    then show ?thesis using ok2 retryUnsuccessfulChosen_ok [OF ok2] by simp
  qed
qed

lemma Run_requests_ok [wf_keep]:
  assumes L: "cyclic_ok L"
  shows "manager_ok L K m \<Longrightarrow> Run_requests L parse K C m logs = Some m' \<Longrightarrow> manager_ok L K m'"
proof (induction logs arbitrary: m)
  case (Cons l logs)
  from Cons.prems(2) obtain m1 err where "OnRequest L parse K C m l = Some (m1, err)" "Run_requests L parse K C m1 logs = Some m'"
    by (auto split: option.splits)
  with Cons.IH OnRequest_ok [OF L Cons.prems(1)] show ?case by blast
qed simp

lemma run_dequeued_ok [wf_keep]:
  assumes "manager_ok L K m"
  shows "manager_ok L K (run_dequeued H A K' C m a)"
proof -
  have "manager_ok L K (fst (handler H A K' C m a))"
    unfolding handler_def using Handle_same [of "h_atts (m_heap m) a" H A K' C]
    by (auto simp: case_prod_beta Let_def intro!: manager_ok_heap [OF assms] heap_same_atts)
  with assms show ?thesis by (simp add: run_dequeued_def)
qed

text \<open>A round replaced by one with the same attestations and votes, with the attestations themselves untouched.\<close>

lemma manager_ok_replace:
  assumes ok: "manager_ok L K m" and old: "m_round m ra = Some r0" and h: "h_atts h = h_atts (m_heap m)"
    and atts: "mset (r_Attestations r) = mset (r_Attestations r0)"
    and r: "r_ID r = r_ID r0" "r_Status r = r_Status r0" "r_attestationMap r = r_attestationMap r0"
      "r_bitVotes r = r_bitVotes r0" "r_bitVoteCheckList r = r_bitVoteCheckList r0" "r_voterSet r = r_voterSet r0"
  shows "manager_ok L K (m\<lparr>m_heap := h, m_round := (m_round m)(ra \<mapsto> r)\<rparr>)"
proof -
  have same: "heap_same (m_heap m) h" by (simp add: heap_same_def h)
  have ok1: "manager_ok L K (m\<lparr>m_heap := h\<rparr>)" by (rule manager_ok_heap [OF ok same])
  have r1: "m_round (m\<lparr>m_heap := h\<rparr>) ra = Some r0" by (simp add: old)
  have rm: "round_in_manager K (m\<lparr>m_heap := h\<rparr>) ra r0" by (rule manager_okD(1) [OF ok1 r1])
  have sets: "set (r_Attestations r) = set (r_Attestations r0)" by (rule mset_eq_setD [OF atts])
  have dist: "distinct (r_Attestations r) = distinct (r_Attestations r0)" by (rule mset_eq_imp_distinct_iff [OF atts])
  have "round_atts_ok K h r"
    using rm unfolding round_in_manager_def round_atts_ok_def by (simp add: sets dist r)
  moreover have "bitvotes_ok r" using rm bitvotes_ok_fields [OF r(4-6)] by (simp add: round_in_manager_def)
  ultimately have "round_in_manager K (m\<lparr>m_heap := h\<rparr>) ra r" using rm r(2) sets by (simp add: round_in_manager_def)
  from manager_ok_round [OF ok1 r1 this sets r(1)] show ?thesis by simp
qed

section \<open>Reachable managers\<close>

text \<open>
  \<^verbatim>\<open>New\<close> with the storage and the queues it is given; then any sequence of receives and of dequeued
  attestations.
\<close>

definition Manager_New ::
  "'s \<Rightarrow> 'p \<Rightarrow> (bytes \<rightharpoonup> 'arg AttestationType) \<Rightarrow> (string \<rightharpoonup> 'q) \<Rightarrow> 'arg heap \<Rightarrow> ('arg, 's, 'p, 'q) Manager" where
  "Manager_New rounds policies types queues h =
     \<lparr>m_Rounds = rounds, m_lastRoundCreated = 0, m_policies = policies, m_types = types, m_queues = queues,
      m_heap = h, m_round = Map.empty, m_next = 0\<rparr>"

inductive manager_reach ::
  "('s, 'p, 'sp, 'q) lib \<Rightarrow> ('m dbLog_scheme \<Rightarrow> (bytes \<times> int) option) \<Rightarrow> (bytes \<Rightarrow> bytes) \<Rightarrow> Timing \<Rightarrow>
   ('arg, 'val) abi \<Rightarrow> ('arg, 's, 'p, 'q) Manager \<Rightarrow> ('arg, 's, 'p, 'q) Manager \<Rightarrow> bool"
  for L parse K C A m0 where
  start: "manager_reach L parse K C A m0 m0"
| initial: "manager_reach L parse K C A m0 m \<Longrightarrow> Run_initialPolicies L m ds = Some m' \<Longrightarrow> manager_reach L parse K C A m0 m'"
| policies: "manager_reach L parse K C A m0 m \<Longrightarrow> manager_reach L parse K C A m0 (Run_signingPolicies L m ds)"
| bitVotes: "manager_reach L parse K C A m0 m \<Longrightarrow> Run_bitVotes L C m k ms = Some m' \<Longrightarrow> manager_reach L parse K C A m0 m'"
| requests: "manager_reach L parse K C A m0 m \<Longrightarrow> Run_requests L parse K C m logs = Some m' \<Longrightarrow> manager_reach L parse K C A m0 m'"
| dequeued: "manager_reach L parse K C A m0 m \<Longrightarrow> manager_reach L parse K C A m0 (run_dequeued H A K C m a)"

lemma manager_reach_ok:
  assumes "manager_reach L parse K C A m0 m" "cyclic_ok L" "manager_ok L K m0"
  shows "manager_ok L K m"
  using assms by (induction rule: manager_reach.induct) (auto intro: wf_keep)

lemma Manager_New_ok: "cy_Get L s = (\<lambda>_. None) \<Longrightarrow> manager_ok L K (Manager_New s p t q h)"
  by (simp add: manager_ok_def Manager_New_def)

section \<open>Checks\<close>

lemma VotersDataCheck_iff:
  "VotersDataCheck d = None \<longleftrightarrow> (\<forall>v\<in>set (pol_Voters (vdt_Policy d)). \<exists>s. (s, v) \<in> set (vdt_SubmitToSigningAddress d))"
proof -
  have "Invert (vdt_SubmitToSigningAddress d) v = None \<longleftrightarrow> (\<forall>s. (s, v) \<notin> set (vdt_SubmitToSigningAddress d))" for v
    using dom_Invert [of "vdt_SubmitToSigningAddress d"] by (force simp: dom_def image_iff)
  then show ?thesis by (auto simp: VotersDataCheck_def Let_def find_None_iff)
qed

lemma retry_loop_count:
  "retry_loop L as qs n = (qs', Inr k) \<Longrightarrow> k = n + length (filter (\<lambda>(a, att). at_Consensus att \<and> at_Status att \<noteq> Success) as)"
  by (induction L as qs n rule: retry_loop.induct) (auto split: if_splits option.splits)

lemma OnBitVote_outside:
  "msg_Timestamp msg < ChooseStartTS C (msg_VotingRound msg) \<or> ChooseEndTS C (msg_VotingRound msg) \<le> msg_Timestamp msg \<Longrightarrow>
   fst (OnBitVote L C m msg) = m"
  by (auto simp: OnBitVote_def)

section \<open>Retries\<close>

abbreviation (input) unconfirmed :: "'arg Attestation \<Rightarrow> bool" where
  "unconfirmed att \<equiv> at_Consensus att \<and> at_Status att \<noteq> Success"

text \<open>The additions that a list of attestations makes to the queue of one name, in order.\<close>

definition queue_adds ::
  "('s, 'p, 'sp, 'q) lib \<Rightarrow> string \<Rightarrow> (nat \<times> 'arg Attestation) list \<Rightarrow> 'q \<Rightarrow> 'q" where
  "queue_adds L name as queue =
     fold (\<lambda>(a, att) queue. q_AddFast L queue a \<lparr>wt_Index = index_of att\<rparr>) (filter (\<lambda>(a, att). at_QueueName att = name) as) queue"

lemma retry_loop_queues:
  "retry_loop L as qs n = (qs', Inr k) \<Longrightarrow>
   qs' name = map_option (queue_adds L name (filter (\<lambda>(a, att). unconfirmed att) as)) (qs name)"
proof (induction L as qs n rule: retry_loop.induct)
  case (1 L qs n)
  then show ?case by (simp add: queue_adds_def option.map_ident)
next
  case (2 L a att rest qs n)
  show ?case
  proof (cases "unconfirmed att")
    case True
    with "2.prems" obtain q where q: "qs (at_QueueName att) = Some q"
      and rest: "retry_loop L rest (qs(at_QueueName att \<mapsto> q_AddFast L q a \<lparr>wt_Index = index_of att\<rparr>)) (n + 1) = (qs', Inr k)"
      by (auto split: option.splits)
    from "2.IH"(1) [OF True q rest] show ?thesis
      using True q by (cases "name = at_QueueName att") (simp_all add: queue_adds_def)
  next
    case False
    with "2.prems" have "retry_loop L rest qs n = (qs', Inr k)" by simp
    from "2.IH"(2) [OF False this] False show ?thesis by (auto simp: queue_adds_def)
  qed
qed

section \<open>Properties\<close>

text \<open>A library instance: rounds in a map, one policy that always applies, queues as lists.\<close>

definition sample_lib :: "(u32 \<rightharpoonup> nat, VoterSet option, VoterSet, nat list) lib" where
  "sample_lib = \<lparr>cy_Get = (\<lambda>s. s), cy_Store = (\<lambda>s k v. s(k \<mapsto> v)), sp_New = (\<lambda>p s. sample_voters), sp_Add = (\<lambda>p v. Some (Some v)),
     sp_ForVotingRound = (\<lambda>p k. p), sp_RemoveBefore = (\<lambda>p k. (p, [])), q_Add = (\<lambda>q a w. q @ [a]), q_AddFast = (\<lambda>q a w. a # q)\<rparr>"

lemma sample_lib_cyclic [simp]: "cyclic_ok sample_lib"
  by (auto simp: cyclic_ok_def sample_lib_def)

definition sample_manager :: "(nat, u32 \<rightharpoonup> nat, VoterSet option, nat list) Manager" where
  "sample_manager = create_round sample_lib (Manager_New Map.empty (Some sample_voters) Map.empty [''q'' \<mapsto> []] sample_heap) 3 sample_voters"

lemma sample_manager_ok [simp]: "manager_ok sample_lib K sample_manager"
  unfolding sample_manager_def by (rule create_round_ok [OF sample_lib_cyclic Manager_New_ok]) (simp add: sample_lib_def)

text \<open>
  A new signing policy is taken exactly when every voter of it has a submit address, and the policy store
  accepts it; then the store holds it, and otherwise the error is reported and nothing changes.
\<close>

lemma signing_policy_accepted:
  "OnSigningPolicy L m data = (m', None) \<longleftrightarrow>
     (\<forall>v\<in>set (pol_Voters (vdt_Policy data)). \<exists>s. (s, v) \<in> set (vdt_SubmitToSigningAddress data)) \<and>
     (\<exists>ps. sp_Add L (m_policies m) (sp_New L (vdt_Policy data) (vdt_SubmitToSigningAddress data)) = Some ps \<and>
        m' = m\<lparr>m_policies := ps\<rparr>)"
  unfolding VotersDataCheck_iff [symmetric] by (auto simp: OnSigningPolicy_def Let_def split: option.splits)

text \<open>
  C27. No chosen attestation is forgotten: when the retry succeeds, every queue has got exactly the attestations
  of the round that are chosen, not confirmed and meant for it, in the order of the round, each put in with
  priority; and the number returned is the number of them.
\<close>

theorem retry_all_chosen:
  assumes "retryUnsuccessfulChosen L m r = (m', Inr k)"
  defines "chosen \<equiv> filter (\<lambda>(a, att). at_Consensus att \<and> at_Status att \<noteq> Success) (map (\<lambda>a. (a, h_atts (m_heap m) a)) (r_Attestations r))"
  shows "k = length chosen \<and> (\<forall>name. m_queues m' name = map_option (queue_adds L name chosen) (m_queues m name)) \<and>
    m' = m\<lparr>m_queues := m_queues m'\<rparr>"
proof -
  obtain qs where loop: "retry_loop L (map (\<lambda>a. (a, h_atts (m_heap m) a)) (r_Attestations r)) (m_queues m) 0 = (qs, Inr k)"
    and m': "m' = m\<lparr>m_queues := qs\<rparr>"
    using assms(1) by (auto simp: retryUnsuccessfulChosen_def split: prod.splits)
  from retry_loop_count [OF loop] retry_loop_queues [OF loop] m' show ?thesis by (simp add: chosen_def)
qed

theorem retry_all_chosen_witness:
  "\<exists>m'. retryUnsuccessfulChosen sample_lib
     (sample_manager\<lparr>m_heap := sample_heap\<lparr>h_atts := (\<lambda>n. (h_atts sample_heap n)\<lparr>at_Consensus := n < 3, at_QueueName := ''q''\<rparr>)\<rparr>\<rparr>)
     (sample_round\<lparr>r_Attestations := [2, 5, 1]\<rparr>) = (m', Inr 2) \<and> m_queues m' ''q'' = Some [1, 2]"
proof -
  let ?m = "sample_manager\<lparr>m_heap := sample_heap\<lparr>h_atts := (\<lambda>n. (h_atts sample_heap n)\<lparr>at_Consensus := n < 3, at_QueueName := ''q''\<rparr>)\<rparr>\<rparr>"
  let ?r = "sample_round\<lparr>r_Attestations := [2, 5, 1]\<rparr>"
  have q: "m_queues ?m ''q'' = Some []" by (simp add: sample_manager_def Manager_New_def)
  obtain m' where run: "retryUnsuccessfulChosen sample_lib ?m ?r = (m', Inr 2)"
    using q by (simp add: retryUnsuccessfulChosen_def sample_heap_def)
  from retry_all_chosen [OF run] q have "m_queues m' ''q'' = Some [1, 2]"
    by (simp add: sample_heap_def queue_adds_def sample_lib_def)
  with run show ?thesis by blast
qed

text \<open>
  A request log, end to end: the request is added to the round that the timestamp of its block belongs to,
  with its fee and its position, whether it is new or already there, whether or not its type is supported,
  and no other round changes.
\<close>

lemma request_reaches_round:
  fixes m :: "('arg, 's, 'p, 'q) Manager"
  assumes ok: "manager_ok L K m" and parse: "parse log = Some (data, fee)" "RoundIDForTS C (log_Timestamp log) = Inr k"
    and r: "cy_Get L (m_Rounds m) k = Some ra" "m_round m ra = Some r"
    and res: "OnRequest L parse K C m log = Some (m', err)"
  shows "\<exists>r'. m_round m' ra = Some r' \<and> cy_Get L (m_Rounds m') k = Some ra \<and>
    round_abs (m_heap m') r' =
      spec_add (K data) fee \<lparr>il_BlockNumber = log_BlockNumber log, il_LogIndex = log_LogIndex log\<rparr> (round_abs (m_heap m) r) \<and>
    (\<forall>ra'. ra' \<noteq> ra \<longrightarrow> m_round m' ra' = m_round m ra')"
proof -
  let ?i = "\<lparr>il_BlockNumber = log_BlockNumber log, il_LogIndex = log_LogIndex log\<rparr>" and ?a = "m_next m"
  obtain att :: "'arg Attestation" where att: "AttestationFromDatabaseLog parse C log = Inr att" "at_Indexes att = [?i]"
    "at_Request att = data" "at_Fee att = fee" "at_RoundID att = k"
    by (simp add: AttestationFromDatabaseLog_def parse)
  define h1 where "h1 = (m_heap m)\<lparr>h_atts := (h_atts (m_heap m))(?a := att)\<rparr>"
  have own: "h_atts h1 ?a = att" by (simp add: h1_def)
  define m1 where "m1 = m\<lparr>m_heap := h1, m_next := Suc ?a\<rparr>"
  have in_r: "round_in_manager K m ra r" by (rule manager_okD(1) [OF ok r(2)])
  then have fresh: "?a \<notin> set (r_Attestations r)" by (auto simp: round_in_manager_def)
  have "GetOrCreateRound L m1 k = (m1, Inr ra)" using r(1) by (simp add: GetOrCreateRound_def m1_def)
  with res att obtain h r' added where add: "AddAttestation K h1 r ?a = Some (h, r', added)"
    and m': "m' = (if added then fst (AddToQueue L (m1\<lparr>m_heap := h, m_round := (m_round m)(ra \<mapsto> r')\<rparr>) ?a)
                   else m1\<lparr>m_heap := h, m_round := (m_round m)(ra \<mapsto> r')\<rparr>)"
    using r(2) by (fastforce simp: OnRequest_def Let_def m1_def h1_def split: option.splits if_splits)
  have ok1: "round_atts_ok K h1 r" and abs1: "round_abs h1 r = round_abs (m_heap m) r"
  proof -
    have "round_atts_ok K (m_heap m) r" using in_r by (simp add: round_in_manager_def)
    then show ok1: "round_atts_ok K h1 r" by (rule round_atts_ok_heap) (use fresh in \<open>auto simp: h1_def\<close>)
    have "a \<noteq> ?a" if "r_attestationMap r x = Some a" for x a using round_map_iff [OF ok1] that fresh by blast
    then show "round_abs h1 r = round_abs (m_heap m) r"
      by (fastforce simp: round_abs_def h1_def fun_eq_iff intro: map_option_cong)
  qed
  have refine: "round_abs h r' = spec_add (K data) fee ?i (round_abs (m_heap m) r)"
    using AddAttestation_refines [OF ok1 fresh _ add, of ?i] by (simp add: own att(2-4) abs1)
  let ?m = "m1\<lparr>m_heap := h, m_round := (m_round m)(ra \<mapsto> r')\<rparr>"
  have "m_round m' = (m_round m)(ra \<mapsto> r') \<and> m_Rounds m' = m_Rounds m \<and> round_abs (m_heap m') r' = round_abs h r'"
  proof (cases added)
    case True
    have same: "same_request (h_atts h ?a) (fst (PrepareRequest (m_types ?m) (h_atts h ?a)))" by (rule PrepareRequest_same)
    then have "round_abs (h\<lparr>h_atts := (h_atts h)(?a := fst (PrepareRequest (m_types ?m) (h_atts h ?a)))\<rparr>) r' = round_abs h r'"
      by (auto simp: round_abs_def fun_eq_iff same_request_def intro!: map_option_cong)
    with True m' show ?thesis
      by (auto simp: AddToQueue_def Let_def m1_def split: prod.splits option.splits)
  next
    case False
    with m' show ?thesis by (simp add: m1_def)
  qed
  with refine r(1) show ?thesis by simp
qed

abbreviation (input) sample_log :: dbLog where
  "sample_log \<equiv> \<lparr>log_Timestamp = 1658430225, log_BlockNumber = 7, log_LogIndex = 1\<rparr>"

end
