(* ===== verification/Server.thy ===== *)
theory Server
  imports Manager
begin

text \<open>
  \<^verbatim>\<open>server\<close>: the REST controllers of the provider (\<^verbatim>\<open>submit1\<close>, \<^verbatim>\<open>submit2\<close>, \<^verbatim>\<open>submitSignatures\<close>) and of the data
  availability layer (\<^verbatim>\<open>getRequests\<close>, \<^verbatim>\<open>getAttestations\<close>). They read and write the rounds that they share with
  the manager, so they act on the manager's objects. Routing, authentication and JSON are \<^verbatim>\<open>go-flare-common\<close>
  and \<^verbatim>\<open>gorilla/mux\<close>; the message builders of \<^verbatim>\<open>payload\<close> and the Merkle tree are parameters, and \<open>now\<close> is the
  clock. As in \<open>Round\<close>, \<open>None\<close> is a call that never gets the round's write lock.

  Shown here: nothing is served before its time and a rejected call changes nothing; the bit vote
  served is that of the current statuses of the attestations in log order; which status
  \<^verbatim>\<open>submitSignatures\<close> answers in which state of the round; and \<^verbatim>\<open>getAttestations\<close> lists exactly the chosen
  attestations, each with a proof of its hash.
\<close>

datatype HttpError = BadParams | TooEarly | Internal
datatype SubStatus = Ok | Empty | Retry

record SubprotocolResponse =
  sr_Status :: SubStatus
  sr_Data :: string
  sr_AdditionalData :: string

record submitXParams =
  sx_votingRoundID :: u32
  sx_submitAddress :: string

definition validateEVMAddress :: "string \<Rightarrow> bool" where
  "validateEVMAddress address =
     (let address = TrimPrefix address ''0x'' in
      case hex_DecodeString address of
        None \<Rightarrow> False
      | Some dec \<Rightarrow> if length dec \<noteq> 20 then False else True)"

definition validateSubmitXParams :: "(string \<rightharpoonup> string) \<Rightarrow> HttpError + submitXParams" where
  "validateSubmitXParams params =
     (case params ''votingRoundID'' of
        None \<Rightarrow> Inl BadParams
      | Some votingRoundIDStr \<Rightarrow>
     (case ParseUint10 32 votingRoundIDStr of
        None \<Rightarrow> Inl BadParams
      | Some votingRoundID \<Rightarrow>
     (case params ''submitAddress'' of
        None \<Rightarrow> Inl BadParams
      | Some submitAddress \<Rightarrow>
          if \<not> validateEVMAddress submitAddress then Inl BadParams
          else Inr \<lparr>sx_votingRoundID = of_nat votingRoundID, sx_submitAddress = submitAddress\<rparr>)))"

section \<open>Provider services\<close>

definition submit1Service ::
  "('arg, 's, 'p, 'q) Manager \<Rightarrow> u32 \<Rightarrow> string \<Rightarrow> (('arg, 's, 'p, 'q) Manager \<times> (TooMany + string \<times> bool)) option" where
  "submit1Service m roundID addr = Some (m, Inr (''0x'', False))"

definition submit2Service ::
  "('s, 'p, 'sp, 'q) lib \<Rightarrow> (u8 \<Rightarrow> u32 \<Rightarrow> bytes \<Rightarrow> string) \<Rightarrow> u8 \<Rightarrow> ('arg, 's, 'p, 'q) Manager \<Rightarrow> u32 \<Rightarrow> string \<Rightarrow>
   (('arg, 's, 'p, 'q) Manager \<times> (TooMany + string \<times> bool)) option" where
  "submit2Service L BuildMessage protocolID m roundID addr =
     (case cy_Get L (m_Rounds m) roundID of
        None \<Rightarrow> Some (m, Inr ([], False))
      | Some ra \<Rightarrow>
          (case BitVoteBytes (m_heap m) (the (m_round m ra)) of
             None \<Rightarrow> None
           | Some (r, res) \<Rightarrow>
               (let m = m\<lparr>m_round := (m_round m)(ra \<mapsto> r)\<rparr> in
                case res of
                  Inl err \<Rightarrow> Some (m, Inl err)
                | Inr bv \<Rightarrow> Some (m, Inr (BuildMessage protocolID roundID bv, True)))))"

definition submitXController ::
  "u64 \<Rightarrow> (('arg, 's, 'p, 'q) Manager \<Rightarrow> u32 \<Rightarrow> string \<Rightarrow> (('arg, 's, 'p, 'q) Manager \<times> (TooMany + string \<times> bool)) option) \<Rightarrow>
   (u32 \<Rightarrow> u64) \<Rightarrow> ('arg, 's, 'p, 'q) Manager \<Rightarrow> (string \<rightharpoonup> string) \<Rightarrow>
   (('arg, 's, 'p, 'q) Manager \<times> (HttpError + SubprotocolResponse)) option" where
  "submitXController now service timeLock m params =
     (case validateSubmitXParams params of
        Inl err \<Rightarrow> Some (m, Inl err)
      | Inr pathParams \<Rightarrow>
          (let atTheEarliest = timeLock (sx_votingRoundID pathParams) in
           if now < atTheEarliest then Some (m, Inl TooEarly)
           else case service m (sx_votingRoundID pathParams) (sx_submitAddress pathParams) of
                  None \<Rightarrow> None
                | Some (m, Inl err) \<Rightarrow> Some (m, Inl Internal)
                | Some (m, Inr (rsp, exists)) \<Rightarrow>
                    if \<not> exists then Some (m, Inr \<lparr>sr_Status = Empty, sr_Data = ''0x'', sr_AdditionalData = []\<rparr>)
                    else Some (m, Inr \<lparr>sr_Status = Ok, sr_Data = rsp, sr_AdditionalData = []\<rparr>)))"

definition submit1Controller ::
  "u64 \<Rightarrow> Timing \<Rightarrow> ('arg, 's, 'p, 'q) Manager \<Rightarrow> (string \<rightharpoonup> string) \<Rightarrow>
   (('arg, 's, 'p, 'q) Manager \<times> (HttpError + SubprotocolResponse)) option" where
  "submit1Controller now Chain m params = submitXController now submit1Service (RoundStartTS Chain) m params"

definition submit2Controller ::
  "('s, 'p, 'sp, 'q) lib \<Rightarrow> (u8 \<Rightarrow> u32 \<Rightarrow> bytes \<Rightarrow> string) \<Rightarrow> u8 \<Rightarrow> u64 \<Rightarrow> Timing \<Rightarrow> ('arg, 's, 'p, 'q) Manager \<Rightarrow>
   (string \<rightharpoonup> string) \<Rightarrow> (('arg, 's, 'p, 'q) Manager \<times> (HttpError + SubprotocolResponse)) option" where
  "submit2Controller L BuildMessage protocolID now Chain m params =
     submitXController now (submit2Service L BuildMessage protocolID) (ChooseStartTS Chain) m params"

text \<open>What the services use of \<^verbatim>\<open>merkle\<close> and \<^verbatim>\<open>payload\<close>.\<close>

record merkle_lib =
  mk_Build :: "bytes list \<Rightarrow> bytes list"
  mk_Root :: "bytes list \<Rightarrow> bytes option"
  mk_Proof :: "bytes list \<Rightarrow> bytes \<Rightarrow> bytes list option"

definition only_status :: "SubStatus \<Rightarrow> SubprotocolResponse" where
  "only_status s = \<lparr>sr_Status = s, sr_Data = [], sr_AdditionalData = []\<rparr>"

definition submitSignaturesService ::
  "('s, 'p, 'sp, 'q) lib \<Rightarrow> merkle_lib \<Rightarrow> (u8 \<Rightarrow> u32 \<Rightarrow> bool \<Rightarrow> bytes \<Rightarrow> string) \<Rightarrow> u8 \<Rightarrow> ('arg, 's, 'p, 'q) Manager \<Rightarrow> u32 \<Rightarrow>
   (('arg, 's, 'p, 'q) Manager \<times> SubprotocolResponse) option" where
  "submitSignaturesService L M BuildMessageForSigning protocolID m roundID =
     (case cy_Get L (m_Rounds m) roundID of
        None \<Rightarrow> Some (m, only_status Empty)
      | Some ra \<Rightarrow>
          (case GetConsensusBitVote (the (m_round m ra)) of
             (consensusBV, exists, computed) \<Rightarrow>
               if \<not> computed then Some (m, only_status Retry)
               else if \<not> exists then Some (m, only_status Empty)
               else let encodedBV = ''0x'' @ EncodeBitVoteHex (the consensusBV) in
                    case MerkleRoot (mk_Build M) (mk_Root M) (m_heap m) (the (m_round m ra)) of
                      None \<Rightarrow> None
                    | Some (h, r, res) \<Rightarrow>
                        (let m = m\<lparr>m_heap := h, m_round := (m_round m)(ra \<mapsto> r)\<rparr> in
                         case res of
                           Inl err \<Rightarrow> Some (m, only_status Retry)
                         | Inr root \<Rightarrow>
                             Some (m, \<lparr>sr_Status = Ok, sr_Data = BuildMessageForSigning protocolID roundID False root,
                                       sr_AdditionalData = encodedBV\<rparr>))))"

definition submitSignaturesController ::
  "('s, 'p, 'sp, 'q) lib \<Rightarrow> merkle_lib \<Rightarrow> (u8 \<Rightarrow> u32 \<Rightarrow> bool \<Rightarrow> bytes \<Rightarrow> string) \<Rightarrow> u8 \<Rightarrow> ('arg, 's, 'p, 'q) Manager \<Rightarrow>
   (string \<rightharpoonup> string) \<Rightarrow> (('arg, 's, 'p, 'q) Manager \<times> (HttpError + SubprotocolResponse)) option" where
  "submitSignaturesController L M BuildMessageForSigning protocolID m params =
     (case validateSubmitXParams params of
        Inl err \<Rightarrow> Some (m, Inl err)
      | Inr pathParams \<Rightarrow>
          map_option (\<lambda>(m, response). (m, Inr response))
            (submitSignaturesService L M BuildMessageForSigning protocolID m (sx_votingRoundID pathParams)))"

section \<open>Data availability\<close>

datatype AttestationStatus = Valid | DA_WrongMIC | FailedLUT | DA_Failed

record DARequest =
  dr_Request :: string
  dr_Response :: string
  dr_Status :: AttestationStatus
  dr_Consensus :: bool
  dr_Indexes :: "IndexLog list"

record DAAttestation =
  da_RoundID :: u32
  da_Request :: string
  da_Response :: string
  da_ResponseABI :: "nat list"
  da_Proof :: "string list"
  da_hash :: bytes

definition validateRoundIDParam :: "(string \<rightharpoonup> string) \<Rightarrow> HttpError + u32" where
  "validateRoundIDParam params =
     (case params ''votingRoundID'' of
        None \<Rightarrow> Inl BadParams
      | Some votingRoundIDStr \<Rightarrow>
          (case ParseUint10 32 votingRoundIDStr of
             None \<Rightarrow> Inl BadParams
           | Some votingRoundID \<Rightarrow> Inr (of_nat votingRoundID)))"

definition AttestationToDARequest :: "'arg Attestation \<Rightarrow> DARequest" where
  "AttestationToDARequest att =
     (let status = (case at_Status att of Success \<Rightarrow> Valid | WrongMIC \<Rightarrow> DA_WrongMIC | InvalidLUT \<Rightarrow> FailedLUT | _ \<Rightarrow> DA_Failed)
      in \<lparr>dr_Request = hex_EncodeToString (at_Request att), dr_Response = hex_EncodeToString (at_Response att),
          dr_Status = status, dr_Consensus = at_Consensus att, dr_Indexes = at_Indexes att\<rparr>)"

definition GetRequests :: "('s, 'p, 'sp, 'q) lib \<Rightarrow> ('arg, 's, 'p, 'q) Manager \<Rightarrow> u32 \<Rightarrow> DARequest list option" where
  "GetRequests L m roundId =
     (case cy_Get L (m_Rounds m) roundId of
        None \<Rightarrow> None
      | Some ra \<Rightarrow> Some (map (\<lambda>a. AttestationToDARequest (h_atts (m_heap m) a)) (r_Attestations (the (m_round m ra)))))"

datatype DAResponseStatus = Available | NotAvailable

record RequestsResponse =
  rq_Status :: DAResponseStatus
  rq_Requests :: "DARequest list"

record AttestationResponse =
  ar_Status :: DAResponseStatus
  ar_Attestations :: "DAAttestation list"

datatype DAError = ConsensusNotConfirmed | NilABIString

definition attestationToDAAttestation :: "'arg Attestation \<Rightarrow> DAError + DAAttestation option" where
  "attestationToDAAttestation att =
     (let isConfirmed = (at_Status att = Success); isSelected = at_Consensus att in
      if \<not> isConfirmed \<and> isSelected then Inl ConsensusNotConfirmed
      else if \<not> isConfirmed \<or> \<not> isSelected then Inr None
      else case at_ResponseABIString att of
             None \<Rightarrow> Inl NilABIString
           | Some abiString \<Rightarrow>
               Inr (Some \<lparr>da_RoundID = at_RoundID att, da_Request = hex_EncodeToString (at_Request att),
                          da_Response = hex_EncodeToString (at_Response att), da_ResponseABI = abiString,
                          da_Proof = [], da_hash = at_Hash att\<rparr>))"

definition addProof :: "merkle_lib \<Rightarrow> bytes list \<Rightarrow> DAAttestation \<Rightarrow> DAAttestation option" where
  "addProof M tree att =
     (case mk_Proof M tree (da_hash att) of
        None \<Rightarrow> None
      | Some proofCommon \<Rightarrow> Some (att\<lparr>da_Proof := map (\<lambda>p. ''0x'' @ hex_EncodeToString p) proofCommon\<rparr>))"

datatype DAResult = DAPanic | DANotAvailable | DAList "DAAttestation list"

fun getAttestations_loop :: "merkle_lib \<Rightarrow> bytes list \<Rightarrow> 'arg Attestation list \<Rightarrow> DAAttestation list \<Rightarrow> DAResult" where
  "getAttestations_loop M tree [] attestations = DAList attestations"
| "getAttestations_loop M tree (a # as) attestations =
     (case attestationToDAAttestation a of
        Inl ConsensusNotConfirmed \<Rightarrow> DANotAvailable
      | Inl NilABIString \<Rightarrow> DAPanic
      | Inr None \<Rightarrow> getAttestations_loop M tree as attestations
      | Inr (Some att) \<Rightarrow>
          (case addProof M tree att of
             None \<Rightarrow> DANotAvailable
           | Some att \<Rightarrow> getAttestations_loop M tree as (attestations @ [att])))"

definition GetAttestations ::
  "('s, 'p, 'sp, 'q) lib \<Rightarrow> merkle_lib \<Rightarrow> ('arg, 's, 'p, 'q) Manager \<Rightarrow> u32 \<Rightarrow> (('arg, 's, 'p, 'q) Manager \<times> DAResult) option" where
  "GetAttestations L M m roundId =
     (case cy_Get L (m_Rounds m) roundId of
        None \<Rightarrow> Some (m, DANotAvailable)
      | Some ra \<Rightarrow>
          (case MerkleTree (mk_Build M) (m_heap m) (the (m_round m ra)) of
             None \<Rightarrow> None
           | Some (h, r, res) \<Rightarrow>
               (let m = m\<lparr>m_heap := h, m_round := (m_round m)(ra \<mapsto> r)\<rparr> in
                case res of
                  Inl err \<Rightarrow> Some (m, DANotAvailable)
                | Inr merkleTree \<Rightarrow>
                    Some (m, getAttestations_loop M merkleTree (map (h_atts h) (r_Attestations r)) []))))"

definition getRequestController ::
  "('s, 'p, 'sp, 'q) lib \<Rightarrow> ('arg, 's, 'p, 'q) Manager \<Rightarrow> (string \<rightharpoonup> string) \<Rightarrow> HttpError + RequestsResponse" where
  "getRequestController L m params =
     (case validateRoundIDParam params of
        Inl err \<Rightarrow> Inl err
      | Inr votingRoundID \<Rightarrow>
          (case GetRequests L m votingRoundID of
             None \<Rightarrow> Inr \<lparr>rq_Status = NotAvailable, rq_Requests = []\<rparr>
           | Some requests \<Rightarrow> Inr \<lparr>rq_Status = Available, rq_Requests = requests\<rparr>))"

text \<open>An answer \<open>Inr None\<close> is a panic of the handler.\<close>

definition getAttestationController ::
  "('s, 'p, 'sp, 'q) lib \<Rightarrow> merkle_lib \<Rightarrow> ('arg, 's, 'p, 'q) Manager \<Rightarrow> (string \<rightharpoonup> string) \<Rightarrow>
   (('arg, 's, 'p, 'q) Manager \<times> (HttpError + AttestationResponse option)) option" where
  "getAttestationController L M m params =
     (case validateRoundIDParam params of
        Inl err \<Rightarrow> Some (m, Inl err)
      | Inr votingRoundID \<Rightarrow>
          (case GetAttestations L M m votingRoundID of
             None \<Rightarrow> None
           | Some (m, DAPanic) \<Rightarrow> Some (m, Inr None)
           | Some (m, DANotAvailable) \<Rightarrow> Some (m, Inr (Some \<lparr>ar_Status = NotAvailable, ar_Attestations = []\<rparr>))
           | Some (m, DAList attestations) \<Rightarrow>
               Some (m, Inr (Some \<lparr>ar_Status = Available, ar_Attestations = attestations\<rparr>))))"

section \<open>Lemmas\<close>

lemma validateEVMAddress_iff:
  "validateEVMAddress s \<longleftrightarrow> (\<exists>dec. hex_DecodeString (TrimPrefix s ''0x'') = Some dec \<and> length dec = 20)"
  by (auto simp: validateEVMAddress_def Let_def split: option.splits)

lemma submitX_too_early:
  "validateSubmitXParams params = Inr p \<Longrightarrow> now < timeLock (sx_votingRoundID p) \<Longrightarrow>
   submitXController now service timeLock m params = Some (m, Inl TooEarly)"
  by (simp add: submitXController_def)

lemma submit1_response:
  "submit1Controller now C m params =
     Some (m, case validateSubmitXParams params of Inl err \<Rightarrow> Inl err
        | Inr p \<Rightarrow> if now < RoundStartTS C (sx_votingRoundID p) then Inl TooEarly
                   else Inr \<lparr>sr_Status = Empty, sr_Data = ''0x'', sr_AdditionalData = []\<rparr>)"
  by (auto simp: submit1Controller_def submitXController_def submit1Service_def split: sum.splits)

lemma submit2Service_vote:
  assumes "cy_Get L (m_Rounds m) k = Some ra" "m_round m ra = Some r"
    and "submit2Service L BM pid m k addr = Some (m', Inr (out, True))"
  obtains b where "r_readLocks r = 0"
    "BitVoteFromAttestations (map (h_atts (m_heap m)) (r_Attestations (sortAttestations (m_heap m) r))) = Inr b"
    "out = BM pid k (EncodeBitVote b)" "m' = m\<lparr>m_round := (m_round m)(ra \<mapsto> sortAttestations (m_heap m) r)\<rparr>"
  using assms
  by (auto simp: submit2Service_def BitVoteBytes_def Round_BitVote_def Let_def split: option.splits sum.splits)

lemma getAttestations_loop_list:
  "getAttestations_loop M tree as acc = DAList out \<longleftrightarrow>
     (\<forall>a\<in>set as. at_Consensus a \<longrightarrow> at_Status a = Success \<and> at_ResponseABIString a \<noteq> None \<and> mk_Proof M tree (at_Hash a) \<noteq> None) \<and>
     out = acc @ map (\<lambda>a. \<lparr>da_RoundID = at_RoundID a, da_Request = hex_EncodeToString (at_Request a),
         da_Response = hex_EncodeToString (at_Response a), da_ResponseABI = the (at_ResponseABIString a),
         da_Proof = map (\<lambda>p. ''0x'' @ hex_EncodeToString p) (the (mk_Proof M tree (at_Hash a))), da_hash = at_Hash a\<rparr>)
       (filter at_Consensus as)"
proof (induction M tree as acc rule: getAttestations_loop.induct)
  case (2 M tree a as acc)
  show ?case
  proof (cases "at_Consensus a")
    case False
    then have "attestationToDAAttestation a = Inr None" by (simp add: attestationToDAAttestation_def Let_def)
    with 2(1) [OF this] False show ?thesis by simp
  next
    case True
    show ?thesis
    proof (cases "at_Status a = Success \<and> at_ResponseABIString a \<noteq> None \<and> mk_Proof M tree (at_Hash a) \<noteq> None")
      case ok: True
      then obtain s p where sp: "at_ResponseABIString a = Some s" "mk_Proof M tree (at_Hash a) = Some p" by auto
      let ?d = "\<lparr>da_RoundID = at_RoundID a, da_Request = hex_EncodeToString (at_Request a),
         da_Response = hex_EncodeToString (at_Response a), da_ResponseABI = s, da_Proof = [], da_hash = at_Hash a\<rparr>"
      have d: "attestationToDAAttestation a = Inr (Some ?d)" using True ok sp by (simp add: attestationToDAAttestation_def Let_def)
      have p: "addProof M tree ?d = Some (?d\<lparr>da_Proof := map (\<lambda>p. ''0x'' @ hex_EncodeToString p) p\<rparr>)"
        using sp by (simp add: addProof_def)
      show ?thesis using 2(2) [OF d refl p] True ok by (simp add: d p sp)
    next
      case bad: False
      then have "getAttestations_loop M tree (a # as) acc \<noteq> DAList out"
        using True by (auto simp: attestationToDAAttestation_def addProof_def Let_def split: option.splits if_splits)
      with bad True show ?thesis by (auto simp del: getAttestations_loop.simps)
    qed
  qed
qed auto

lemma submitSignaturesService_round:
  assumes "cy_Get L (m_Rounds m) k = Some ra" "m_round m ra = Some r"
  shows "submitSignaturesService L M BM pid m k =
    (if \<not> r_ConsensusCalculationFinished r then Some (m, only_status Retry)
     else case r_ConsensusBitVote r of
            None \<Rightarrow> Some (m, only_status Empty)
          | Some b \<Rightarrow>
              map_option (\<lambda>(h, r', res).
                 (m\<lparr>m_heap := h, m_round := (m_round m)(ra \<mapsto> r')\<rparr>,
                  case res of Inl _ \<Rightarrow> only_status Retry
                  | Inr root \<Rightarrow> \<lparr>sr_Status = Ok, sr_Data = BM pid k False root,
                                  sr_AdditionalData = ''0x'' @ EncodeBitVoteHex b\<rparr>))
               (MerkleRoot (mk_Build M) (mk_Root M) (m_heap m) r))"
  using assms
  by (auto simp: submitSignaturesService_def GetConsensusBitVote_def Let_def split: option.splits sum.splits)

section \<open>Properties\<close>

text \<open>
  The bit vote served by \<^verbatim>\<open>submit2\<close>, end to end: from the start of the choose phase on, and with no read
  lock left on the round, the answer for a stored round of at most 65535 attestations is a message whose
  payload decodes to a bit vote as long as the round, with bit \<open>i\<close> set exactly when the \<open>i\<close>-th attestation in
  canonical order is confirmed; before that, it is refused and nothing changes.
\<close>

lemma served_bit_vote:
  assumes p: "validateSubmitXParams params = Inr p" and r: "cy_Get L (m_Rounds m) (sx_votingRoundID p) = Some ra" "m_round m ra = Some r"
    and free: "r_readLocks r = 0" "length (r_Attestations r) \<le> 65535"
  shows "if now < ChooseStartTS C (sx_votingRoundID p)
    then submit2Controller L BM pid now C m params = Some (m, Inl TooEarly)
    else let s = sortAttestations (m_heap m) r in
      \<exists>bv b. submit2Controller L BM pid now C m params = Some (m\<lparr>m_round := (m_round m)(ra \<mapsto> s)\<rparr>,
          Inr \<lparr>sr_Status = Ok, sr_Data = BM pid (sx_votingRoundID p) bv, sr_AdditionalData = []\<rparr>) \<and>
        DecodeBitVoteBytes bv = Inr b \<and> unat (bv_Length b) = length (r_Attestations r) \<and>
        (\<forall>i. bit (bv_BitVector b) i \<longleftrightarrow> i < length (r_Attestations s) \<and> at_Status (h_atts (m_heap m) (r_Attestations s ! i)) = Success)"
proof (cases "now < ChooseStartTS C (sx_votingRoundID p)")
  case True
  then show ?thesis by (simp add: submit2Controller_def submitXController_def p)
next
  case False
  let ?s = "sortAttestations (m_heap m) r"
  let ?as = "map (h_atts (m_heap m)) (r_Attestations ?s)"
  obtain b where b: "BitVoteFromAttestations ?as = Inr b" using free(2) by (simp add: BitVoteFromAttestations_def)
  note bits = BitVoteFromAttestations_bits [OF b]
  have "submit2Service L BM pid m (sx_votingRoundID p) (sx_submitAddress p) =
      Some (m\<lparr>m_round := (m_round m)(ra \<mapsto> ?s)\<rparr>, Inr (BM pid (sx_votingRoundID p) (EncodeBitVote b), True))"
    using r free(1) b by (simp add: submit2Service_def BitVoteBytes_def Round_BitVote_def Let_def with_Lock_def)
  then have resp: "submit2Controller L BM pid now C m params = Some (m\<lparr>m_round := (m_round m)(ra \<mapsto> ?s)\<rparr>,
      Inr \<lparr>sr_Status = Ok, sr_Data = BM pid (sx_votingRoundID p) (EncodeBitVote b), sr_AdditionalData = []\<rparr>)"
    using False p by (simp add: submit2Controller_def submitXController_def)
  have set: "\<forall>i. bit (bv_BitVector b) i \<longleftrightarrow> i < length (r_Attestations ?s) \<and> at_Status (h_atts (m_heap m) (r_Attestations ?s ! i)) = Success"
    by (simp add: bits(3) cong: conj_cong)
  have len: "unat (bv_Length b) = length (r_Attestations r)" using bits(1) by simp
  show ?thesis unfolding if_not_P [OF False] Let_def
    by (intro exI conjI, rule resp, rule Decode_Encode [OF bits(2)], rule len, rule set)
qed

abbreviation (input) sample_params :: "string \<rightharpoonup> string" where
  "sample_params \<equiv> [''votingRoundID'' \<mapsto> ''3'', ''submitAddress'' \<mapsto> ''0x'' @ hex_EncodeToString (replicate 20 170)]"

lemma sample_params_valid: "\<exists>p. validateSubmitXParams sample_params = Inr p \<and> sx_votingRoundID p = 3"
proof -
  have "ParseUint10 32 ''3'' = Some 3" by (simp add: ParseUint10_def Let_def)
  moreover have "validateEVMAddress (''0x'' @ hex_EncodeToString (replicate 20 170))"
    by (simp add: validateEVMAddress_def TrimPrefix_def del: replicate.simps)
  ultimately show ?thesis by (simp add: validateSubmitXParams_def)
qed

lemma sample_manager_round:
  "cy_Get sample_lib (m_Rounds sample_manager) 3 = Some 0"
  "m_round sample_manager 0 = Some (snd (Round_New sample_heap 0 3 sample_voters))"
  by (simp_all add: sample_manager_def sample_lib_def Manager_New_def)

text \<open>
  C9. A root is served for signing only for confirmed data: when \<^verbatim>\<open>submitSignatures\<close> answers \<open>Ok\<close> for a round
  whose tree is not cached, the consensus bit vote is known, every chosen attestation is confirmed, and the
  message carries the root of the tree over exactly their hashes, with the encoded consensus bit vote.
\<close>

theorem signed_root_is_confirmed:
  assumes r: "cy_Get L (m_Rounds m) k = Some ra" "m_round m ra = Some r" and fresh: "r_merkleTree r = []"
    and res: "submitSignaturesService L M BM pid m k = Some (m', resp)" "sr_Status resp = Ok"
  shows "\<exists>b root. r_ConsensusCalculationFinished r \<and> r_ConsensusBitVote r = Some b \<and>
    (\<forall>a\<in>set (r_Attestations r). at_Consensus (h_atts (m_heap m) a) \<longrightarrow> at_Status (h_atts (m_heap m) a) = Success) \<and>
    mk_Root M (mk_Build M (map at_Hash (filter at_Consensus (map (h_atts (m_heap m)) (r_Attestations r))))) = Some root \<and>
    resp = \<lparr>sr_Status = Ok, sr_Data = BM pid k False root, sr_AdditionalData = ''0x'' @ EncodeBitVoteHex b\<rparr>"
proof -
  obtain b h r' res' where fin: "r_ConsensusCalculationFinished r" "r_ConsensusBitVote r = Some b"
    and root: "MerkleRoot (mk_Build M) (mk_Root M) (m_heap m) r = Some (h, r', res')"
    and resp: "resp = (case res' of Inl _ \<Rightarrow> only_status Retry
        | Inr root \<Rightarrow> \<lparr>sr_Status = Ok, sr_Data = BM pid k False root, sr_AdditionalData = ''0x'' @ EncodeBitVoteHex b\<rparr>)"
    using res submitSignaturesService_round [OF r, of M BM pid]
    by (auto simp: only_status_def split: if_splits option.splits)
  obtain rt where rt: "res' = Inr rt" using resp res(2) by (cases res') (simp_all add: only_status_def)
  have cached: "MerkleTreeCached (mk_Build M) (m_heap m) r = MerkleTree (mk_Build M) (m_heap m) r"
    using fresh by (simp add: MerkleTreeCached_def)
  obtain tree where tree: "MerkleTree (mk_Build M) (m_heap m) r = Some (h, r', Inr tree)" "mk_Root M tree = Some rt"
    using root unfolding MerkleRoot_def cached rt by (auto split: option.splits sum.splits)
  show ?thesis
    using MerkleTree_Inr(1,2) [OF tree(1)] tree(2) fin resp rt by auto
qed

definition sample_merkle :: merkle_lib where
  "sample_merkle = \<lparr>mk_Build = (\<lambda>hs. hs), mk_Root = (\<lambda>t. if t = [] then None else Some (concat t)), mk_Proof = (\<lambda>t h. Some [])\<rparr>"

definition final_manager :: "(nat, u32 \<rightharpoonup> nat, VoterSet option, nat list) Manager" where
  "final_manager = sample_manager\<lparr>
     m_heap := sample_heap\<lparr>h_atts := (\<lambda>n. (h_atts sample_heap n)\<lparr>at_Consensus := n = 4, at_Status := Success, at_ResponseABIString := Some []\<rparr>)\<rparr>,
     m_round := [0 \<mapsto> voted_round\<lparr>r_ConsensusCalculationFinished := True, r_ConsensusBitVote := Some \<lparr>bv_Length = 2, bv_BitVector = 2\<rparr>\<rparr>]\<rparr>"

lemma final_manager_round:
  "cy_Get sample_lib (m_Rounds final_manager) 3 = Some 0"
  "m_round final_manager 0 = Some (voted_round\<lparr>r_ConsensusCalculationFinished := True, r_ConsensusBitVote := Some \<lparr>bv_Length = 2, bv_BitVector = 2\<rparr>\<rparr>)"
  using sample_manager_round by (simp_all add: final_manager_def)

lemma voted_round_simps [simp]:
  "r_merkleTree voted_round = []" "r_readLocks voted_round = 0" "r_Attestations voted_round = [4, 1]"
  by (simp_all add: voted_round_def sample_round_def Round_New_def)

theorem signed_root_is_confirmed_witness:
  "\<exists>m' root. submitSignaturesService sample_lib sample_merkle (\<lambda>pid k random root. hex_EncodeToString root) 200 final_manager 3 =
     Some (m', \<lparr>sr_Status = Ok, sr_Data = hex_EncodeToString root, sr_AdditionalData = ''0x'' @ EncodeBitVoteHex \<lparr>bv_Length = 2, bv_BitVector = 2\<rparr>\<rparr>)"
proof -
  have "case submitSignaturesService sample_lib sample_merkle (\<lambda>pid k random root. hex_EncodeToString root) 200 final_manager 3 of
      None \<Rightarrow> False | Some (m', resp) \<Rightarrow> sr_Status resp = Ok" by code_simp
  then obtain m' resp where res: "submitSignaturesService sample_lib sample_merkle (\<lambda>pid k random root. hex_EncodeToString root) 200 final_manager 3 =
      Some (m', resp)" "sr_Status resp = Ok" by (auto split: option.splits)
  from signed_root_is_confirmed [OF final_manager_round _ res] res(1) show ?thesis by auto
qed

text \<open>
  C25. \<^verbatim>\<open>getAttestations\<close> answers with a list exactly when every chosen attestation of the round is confirmed,
  carries its response ABI and has a proof in the tree over the hashes of the chosen ones; the list then holds
  exactly the chosen attestations, in order, each with its round, request, response, ABI and proof.
\<close>

theorem attestations_served:
  fixes M :: merkle_lib
  assumes r: "cy_Get L (m_Rounds m) k = Some ra" "m_round m ra = Some r" and free: "r_readLocks r = 0"
  defines "chosen \<equiv> filter at_Consensus (map (h_atts (m_heap m)) (r_Attestations r))"
  defines "tree \<equiv> mk_Build M (map at_Hash chosen)"
  shows "(\<exists>m'. GetAttestations L M m k = Some (m', DAList out)) \<longleftrightarrow>
    (\<forall>a\<in>set chosen. at_Status a = Success \<and> at_ResponseABIString a \<noteq> None \<and> mk_Proof M tree (at_Hash a) \<noteq> None) \<and>
    out = map (\<lambda>a. \<lparr>da_RoundID = at_RoundID a, da_Request = hex_EncodeToString (at_Request a),
         da_Response = hex_EncodeToString (at_Response a), da_ResponseABI = the (at_ResponseABIString a),
         da_Proof = map (\<lambda>p. ''0x'' @ hex_EncodeToString p) (the (mk_Proof M tree (at_Hash a))), da_hash = at_Hash a\<rparr>) chosen"
proof (cases "\<forall>a\<in>set chosen. at_Status a = Success")
  case True
  then have "merkleTree_loop 0 (map (h_atts (m_heap m)) (r_Attestations r)) [] = Inr (map at_Hash chosen)"
    by (simp add: merkleTree_loop_Inr chosen_def)
  then have "MerkleTree (mk_Build M) (m_heap m) r =
      Some ((m_heap m)\<lparr>h_status := (h_status (m_heap m))(r_Status r := Done)\<rparr>, r\<lparr>r_merkleTree := tree\<rparr>, Inr tree)"
    using free by (simp add: MerkleTree_def with_Lock_def tree_def Let_def)
  then have "(\<exists>m'. GetAttestations L M m k = Some (m', DAList out)) \<longleftrightarrow>
      getAttestations_loop M tree (map (h_atts (m_heap m)) (r_Attestations r)) [] = DAList out"
    using r by (simp add: GetAttestations_def Let_def)
  moreover have all: "(\<forall>a\<in>set (map (h_atts (m_heap m)) (r_Attestations r)). at_Consensus a \<longrightarrow> P a) \<longleftrightarrow> (\<forall>a\<in>set chosen. P a)" for P
    by (auto simp: chosen_def)
  ultimately show ?thesis by (simp only: getAttestations_loop_list all append_Nil chosen_def)
next
  case False
  then obtain e where "merkleTree_loop 0 (map (h_atts (m_heap m)) (r_Attestations r)) [] = Inl e"
    by (cases "merkleTree_loop 0 (map (h_atts (m_heap m)) (r_Attestations r)) []") (auto simp: merkleTree_loop_Inr chosen_def)
  then have "GetAttestations L M m k \<noteq> Some (m', DAList out)" for m'
    using r free by (simp add: GetAttestations_def MerkleTree_def with_Lock_def Let_def)
  with False show ?thesis by auto
qed

theorem attestations_served_witness:
  "\<exists>m' d. GetAttestations sample_lib sample_merkle final_manager 3 = Some (m', DAList [d]) \<and> da_Request d = ''00''"
proof -
  have locks: "r_readLocks (voted_round\<lparr>r_ConsensusCalculationFinished := True, r_ConsensusBitVote := Some \<lparr>bv_Length = 2, bv_BitVector = 2\<rparr>\<rparr>) = 0"
    by simp
  have "hex_EncodeToString [0] = ''00''" by code_simp
  then show ?thesis
    using attestations_served [OF final_manager_round locks, of sample_merkle
        "[\<lparr>da_RoundID = 3, da_Request = ''00'', da_Response = hex_EncodeToString [], da_ResponseABI = [], da_Proof = [], da_hash = [4]\<rparr>]"]
    by (auto simp: final_manager_def sample_heap_def sample_merkle_def)
qed

end
