(* ===== verification/Collector.thy ===== *)
theory Collector
  imports Manager
begin

text \<open>
  \<^verbatim>\<open>client/collector\<close>: what is read from the indexer database and handed to the manager. The database, the event
  parsers and the clock are parameters; a listener's loop is a function of the list of what it observes at
  its ticks. Channel sends are modelled as taken; the exits on a cancelled context are one outcome of an
  observation where the code's state depends on them.

  Shown here: the choose trigger announces consecutive rounds, none before its choose phase has ended on
  chain or twenty seconds ago by the clock; the request listener delivers the logs of every block exactly
  once; the bit votes queried for a round are those of its choose phase; the sleep between two
  synchronisation checks is bounded.
\<close>

section \<open>Triggering the choice (\<^verbatim>\<open>choose.go\<close>)\<close>

record choose_state =
  cho_roundID :: u32
  cho_end :: u64

text \<open>\<open>cancelled\<close>: the context is done before the round is received from the channel.\<close>

definition tryTriggerBitVote ::
  "Timing \<Rightarrow> choose_state \<Rightarrow> u64 \<Rightarrow> u64 \<Rightarrow> bool \<Rightarrow> choose_state \<times> u32 option \<times> bool" where
  "tryTriggerBitVote Chain st currentBlockTime now cancelled =
     (let isTriggered =
            (if cho_end st \<le> currentBlockTime then True
             else if cho_end st < now - 20 then True
             else False)
      in if isTriggered then
           if cancelled then (st, None, False)
           else (st\<lparr>cho_roundID := cho_roundID st + 1, cho_end := cho_end st + CollectDurationSec Chain\<rparr>,
                 Some (cho_roundID st), True)
         else (st, None, False))"

text \<open>
  The polls of \<^verbatim>\<open>PrepareChooseTrigger\<close>: each is the block time of the database state, if it could be fetched,
  and the clock. The result is the rounds sent to the trigger.
\<close>

fun choose_polls :: "Timing \<Rightarrow> choose_state \<Rightarrow> (u64 option \<times> u64) list \<Rightarrow> choose_state \<times> (u32 \<times> u64 \<times> u64) list" where
  "choose_polls Chain st [] = (st, [])"
| "choose_polls Chain st ((None, now) # polls) = choose_polls Chain st polls"
| "choose_polls Chain st ((Some blockTime, now) # polls) =
     (case tryTriggerBitVote Chain st blockTime now False of
        (st', sent, done) \<Rightarrow>
          (case choose_polls Chain st' polls of
             (st'', rest) \<Rightarrow> (st'', (case sent of None \<Rightarrow> rest | Some k \<Rightarrow> (k, blockTime, now) # rest))))"

definition PrepareChooseTrigger ::
  "Timing \<Rightarrow> u64 \<Rightarrow> (u64 option \<times> u64) list \<Rightarrow> TimingError + (u32 \<times> u64 \<times> u64) list" where
  "PrepareChooseTrigger Chain blockTimestamp polls =
     (case NextChooseEnd Chain blockTimestamp of
        Inl err \<Rightarrow> Inl err
      | Inr (nextRound, nextEnd) \<Rightarrow>
          Inr (snd (choose_polls Chain \<lparr>cho_roundID = nextRound, cho_end = nextEnd\<rparr> polls)))"

section \<open>Bit votes of a round (\<^verbatim>\<open>choose.go\<close>)\<close>

record TxParams =
  tp_ToAddress :: address
  tp_FunctionSel :: bytes
  tp_From :: "64 word"
  tp_To :: "64 word"

record PayloadRound =
  pr_Messages :: "Message list"
  pr_ID :: u32

text \<open>One trigger of \<^verbatim>\<open>BitVoteListener\<close>; \<open>None\<close> when there is nothing to send.\<close>

definition BitVoteListener ::
  "(TxParams \<Rightarrow> 'tx list option) \<Rightarrow> ('tx \<Rightarrow> (u8 \<rightharpoonup> Message) option) \<Rightarrow> Timing \<Rightarrow> address \<Rightarrow> bytes \<Rightarrow> u8 \<Rightarrow> u32 \<Rightarrow>
   PayloadRound option" where
  "BitVoteListener FetchTransactions ExtractPayloads Chain submitContractAddress funcSel protocol roundID =
     (let params = \<lparr>tp_ToAddress = submitContractAddress, tp_FunctionSel = funcSel,
                    tp_From = ChooseStartTS Chain roundID - 1, tp_To = ChooseEndTS Chain roundID - 1\<rparr>
      in case FetchTransactions params of
           None \<Rightarrow> None
         | Some txs \<Rightarrow>
             (let bitVotes = foldl (\<lambda>bitVotes tx. case ExtractPayloads tx of
                                None \<Rightarrow> bitVotes
                              | Some payloads \<Rightarrow> (case payloads protocol of None \<Rightarrow> bitVotes | Some bitVote \<Rightarrow> bitVotes @ [bitVote]))
                    [] txs
              in if length bitVotes > 0 then Some \<lparr>pr_Messages = bitVotes, pr_ID = roundID\<rparr> else None))"

section \<open>Attestation requests (\<^verbatim>\<open>requests.go\<close>)\<close>

text \<open>
  The ticks of \<^verbatim>\<open>AttestationRequestListener\<close>: each is the block index of the database state, if it could be
  fetched, and the query by block numbers of the database at that moment. The result is the last queried
  block and the batches sent.
\<close>

fun request_ticks ::
  "u64 \<Rightarrow> (u64 \<times> (u64 \<Rightarrow> u64 \<Rightarrow> 'log list option)) option list \<Rightarrow> u64 \<times> 'log list list" where
  "request_ticks lastQueriedBlock [] = (lastQueriedBlock, [])"
| "request_ticks lastQueriedBlock (None # ticks) = request_ticks lastQueriedBlock ticks"
| "request_ticks lastQueriedBlock (Some (index, fetch) # ticks) =
     (case fetch lastQueriedBlock index of
        None \<Rightarrow> request_ticks lastQueriedBlock ticks
      | Some logs \<Rightarrow>
          (case request_ticks index ticks of
             (lastBlock, rest) \<Rightarrow> (lastBlock, (if length logs > 0 then logs # rest else rest))))"

datatype ListenerPanic = NoStartTime TimingError | NoState | NoInitialLogs

definition AttestationRequestListener ::
  "(u64 \<Rightarrow> u64 \<Rightarrow> 'log list option) \<Rightarrow> Timing \<Rightarrow> u64 \<Rightarrow> u64 option \<Rightarrow>
   (u64 \<times> (u64 \<Rightarrow> u64 \<Rightarrow> 'log list option)) option list \<Rightarrow> ListenerPanic + u64 \<times> 'log list list" where
  "AttestationRequestListener fetchFromTimestamp Chain now state ticks =
     (case LastCollectPhaseStart Chain now of
        Inl err \<Rightarrow> Inl (NoStartTime err)
      | Inr (_, startTimestamp) \<Rightarrow>
          (case state of
             None \<Rightarrow> Inl NoState
           | Some lastQueriedBlock \<Rightarrow>
               (case fetchFromTimestamp startTimestamp lastQueriedBlock of
                  None \<Rightarrow> Inl NoInitialLogs
                | Some logs \<Rightarrow>
                    (case request_ticks lastQueriedBlock ticks of
                       (lastBlock, rest) \<Rightarrow> Inr (lastBlock, (if length logs > 0 then logs # rest else rest))))))"

section \<open>Signing policies and submit addresses (\<^verbatim>\<open>signingPolicy.go\<close>, \<^verbatim>\<open>voterRegistry.go\<close>)\<close>

record VoterRegistered =
  vr_SubmitAddress :: address
  vr_SigningPolicyAddress :: address

definition BuildSubmitToSigningPolicyAddress ::
  "('log \<Rightarrow> VoterRegistered option) \<Rightarrow> 'log list \<Rightarrow> (address \<rightharpoonup> address) option" where
  "BuildSubmitToSigningPolicyAddress ParseVoterRegisteredEvent registryEvents =
     foldl (\<lambda>acc log. case acc of
              None \<Rightarrow> None
            | Some submitToSigning \<Rightarrow>
                (case ParseVoterRegisteredEvent log of
                   None \<Rightarrow> None
                 | Some event \<Rightarrow> Some (submitToSigning(vr_SubmitAddress event \<mapsto> vr_SigningPolicyAddress event))))
       (Some Map.empty) registryEvents"

record registries =
  rg_newCoston :: address
  rg_newCoston2 :: address
  rg_oldCoston :: address
  rg_oldSongbird :: address
  rg_oldCoston2 :: address
  rg_oldFlare :: address

text \<open>The registry contracts by name; \<^verbatim>\<open>common.HexToAddress\<close> is a parameter.\<close>

definition registry_addresses :: "(string \<Rightarrow> address) \<Rightarrow> registries" where
  "registry_addresses HexToAddress =
     \<lparr>rg_newCoston = HexToAddress ''0x42F4526BFC6f892DB515a832a52eFc9edFADf6c0'',
      rg_newCoston2 = HexToAddress ''0x6a0AF07b7972177B176d3D422555cbc98DfDe914'',
      rg_oldCoston = HexToAddress ''0xB4B93a3A3ADa93a574E6efeb5f295bf882934cB6'',
      rg_oldSongbird = HexToAddress ''0x31B9EC65C731c7D973a33Ef3FC83B653f540dC8D'',
      rg_oldCoston2 = HexToAddress ''0xc6E40401395DCc648bC4bBb38fE4552423cD9BAC'',
      rg_oldFlare = HexToAddress ''0x2580101692366e2f331e891180d9ffdF861Fce83''\<rparr>"

definition uses_old_abi :: "registries \<Rightarrow> address \<Rightarrow> bool" where
  "uses_old_abi R a \<longleftrightarrow> a = rg_oldSongbird R \<or> a = rg_oldCoston2 R \<or> a = rg_oldFlare R"

definition fetchVoterRegisteredEventsForRewardEpoch ::
  "registries \<Rightarrow> bytes \<Rightarrow> bytes \<Rightarrow> (address \<Rightarrow> bytes \<Rightarrow> u64 \<Rightarrow> 'log list option) \<Rightarrow> address \<Rightarrow> u64 \<Rightarrow> 'log list option" where
  "fetchVoterRegisteredEventsForRewardEpoch R voterRegisteredEventSel oldSel Find addr epochID =
     (let eventSelector = (if uses_old_abi R addr then oldSel else voterRegisteredEventSel)
      in Find addr eventSelector epochID)"

definition SubmitToSigningPolicyAddress ::
  "registries \<Rightarrow> (address \<Rightarrow> u64 \<Rightarrow> 'log list option) \<Rightarrow> ('log \<Rightarrow> VoterRegistered option) \<Rightarrow> ('log \<Rightarrow> VoterRegistered option) \<Rightarrow>
   address \<Rightarrow> u64 \<Rightarrow> (address \<rightharpoonup> address) option" where
  "SubmitToSigningPolicyAddress R fetch parseOld parseNew registryContractAddress rewardEpochID =
     (case fetch registryContractAddress rewardEpochID of
        None \<Rightarrow> None
      | Some logs \<Rightarrow>
          if uses_old_abi R registryContractAddress then BuildSubmitToSigningPolicyAddress parseOld logs
          else BuildSubmitToSigningPolicyAddress parseNew logs)"

definition AddSubmitAddressesToSigningPolicy ::
  "registries \<Rightarrow> ('log \<Rightarrow> Policy option) \<Rightarrow> (address \<Rightarrow> u64 \<Rightarrow> (address \<rightharpoonup> address) option) \<Rightarrow> address \<Rightarrow> 'log \<Rightarrow>
   (Policy \<times> (address \<rightharpoonup> address)) option" where
  "AddSubmitAddressesToSigningPolicy R ParsePolicy submitToSigning registryContractAddress log =
     (case ParsePolicy log of
        None \<Rightarrow> None
      | Some data \<Rightarrow>
          if \<not> big_IsUint64 (pol_RewardEpochId data) then None
          else let rewardEpochID = of_int (pol_RewardEpochId data) :: u64;
                   registry =
                     (if rewardEpochID \<le> 5338 \<and> registryContractAddress = rg_newCoston2 R then rg_oldCoston2 R
                      else if rewardEpochID \<le> 5450 \<and> registryContractAddress = rg_newCoston R then rg_oldCoston R
                      else registryContractAddress)
               in map_option (\<lambda>m. (data, m)) (submitToSigning registry rewardEpochID))"

text \<open>
  One iteration of \<^verbatim>\<open>queryNextSPI\<close> over the logs of its window: \<open>Some []\<close> waits for the next tick, \<open>None\<close> is
  an error, anything else is returned.
\<close>

fun queryNextSPI_logs ::
  "('log \<Rightarrow> (Policy \<times> 'm) option) \<Rightarrow> u64 \<Rightarrow> 'log list \<Rightarrow> (Policy \<times> 'm) list \<Rightarrow> (Policy \<times> 'm) list option" where
  "queryNextSPI_logs addSubmit latestRewardEpoch [] votersDataArray = Some votersDataArray"
| "queryNextSPI_logs addSubmit latestRewardEpoch (log # logs) votersDataArray =
     (case addSubmit log of
        None \<Rightarrow> None
      | Some votersData \<Rightarrow>
          queryNextSPI_logs addSubmit latestRewardEpoch logs
            (if latestRewardEpoch < of_int (pol_RewardEpochId (fst votersData)) then votersDataArray @ [votersData]
             else votersDataArray))"

fun queryNextSPI ::
  "('log \<Rightarrow> (Policy \<times> 'm) option) \<Rightarrow> u64 \<Rightarrow> 'log list option list \<Rightarrow> (Policy \<times> 'm) list option option" where
  "queryNextSPI addSubmit latestRewardEpoch [] = None"
| "queryNextSPI addSubmit latestRewardEpoch (None # fetches) = Some None"
| "queryNextSPI addSubmit latestRewardEpoch (Some logs # fetches) =
     (case queryNextSPI_logs addSubmit latestRewardEpoch logs [] of
        None \<Rightarrow> Some None
      | Some [] \<Rightarrow> queryNextSPI addSubmit latestRewardEpoch fetches
      | Some (v # vs) \<Rightarrow> Some (Some (v # vs)))"

definition spi_startOffset :: "Timing \<Rightarrow> u64" where
  "spi_startOffset Chain =
     (if RewardEpochLength Chain div 20 + 1 < 10 then RewardEpochLength Chain div 20 + 1 else 10)"

definition SigningPolicyInitialized_sorted ::
  "('log \<Rightarrow> (Policy \<times> 'm) option) \<Rightarrow> 'log list \<Rightarrow> (Policy \<times> 'm) list option" where
  "SigningPolicyInitialized_sorted addSubmit logs =
     (if length logs = 0 then None
      else foldl (\<lambda>acc i. case acc of
                    None \<Rightarrow> None
                  | Some sortedVoters \<Rightarrow>
                      (case addSubmit (logs ! (length logs - i - 1)) of
                         None \<Rightarrow> None
                       | Some votersData \<Rightarrow> Some (sortedVoters @ [votersData])))
             (Some []) [0..<length logs])"

text \<open>
  \<^verbatim>\<open>spiTargetedListener\<close>: each element of the list is what the queries of one window return. The result is, for
  every window, when it is opened and the policies it sends; a window with an error sends nothing and the
  loop goes on with the same epoch.
\<close>

fun spiTargetedListener ::
  "('log \<Rightarrow> (Policy \<times> 'm) option) \<Rightarrow> Timing \<Rightarrow> u64 \<Rightarrow> 'log list option list list \<Rightarrow> (u64 \<times> (Policy \<times> 'm) list) list" where
  "spiTargetedListener addSubmit Chain lastInitialized [] = []"
| "spiTargetedListener addSubmit Chain lastInitialized (fetches # windows) =
     (let expectedSPIStart = ExpectedRewardEpochStartTS Chain (lastInitialized + 1);
          start = expectedSPIStart - CollectDurationSec Chain * spi_startOffset Chain
      in case queryNextSPI addSubmit lastInitialized fetches of
           None \<Rightarrow> [(start, [])]
         | Some None \<Rightarrow> (start, []) # spiTargetedListener addSubmit Chain lastInitialized windows
         | Some (Some votersData) \<Rightarrow>
             (start, votersData) # spiTargetedListener addSubmit Chain (lastInitialized + 1) windows)"

section \<open>Waiting for the database (\<^verbatim>\<open>collector.go\<close>)\<close>

text \<open>Durations in nanoseconds.\<close>

definition sync_sleep :: "int \<Rightarrow> int" where
  "sync_sleep outOfSync = (let sleepTime = min 600000000000 (outOfSync div 20) in max sleepTime 5000000000)"

text \<open>
  The observations are the delays of the database state, \<open>None\<close> where it could not be fetched. The result is
  \<open>None\<close> while the code is still waiting for an observation; the second part are the sleeps.
\<close>

datatype SyncResult = InSync | SyncPanic

fun waitForDB_loop :: "nat \<Rightarrow> int option list \<Rightarrow> SyncResult option \<times> int list" where
  "waitForDB_loop k [] = (None, [])"
| "waitForDB_loop k (None # obs) = (Some SyncPanic, [])"
| "waitForDB_loop 0 (Some outOfSync # obs) =
     (if 15000000000 < outOfSync then (Some SyncPanic, []) else (Some InSync, []))"
| "waitForDB_loop (Suc k) (Some outOfSync # obs) =
     (if outOfSync < 15000000000 then (Some InSync, [])
      else (case waitForDB_loop k obs of (res, sleeps) \<Rightarrow> (res, sync_sleep outOfSync # sleeps)))"

definition WaitForDBToSync :: "int option list \<Rightarrow> SyncResult option \<times> int list" where
  "WaitForDBToSync obs = waitForDB_loop 30 obs"

section \<open>Lemmas\<close>

lemma tryTrigger_sent:
  "tryTriggerBitVote C st bt now c = (st', Some k, d) \<Longrightarrow>
   k = cho_roundID st \<and> d \<and> st' = st\<lparr>cho_roundID := cho_roundID st + 1, cho_end := cho_end st + CollectDurationSec C\<rparr> \<and>
   (cho_end st \<le> bt \<or> cho_end st < now - 20)"
  by (auto simp: tryTriggerBitVote_def Let_def split: if_splits)

text \<open>The state holds the end of the choose phase of its round as long as rounds do not wrap.\<close>

definition choose_ok :: "Timing \<Rightarrow> choose_state \<Rightarrow> bool" where
  "choose_ok C st \<longleftrightarrow> cho_end st = ChooseEndTS C (cho_roundID st)"

lemma ChooseEndTS_Suc:
  assumes "chain_ok C" "unat n + 2 < 2 ^ 32"
  shows "ChooseEndTS C (n + 1) = ChooseEndTS C n + CollectDurationSec C" "unat (n + 1) = Suc (unat n)"
proof -
  show n: "unat (n + 1) = Suc (unat n)" using assms(2) by (subst unat_plus_nowrap) simp_all
  have e: "unat (ChooseEndTS C (n + 1)) = choose_end C (Suc (unat n))"
    using unat_ChooseEndTS [OF assms(1), of "n + 1"] assms(2) n by simp
  have e0: "unat (ChooseEndTS C n) = choose_end C (unat n)"
    using unat_ChooseEndTS [OF assms(1), of n] assms(2) by simp
  have lt: "choose_end C (Suc (unat n)) < 2 ^ 64"
    using chain_ok_limit [OF assms(1), of "Suc (Suc (unat n))"] assms(2) by linarith
  have "unat (ChooseEndTS C n + CollectDurationSec C) = choose_end C (Suc (unat n))"
    using lt e0 by (subst unat_plus_nowrap) simp_all
  then show "ChooseEndTS C (n + 1) = ChooseEndTS C n + CollectDurationSec C" using e by (simp add: word_unat_eq_iff)
qed

lemma choose_polls_rounds:
  assumes "chain_ok C"
  shows "unat (cho_roundID st) + length polls + 2 < 2 ^ 32 \<Longrightarrow> choose_ok C st \<Longrightarrow>
    choose_polls C st polls = (st', sent) \<Longrightarrow>
    map (unat \<circ> fst) sent = [unat (cho_roundID st)..<unat (cho_roundID st) + length sent] \<and>
    (\<forall>(k, bt, now) \<in> set sent. ChooseEndTS C k \<le> bt \<or> ChooseEndTS C k < now - 20) \<and>
    choose_ok C st' \<and> unat (cho_roundID st') = unat (cho_roundID st) + length sent"
proof (induction polls arbitrary: st sent)
  case Nil
  then show ?case by simp
next
  case (Cons p polls)
  obtain bt now where p: "p = (bt, now)" by (cases p)
  show ?case
  proof (cases bt)
    case None
    then show ?thesis using Cons.prems Cons.IH [of st sent] by (simp add: p)
  next
    case (Some t)
    show ?thesis
    proof (cases "cho_end st \<le> t \<or> cho_end st < now - 20")
      case False
      then have "tryTriggerBitVote C st t now False = (st, None, False)" by (simp add: tryTriggerBitVote_def)
      then show ?thesis using Cons.prems Cons.IH [of st sent] by (simp add: p Some split: prod.splits)
    next
      case True
      let ?st = "st\<lparr>cho_roundID := cho_roundID st + 1, cho_end := cho_end st + CollectDurationSec C\<rparr>"
      have trig: "tryTriggerBitVote C st t now False = (?st, Some (cho_roundID st), True)"
        using True by (auto simp: tryTriggerBitVote_def)
      obtain sent' where rec: "choose_polls C ?st polls = (st', sent')"
        and sent: "sent = (cho_roundID st, t, now) # sent'"
        using Cons.prems(3) trig by (auto simp: p Some split: prod.splits)
      have b: "unat (cho_roundID st) + 2 < 2 ^ 32" using Cons.prems(1) by simp
      note S = ChooseEndTS_Suc [OF assms b]
      have "choose_ok C ?st" using Cons.prems(2) by (simp add: choose_ok_def S(1))
      from Cons.IH [OF _ this rec] Cons.prems(1)
      have IH: "map (unat \<circ> fst) sent' = [Suc (unat (cho_roundID st))..<Suc (unat (cho_roundID st)) + length sent']"
        "\<forall>(k, bt, now) \<in> set sent'. ChooseEndTS C k \<le> bt \<or> ChooseEndTS C k < now - 20"
        "choose_ok C st'" "unat (cho_roundID st') = Suc (unat (cho_roundID st)) + length sent'"
        by (simp_all add: S(2) o_def del: upt_Suc)
      have "ChooseEndTS C (cho_roundID st) \<le> t \<or> ChooseEndTS C (cho_roundID st) < now - 20"
        using True Cons.prems(2) by (simp add: choose_ok_def)
      moreover have "[unat (cho_roundID st)..<unat (cho_roundID st) + length sent] =
          unat (cho_roundID st) # [Suc (unat (cho_roundID st))..<Suc (unat (cho_roundID st)) + length sent']"
        by (simp add: sent upt_rec)
      ultimately show ?thesis using IH by (simp add: sent o_def del: upt_Suc)
    qed
  qed
qed

subsection \<open>Request logs\<close>

text \<open>
  What the listener relies on of the database: a query answers with the logs of the blocks after \<^verbatim>\<open>From\<close>
  up to \<^verbatim>\<open>To\<close>, and the index of the state does not go back.
\<close>

definition fetch_blocks :: "(nat \<Rightarrow> 'log list) \<Rightarrow> (u64 \<Rightarrow> u64 \<Rightarrow> 'log list option) \<Rightarrow> bool" where
  "fetch_blocks blockLogs fetch \<longleftrightarrow>
     (\<forall>lo hi logs. fetch lo hi = Some logs \<longrightarrow> logs = concat (map blockLogs [Suc (unat lo)..<Suc (unat hi)]))"

fun ticks_ok :: "(nat \<Rightarrow> 'log list) \<Rightarrow> u64 \<Rightarrow> (u64 \<times> (u64 \<Rightarrow> u64 \<Rightarrow> 'log list option)) option list \<Rightarrow> bool" where
  "ticks_ok blockLogs n [] \<longleftrightarrow> True"
| "ticks_ok blockLogs n (None # ticks) \<longleftrightarrow> ticks_ok blockLogs n ticks"
| "ticks_ok blockLogs n (Some (index, fetch) # ticks) \<longleftrightarrow>
     n \<le> index \<and> fetch_blocks blockLogs fetch \<and> ticks_ok blockLogs index ticks"

lemma ticks_ok_antimono: "ticks_ok B n ticks \<Longrightarrow> m \<le> n \<Longrightarrow> ticks_ok B m ticks"
  by (induction B n ticks rule: ticks_ok.induct) auto

lemma request_ticks_blocks:
  "ticks_ok B n ticks \<Longrightarrow> request_ticks n ticks = (m, batches) \<Longrightarrow>
   n \<le> m \<and> concat batches = concat (map B [Suc (unat n)..<Suc (unat m)]) \<and> (\<forall>b \<in> set batches. b \<noteq> [])"
proof (induction n ticks arbitrary: batches rule: request_ticks.induct)
  case (1 n)
  then show ?case by simp
next
  case (2 n ticks)
  then show ?case by simp
next
  case (3 n index fetch ticks)
  show ?case
  proof (cases "fetch n index")
    case None
    have "ticks_ok B n ticks" using "3.prems"(1) by (auto intro: ticks_ok_antimono)
    then show ?thesis using "3.IH"(1) [OF None] "3.prems"(2) None by simp
  next
    case (Some logs)
    obtain rest where rec: "request_ticks index ticks = (m, rest)" and b: "batches = (if logs = [] then rest else logs # rest)"
      using "3.prems"(2) Some by (cases "request_ticks index ticks") (auto split: if_splits)
    have T: "ticks_ok B index ticks" "n \<le> index" "logs = concat (map B [Suc (unat n)..<Suc (unat index)])"
      using "3.prems"(1) Some by (auto simp: fetch_blocks_def)
    from "3.IH"(2) [OF Some T(1) rec]
    have IH: "index \<le> m" "concat rest = concat (map B [Suc (unat index)..<Suc (unat m)])" "\<forall>b \<in> set rest. b \<noteq> []"
      by blast+
    have "[Suc (unat n)..<Suc (unat m)] = [Suc (unat n)..<Suc (unat index)] @ [Suc (unat index)..<Suc (unat m)]"
      using T(2) IH(1) upt_add_eq_append [of "Suc (unat n)" "Suc (unat index)" "unat m - unat index"]
      by (simp add: word_le_unat del: upt_Suc)
    moreover have "concat batches = logs @ concat rest" using b by simp
    ultimately have "concat batches = concat (map B [Suc (unat n)..<Suc (unat m)])"
      by (simp only: T(3) IH(2) map_append concat_append)
    moreover have "\<forall>b \<in> set batches. b \<noteq> []" using b IH(3) by simp
    ultimately show ?thesis using T(2) IH(1) by (blast intro: order_trans)
  qed
qed

lemma listener_logs:
  assumes "AttestationRequestListener fetchFrom C now (Some n) ticks = Inr (l, batches)"
    and "LastCollectPhaseStart C now = Inr (k, startTS)" "fetchFrom startTS n = Some logs" "ticks_ok B n ticks"
  shows "n \<le> l \<and> concat batches = logs @ concat (map B [Suc (unat n)..<Suc (unat l)]) \<and> (\<forall>b\<in>set batches. b \<noteq> [])"
proof -
  obtain rest where rest: "request_ticks n ticks = (l, rest)" and b: "batches = (if logs = [] then rest else logs # rest)"
    using assms(1-3) by (cases "request_ticks n ticks") (auto simp: AttestationRequestListener_def)
  from request_ticks_blocks [OF assms(4) rest] b show ?thesis by simp
qed

subsection \<open>Bit votes of the choose phase\<close>

definition protocol_message :: "('tx \<Rightarrow> (u8 \<rightharpoonup> Message) option) \<Rightarrow> u8 \<Rightarrow> 'tx \<Rightarrow> Message option" where
  "protocol_message ExtractPayloads protocol tx = Option.bind (ExtractPayloads tx) (\<lambda>payloads. payloads protocol)"

lemma protocol_message_fold:
  "foldl (\<lambda>bitVotes tx. case ExtractPayloads tx of
       None \<Rightarrow> bitVotes
     | Some payloads \<Rightarrow> (case payloads protocol of None \<Rightarrow> bitVotes | Some bitVote \<Rightarrow> bitVotes @ [bitVote])) acc txs =
   acc @ List.map_filter (protocol_message ExtractPayloads protocol) txs"
  by (induction txs arbitrary: acc)
    (auto simp: protocol_message_def map_filter_simps split: option.splits)

lemma BitVoteListener_eq:
  "BitVoteListener F X C addr sel protocol n =
     (case F \<lparr>tp_ToAddress = addr, tp_FunctionSel = sel, tp_From = ChooseStartTS C n - 1, tp_To = ChooseEndTS C n - 1\<rparr> of
        None \<Rightarrow> None
      | Some txs \<Rightarrow>
          (let ms = List.map_filter (protocol_message X protocol) txs
           in if ms = [] then None else Some \<lparr>pr_Messages = ms, pr_ID = n\<rparr>))"
  by (simp add: BitVoteListener_def protocol_message_fold Let_def split: option.splits)

lemma sint_small:
  fixes w :: u64
  assumes "unat w < 2 ^ 63"
  shows "sint w = int (unat w)"
proof -
  have "int (unat w) < 2 ^ 63" using assms by (metis of_nat_less_iff of_nat_numeral of_nat_power)
  then have "signed_take_bit 63 (int (unat w)) = int (unat w)" 
    by (intro signed_take_bit_int_eq_self) (rule order_trans [of _ 0], simp_all)
  then show ?thesis by (simp only: sint_uint uint_nat len_num0 len_bit0 len_num1 diff_Suc_1) simp
qed

lemma choose_window:
  assumes "chain_ok C" "unat n < 2 ^ 32 - 1" "choose_end C (unat n) < 2 ^ 63"
  shows "sint (ChooseStartTS C n - 1) < int t \<and> int t \<le> sint (ChooseEndTS C n - 1) \<longleftrightarrow>
    unat (ChooseStartTS C n) \<le> t \<and> t < unat (ChooseEndTS C n)"
proof -
  have s: "unat (ChooseStartTS C n) = round_start C (Suc (unat n))" by (rule unat_ChooseStartTS [OF assms(1,2)])
  have e: "unat (ChooseEndTS C n) = choose_end C (unat n)" by (rule unat_ChooseEndTS [OF assms(1,2)])
  have pos: "0 < unat (ChooseStartTS C n)" "0 < unat (ChooseEndTS C n)"
    unfolding s e using chain_ok_collect [OF assms(1)] by simp_all
  have sub: "unat (w - 1) = unat w - 1" if "0 < unat w" for w :: u64
    using unat_minus_nowrap [of 1 w] that by simp
  have s1: "unat (ChooseStartTS C n - 1) = unat (ChooseStartTS C n) - 1" by (rule sub [OF pos(1)])
  have e1: "unat (ChooseEndTS C n - 1) = unat (ChooseEndTS C n) - 1" by (rule sub [OF pos(2)])
  have lt: "unat (ChooseStartTS C n - 1) < 2 ^ 63" "unat (ChooseEndTS C n - 1) < 2 ^ 63"
    unfolding s1 e1 s e using assms(3) by linarith+
  show ?thesis unfolding sint_small [OF lt(1)] sint_small [OF lt(2)] s1 e1 using pos by linarith
qed

subsection \<open>Signing policies\<close>

abbreviation newer :: "u64 \<Rightarrow> Policy \<times> 'm \<Rightarrow> bool" where
  "newer epoch v \<equiv> epoch < of_int (pol_RewardEpochId (fst v))"

lemma queryNextSPI_logs_iff:
  "queryNextSPI_logs addSubmit epoch logs acc = Some vs \<longleftrightarrow>
   None \<notin> addSubmit ` set logs \<and> vs = acc @ filter (newer epoch) (map (the \<circ> addSubmit) logs)"
  by (induction logs arbitrary: acc) (auto split: option.splits)

text \<open>A window sends the policies of the first query that has any of a later epoch, all of them.\<close>

lemma queryNextSPI_sent:
  "queryNextSPI addSubmit epoch fetches = Some (Some vs) \<Longrightarrow>
   vs \<noteq> [] \<and> (\<exists>logs. Some logs \<in> set fetches \<and> None \<notin> addSubmit ` set logs \<and>
     vs = filter (newer epoch) (map (the \<circ> addSubmit) logs))"
proof (induction addSubmit epoch fetches rule: queryNextSPI.induct)
  case (3 addSubmit epoch logs fetches)
  show ?case
  proof (cases "queryNextSPI_logs addSubmit epoch logs []")
    case None
    then show ?thesis using "3.prems" by simp
  next
    case (Some ws)
    show ?thesis
    proof (cases ws)
      case Nil
      then show ?thesis using "3.IH" [of ws] Some "3.prems" by auto
    next
      case (Cons v vs')
      then have vs: "vs = ws" using "3.prems" Some by simp
      have "None \<notin> addSubmit ` set logs" "ws = filter (newer epoch) (map (the \<circ> addSubmit) logs)"
        using Some [unfolded queryNextSPI_logs_iff] by simp_all
      moreover have "vs \<noteq> []" using Cons vs by simp
      ultimately show ?thesis unfolding vs by (blast intro: list.set_intros)
    qed
  qed
qed simp_all

lemma sorted_voters_fold:
  "foldl (\<lambda>acc i. case acc of None \<Rightarrow> None
            | Some vs \<Rightarrow> (case f i of None \<Rightarrow> None | Some v \<Rightarrow> Some (vs @ [v]))) (Some acc) ns =
   (if None \<in> f ` set ns then None else Some (acc @ map (the \<circ> f) ns))"
proof (induction ns arbitrary: acc)
  case (Cons n ns)
  have none: "foldl (\<lambda>acc i. case acc of None \<Rightarrow> None
            | Some vs \<Rightarrow> (case f i of None \<Rightarrow> None | Some v \<Rightarrow> Some (vs @ [v]))) None ns = None" for ns
    by (induction ns) simp_all
  show ?case using Cons by (cases "f n") (auto simp: none)
qed simp

lemma map_nth_rev: "map (\<lambda>i. xs ! (length xs - i - 1)) [0..<length xs] = rev xs"
  by (rule nth_equalityI) (simp_all add: rev_nth)

lemma SigningPolicyInitialized_sorted_iff:
  "SigningPolicyInitialized_sorted addSubmit logs = Some vs \<longleftrightarrow>
   logs \<noteq> [] \<and> None \<notin> addSubmit ` set logs \<and> vs = map (the \<circ> addSubmit) (rev logs)"
proof -
  let ?f = "\<lambda>i. addSubmit (logs ! (length logs - i - 1))"
  have im: "?f ` set [0..<length logs] = addSubmit ` set logs"
  proof -
    have "?f ` set [0..<length logs] = addSubmit ` set (map (\<lambda>i. logs ! (length logs - i - 1)) [0..<length logs])"
      by (simp only: set_map image_image)
    then show ?thesis by (simp only: map_nth_rev set_rev)
  qed
  have mp: "map (the \<circ> ?f) [0..<length logs] = map (the \<circ> addSubmit) (rev logs)"
    by (simp only: map_nth_rev [symmetric] map_map o_def)
  show ?thesis
    unfolding SigningPolicyInitialized_sorted_def sorted_voters_fold im mp append_Nil by (simp only: length_0_conv) auto
qed

subsection \<open>Synchronisation\<close>

lemma sync_sleep_bounds: "5000000000 \<le> sync_sleep d" "sync_sleep d \<le> 600000000000"
  by (simp_all add: sync_sleep_def Let_def)

lemma waitForDB_loop_sleeps:
  "waitForDB_loop k obs = (r, sleeps) \<Longrightarrow> length sleeps \<le> k \<and> (\<forall>s \<in> set sleeps. 5000000000 \<le> s \<and> s \<le> 600000000000)"
  by (induction k obs arbitrary: r sleeps rule: waitForDB_loop.induct)
    (auto simp: sync_sleep_bounds split: if_splits prod.splits)

lemma waitForDB_loop_done: "k < length obs \<Longrightarrow> fst (waitForDB_loop k obs) \<noteq> None"
  by (induction k obs rule: waitForDB_loop.induct) (auto split: prod.splits)

lemma waitForDB_loop_sync:
  "fst (waitForDB_loop k obs) = Some InSync \<Longrightarrow> \<exists>d. Some d \<in> set obs \<and> d \<le> 15000000000"
  by (induction k obs rule: waitForDB_loop.induct) (auto split: prod.splits if_splits)

section \<open>Properties\<close>

lemma choose_polls_append:
  "choose_polls C st (xs @ ys) =
     (case choose_polls C st xs of (st', a) \<Rightarrow> (case choose_polls C st' ys of (st'', b) \<Rightarrow> (st'', a @ b)))"
  by (induction C st xs rule: choose_polls.induct) (auto split: prod.splits option.splits)

text \<open>
  C28. The choose trigger: the rounds sent are consecutive, beginning with the first one whose choose phase has
  not ended at the start, each once, and none before the database or, with a slack of 20 seconds, the clock
  has reached the end of its choose phase; and as soon as the block time of a poll has reached the end of the
  next round, that round is sent.
\<close>

theorem choose_trigger:
  assumes C: "chain_ok C" and start: "NextChooseEnd C bt = Inr (n, e)" "unat bt \<le> choose_end C (2 ^ 32 - 2)"
    and bound: "unat n + length polls + 2 < 2 ^ 32" and sent: "PrepareChooseTrigger C bt polls = Inr sent"
  shows "map (unat \<circ> fst) sent = [unat n..<unat n + length sent] \<and>
    (\<forall>(k, t, now)\<in>set sent. ChooseEndTS C k \<le> t \<or> ChooseEndTS C k < now - 20) \<and>
    (\<forall>t now. let k = n + of_nat (length sent) in ChooseEndTS C k \<le> t \<longrightarrow>
       PrepareChooseTrigger C bt (polls @ [(Some t, now)]) = Inr (sent @ [(k, t, now)]))"
proof -
  let ?st = "\<lparr>cho_roundID = n, cho_end = e\<rparr>"
  have "e = ChooseEndTS C n" by (rule NextChooseEnd_first [OF C start(2)]) (use start(1) in auto)
  then have ok: "choose_ok C ?st" by (simp add: choose_ok_def)
  obtain st' where run: "choose_polls C ?st polls = (st', sent)"
    using sent start(1) by (cases "choose_polls C ?st polls") (simp add: PrepareChooseTrigger_def)
  from choose_polls_rounds [OF C _ ok run] bound
  have R: "map (unat \<circ> fst) sent = [unat n..<unat n + length sent]"
    "\<forall>(k, t, now)\<in>set sent. ChooseEndTS C k \<le> t \<or> ChooseEndTS C k < now - 20"
    "choose_ok C st'" "unat (cho_roundID st') = unat n + length sent" by simp_all
  have k: "cho_roundID st' = n + of_nat (length sent)"
  proof -
    have "cho_roundID st' = of_nat (unat (cho_roundID st'))" by simp
    also have "\<dots> = n + of_nat (length sent)" unfolding R(4) by simp
    finally show ?thesis .
  qed
  have "PrepareChooseTrigger C bt (polls @ [(Some t, now)]) = Inr (sent @ [(cho_roundID st', t, now)])"
    if "ChooseEndTS C (cho_roundID st') \<le> t" for t now
    using that R(3) start(1) run
    by (simp add: PrepareChooseTrigger_def choose_polls_append tryTriggerBitVote_def choose_ok_def)
  with R(1,2) show ?thesis by (simp add: k Let_def)
qed

theorem choose_trigger_witness:
  "PrepareChooseTrigger Chain_default 1658430090 [(None, 1658430100), (Some 1658430095, 1658430096), (Some 1658430100, 1658430101)] =
     Inr [(0, 1658430095, 1658430096)] \<and>
   PrepareChooseTrigger Chain_default 1658430090
     ([(None, 1658430100), (Some 1658430095, 1658430096), (Some 1658430100, 1658430101)] @ [(Some 1658430185, 1658430192)]) =
     Inr ([(0, 1658430095, 1658430096)] @ [(1, 1658430185, 1658430192)])"
proof -
  let ?polls = "[(None, 1658430100), (Some 1658430095, 1658430096), (Some 1658430100, 1658430101)] :: (u64 option \<times> u64) list"
  have sent: "PrepareChooseTrigger Chain_default 1658430090 ?polls = Inr [(0, 1658430095, 1658430096)]" by code_simp
  have next0: "NextChooseEnd Chain_default 1658430090 = Inr (0, 1658430090)" by code_simp
  have "ChooseEndTS Chain_default (0 + of_nat (length [(0 :: u32, 1658430095 :: u64, 1658430096 :: u64)])) \<le> 1658430185"
    by (simp add: ChooseEndTS_def ChooseStartTS_def RoundStartTS_def Chain_default_def)
  with choose_trigger [OF chain_ok_default next0 _ _ sent] sent show ?thesis
    by (simp add: Let_def Chain_default_def)
qed

text \<open>
  C29. The request listener sends every request log exactly once and in order: after the logs of the first
  query, the batches concatenated are the logs of the blocks after the first known block up to the last
  queried one, whatever queries failed in between, and no batch is empty.
\<close>

theorem requests_exactly_once:
  assumes "AttestationRequestListener fetchFrom C now (Some n) ticks = Inr (l, batches)"
    and "LastCollectPhaseStart C now = Inr (k, startTS)" "fetchFrom startTS n = Some logs" "ticks_ok B n ticks"
  shows "n \<le> l \<and> concat batches = logs @ concat (map B [Suc (unat n)..<Suc (unat l)]) \<and> (\<forall>b\<in>set batches. b \<noteq> [])"
  by (rule listener_logs [OF assms])

theorem requests_exactly_once_witness:
  "\<exists>l batches. AttestationRequestListener (\<lambda>ts n. Some [0]) Chain_default 1658430000 (Some 3)
      [Some (4, \<lambda>lo hi. None), None, Some (6, \<lambda>lo hi. Some [Suc (unat lo)..<Suc (unat hi)])] = Inr (l, batches) \<and>
    concat batches = [0] @ concat (map (\<lambda>b. [b]) [4..<Suc (unat l)])"
proof -
  let ?ticks = "[Some (4, \<lambda>lo hi. None), None, Some (6, \<lambda>lo hi. Some [Suc (unat lo)..<Suc (unat hi)])]
    :: (u64 \<times> (u64 \<Rightarrow> u64 \<Rightarrow> nat list option)) option list"
  have start: "LastCollectPhaseStart Chain_default 1658430000 = Inr (0, 1658429955)" by code_simp
  have ticks: "ticks_ok (\<lambda>b. [b]) 3 ?ticks" by (simp add: fetch_blocks_def del: upt_Suc) 
  obtain l batches where run: "AttestationRequestListener (\<lambda>ts n. Some [0]) Chain_default 1658430000 (Some 3) ?ticks = Inr (l, batches)"
    by (cases "request_ticks 3 ?ticks") (simp add: AttestationRequestListener_def start)
  from requests_exactly_once [OF run start _ ticks] run show ?thesis by fastforce
qed

text \<open>
  C40. Waiting for the database ends: after at most 31 observations \<^verbatim>\<open>WaitForDBToSync\<close> has returned or
  panicked, it has slept at most 30 times, each time between 5 seconds and 10 minutes, and it returns only
  when an observed delay is at most 15 seconds.
\<close>

theorem db_sync_terminates:
  assumes "30 < length obs"
  shows "case WaitForDBToSync obs of (res, sleeps) \<Rightarrow>
    res \<noteq> None \<and> length sleeps \<le> 30 \<and> (\<forall>s\<in>set sleeps. 5 * 10 ^ 9 \<le> s \<and> s \<le> 600 * 10 ^ 9) \<and>
    (res = Some InSync \<longrightarrow> (\<exists>d. Some d \<in> set obs \<and> d \<le> 15 * 10 ^ 9))"
proof (cases "WaitForDBToSync obs")
  case (Pair res sleeps)
  then have run: "waitForDB_loop 30 obs = (res, sleeps)" by (simp add: WaitForDBToSync_def)
  from waitForDB_loop_done [OF assms] waitForDB_loop_sleeps [OF run] waitForDB_loop_sync [of 30 obs] run Pair
  show ?thesis by simp
qed

theorem db_sync_terminates_witness:
  "case WaitForDBToSync (Some 100000000000 # replicate 30 (Some 3)) of (res, sleeps) \<Rightarrow> res \<noteq> None \<and> length sleeps \<le> 30"
proof -
  have "30 < length (Some 100000000000 # replicate 30 (Some 3) :: int option list)" by simp
  from db_sync_terminates [OF this] show ?thesis by (simp split: prod.splits)
qed

end
