(* ===== verification/Client.thy ===== *)
theory Client
  imports Server Collector
begin

text \<open>
  The client as \<^verbatim>\<open>main/main.go\<close> wires it: the manager's receives, the queue workers and the REST handlers act on
  the same rounds, in any order. Each of them is one step; what a handler reads and writes between taking
  and releasing a round's lock is atomic, so the interleavings are those of the lock's critical sections
  (\<open>Locks\<close> has the mutexes themselves). A verifier may answer each time as it likes: the HTTP exchange \<open>H\<close> is
  that of the one step that handles an attestation.

  Shown here: every reachable client has consistent rounds; and two effects of the handlers on the others:
  a Merkle root served from the cache leaves the round locked for writers for ever, and a query for the
  attestations of a round before its consensus makes the queue workers discard all of them.
\<close>

section \<open>Steps\<close>

inductive client_step ::
  "('s, 'p, 'sp, 'q) lib \<Rightarrow> ('m dbLog_scheme \<Rightarrow> (bytes \<times> int) option) \<Rightarrow> (bytes \<Rightarrow> bytes) \<Rightarrow> Timing \<Rightarrow>
   ('arg, 'val) abi \<Rightarrow> merkle_lib \<Rightarrow> ('arg, 's, 'p, 'q) Manager \<Rightarrow> ('arg, 's, 'p, 'q) Manager \<Rightarrow> bool"
  for L parse K C A M where
  initial: "Run_initialPolicies L m ds = Some m' \<Longrightarrow> client_step L parse K C A M m m'"
| policies: "client_step L parse K C A M m (Run_signingPolicies L m ds)"
| bitVotes: "Run_bitVotes L C m k ms = Some m' \<Longrightarrow> client_step L parse K C A M m m'"
| requests: "Run_requests L parse K C m logs = Some m' \<Longrightarrow> client_step L parse K C A M m m'"
| dequeued: "client_step L parse K C A M m (run_dequeued H A K C m a)"
| submit2: "submit2Service L BuildMessage protocolID m k addr = Some (m', out) \<Longrightarrow> client_step L parse K C A M m m'"
| submitSignatures:
    "submitSignaturesService L M BuildMessageForSigning protocolID m k = Some (m', response) \<Longrightarrow>
     client_step L parse K C A M m m'"
| getAttestations: "GetAttestations L M m k = Some (m', res) \<Longrightarrow> client_step L parse K C A M m m'"

abbreviation client_reach where
  "client_reach L parse K C A M \<equiv> (client_step L parse K C A M)\<^sup>*\<^sup>*"

section \<open>The invariant\<close>

lemma MerkleTree_frame:
  assumes "MerkleTree Build h r = Some (h', r', res)"
  shows "h_atts h' = h_atts h" "r_ID r' = r_ID r" "r_Status r' = r_Status r" "r_Attestations r' = r_Attestations r"
    "r_attestationMap r' = r_attestationMap r" "r_bitVotes r' = r_bitVotes r"
    "r_bitVoteCheckList r' = r_bitVoteCheckList r" "r_voterSet r' = r_voterSet r" "r_readLocks r' = r_readLocks r"
  using assms by (auto simp: MerkleTree_def Let_def split: sum.splits)

lemma MerkleRoot_frame:
  assumes "MerkleRoot Build Root h r = Some (h', r', res)"
  shows "h_atts h' = h_atts h" "r_ID r' = r_ID r" "r_Status r' = r_Status r" "r_Attestations r' = r_Attestations r"
    "r_attestationMap r' = r_attestationMap r" "r_bitVotes r' = r_bitVotes r"
    "r_bitVoteCheckList r' = r_bitVoteCheckList r" "r_voterSet r' = r_voterSet r" "r_readLocks r \<le> r_readLocks r'"
  using assms
  by (auto simp: MerkleRoot_def MerkleTreeCached_def Let_def split: option.splits sum.splits if_splits
      dest: MerkleTree_frame)

lemma submit2Service_ok [wf_keep]:
  assumes ok: "manager_ok L K m" and res: "submit2Service L BM pid m k addr = Some (m', out)"
  shows "manager_ok L K m'"
proof (cases "cy_Get L (m_Rounds m) k")
  case None
  with assms show ?thesis by (simp add: submit2Service_def)
next
  case (Some ra)
  obtain r where r: "m_round m ra = Some r" using manager_okD(3) [OF ok Some] by blast
  let ?m = "m\<lparr>m_heap := m_heap m, m_round := (m_round m)(ra \<mapsto> sortAttestations (m_heap m) r)\<rparr>"
  have "m' = ?m"
    using res Some r by (auto simp: submit2Service_def BitVoteBytes_def Round_BitVote_def Let_def split: option.splits sum.splits)
  moreover have "manager_ok L K ?m"
    by (rule manager_ok_replace [OF ok r]) (simp_all add: sortAttestations_def)
  ultimately show ?thesis by simp
qed

lemma submitSignaturesService_ok [wf_keep]:
  assumes ok: "manager_ok L K m" and res: "submitSignaturesService L M BM pid m k = Some (m', out)"
  shows "manager_ok L K m'"
proof (cases "cy_Get L (m_Rounds m) k")
  case None
  with assms show ?thesis by (simp add: submitSignaturesService_def)
next
  case (Some ra)
  obtain r where r: "m_round m ra = Some r" using manager_okD(3) [OF ok Some] by blast
  have "m' = m \<or> (\<exists>h r' x. MerkleRoot (mk_Build M) (mk_Root M) (m_heap m) r = Some (h, r', x) \<and>
      m' = m\<lparr>m_heap := h, m_round := (m_round m)(ra \<mapsto> r')\<rparr>)"
    using res by (auto simp: submitSignaturesService_round [OF Some r] split: option.splits if_splits)
  then show ?thesis
  proof
    assume "\<exists>h r' x. MerkleRoot (mk_Build M) (mk_Root M) (m_heap m) r = Some (h, r', x) \<and>
      m' = m\<lparr>m_heap := h, m_round := (m_round m)(ra \<mapsto> r')\<rparr>"
    then obtain h r' x where root: "MerkleRoot (mk_Build M) (mk_Root M) (m_heap m) r = Some (h, r', x)"
      and m': "m' = m\<lparr>m_heap := h, m_round := (m_round m)(ra \<mapsto> r')\<rparr>" by blast
    show ?thesis unfolding m' by (rule manager_ok_replace [OF ok r]) (simp_all add: MerkleRoot_frame [OF root])
  qed (simp add: ok)
qed

lemma GetAttestations_ok [wf_keep]:
  assumes ok: "manager_ok L K m" and res: "GetAttestations L M m k = Some (m', out)"
  shows "manager_ok L K m'"
proof (cases "cy_Get L (m_Rounds m) k")
  case None
  with assms show ?thesis by (simp add: GetAttestations_def)
next
  case (Some ra)
  obtain r where r: "m_round m ra = Some r" using manager_okD(3) [OF ok Some] by blast
  obtain h r' x where tree: "MerkleTree (mk_Build M) (m_heap m) r = Some (h, r', x)"
    and m': "m' = m\<lparr>m_heap := h, m_round := (m_round m)(ra \<mapsto> r')\<rparr>"
    using res Some r by (auto simp: GetAttestations_def Let_def split: option.splits sum.splits)
  show ?thesis unfolding m' by (rule manager_ok_replace [OF ok r]) (simp_all add: MerkleTree_frame [OF tree])
qed

lemma client_step_ok:
  assumes "client_step L parse K C A M m m'" "cyclic_ok L" "manager_ok L K m"
  shows "manager_ok L K m'"
  using assms by (induction rule: client_step.induct) (auto intro: wf_keep)

lemma client_reach_ok:
  assumes "client_reach L parse K C A M m m'" "cyclic_ok L" "manager_ok L K m"
  shows "manager_ok L K m'"
  using assms by (induction rule: rtranclp_induct) (auto intro: client_step_ok)

section \<open>Locks\<close>

text \<open>No call that returns gives back a read lock that an earlier call left behind.\<close>

definition locks_le :: "('arg, 's, 'p, 'q) Manager \<Rightarrow> ('arg, 's, 'p, 'q) Manager \<Rightarrow> bool" where
  "locks_le m m' \<longleftrightarrow>
     (\<forall>ra r. m_round m ra = Some r \<longrightarrow> (\<exists>r'. m_round m' ra = Some r' \<and> r_readLocks r \<le> r_readLocks r'))"

lemma locks_leD:
  "locks_le m m' \<Longrightarrow> m_round m ra = Some r \<Longrightarrow> \<exists>r'. m_round m' ra = Some r' \<and> r_readLocks r \<le> r_readLocks r'"
  by (simp add: locks_le_def)

lemma locks_le_rounds: "m_round m' = m_round m \<Longrightarrow> locks_le m m'"
  by (simp add: locks_le_def)

lemma locks_le_refl [simp]: "locks_le m m"
  by (simp add: locks_le_def)

lemma locks_le_trans: "locks_le m m1 \<Longrightarrow> locks_le m1 m2 \<Longrightarrow> locks_le m m2"
  unfolding locks_le_def by (blast intro: order_trans)

lemma locks_le_upd:
  "m_round m' = (m_round m)(ra \<mapsto> r') \<Longrightarrow> m_round m ra = Some r \<Longrightarrow> r_readLocks r \<le> r_readLocks r' \<Longrightarrow> locks_le m m'"
  by (auto simp: locks_le_def)

lemma locks_le_foldl:
  assumes "\<And>m x. P m \<Longrightarrow> P (f m x) \<and> locks_le m (f m x)" "P m"
  shows "P (foldl f m xs) \<and> locks_le m (foldl f m xs)"
  using assms(2)
proof (induction xs arbitrary: m)
  case (Cons x xs)
  have "P (f m x)" "locks_le m (f m x)" using assms(1) [OF Cons.prems] by simp_all
  then show ?case using Cons.IH [of "f m x"] by (auto intro: locks_le_trans)
qed simp

lemma locks_le_create: "manager_ok L K m \<Longrightarrow> locks_le m (create_round L m k vs)"
proof -
  assume ok: "manager_ok L K m"
  have "m_round m (m_next m) = None"
  proof (cases "m_round m (m_next m)")
    case (Some r)
    with manager_okD(1) [OF ok Some] show ?thesis by (simp add: round_in_manager_def)
  qed
  then show ?thesis by (auto simp: locks_le_def)
qed

lemma locks_le_GetOrCreate:
  assumes "manager_ok L K m" "GetOrCreateRound L m k = (m', out)"
  shows "locks_le m m'"
  using GetOrCreateRound_cases [of L m k thesis] assms(2) locks_le_create [OF assms(1)]
  by (metis GetOrCreateRound_cases locks_le_refl prod.inject)

lemma ProcessBitVote_locks [simp]: "r_readLocks (fst (ProcessBitVote r m)) = r_readLocks r"
  by (simp add: ProcessBitVote_def Let_def split: sum.splits option.splits)

lemma AddAttestation_locks: "AddAttestation K h r n = Some (h', r', b) \<Longrightarrow> r_readLocks r' = r_readLocks r"
  by (erule AddAttestation_cases) simp_all

lemma ComputeConsensus_locks: "ComputeConsensusBitVote h r = Some (h', r', e) \<Longrightarrow> r_readLocks r' = r_readLocks r"
  by (erule ComputeConsensus_outcome) simp

lemma locks_le_OnBitVote:
  assumes "cyclic_ok L" "manager_ok L K m"
  shows "locks_le m (fst (OnBitVote L C m msg))"
proof -
  obtain m1 out where g: "GetOrCreateRound L m (msg_VotingRound msg) = (m1, out)" by fastforce
  note ok1 = GetOrCreateRound_ok [OF assms g] and le1 = locks_le_GetOrCreate [OF assms(2) g]
  show ?thesis
  proof (cases out)
    case (Inl e)
    then show ?thesis using g le1 by (simp add: OnBitVote_def)
  next
    case (Inr ra)
    obtain r where r: "m_round m1 ra = Some r" using ok1(2) [OF Inr] by blast
    have "locks_le m1 (m1\<lparr>m_round := (m_round m1)(ra \<mapsto> fst (ProcessBitVote r msg))\<rparr>)"
      by (rule locks_le_upd [OF _ r]) (simp, rule eq_refl, rule ProcessBitVote_locks [symmetric])
    then have "locks_le m (m1\<lparr>m_round := (m_round m1)(ra \<mapsto> fst (ProcessBitVote r msg))\<rparr>)"
      by (rule locks_le_trans [OF le1])
    then show ?thesis using g r Inr
      by (auto simp: OnBitVote_def case_prod_beta Let_def split: option.splits)
  qed
qed

lemma AddToQueue_rounds [simp]: "m_round (fst (AddToQueue L m a)) = m_round m"
  by (simp add: AddToQueue_def case_prod_beta Let_def split: option.splits)

lemma locks_le_OnRequest:
  fixes m :: "('arg, 's, 'p, 'q) Manager"
  assumes L: "cyclic_ok L" and ok: "manager_ok L K m" and res: "OnRequest L parse K C m request = Some (m', err)"
  shows "locks_le m m'"
proof (cases "AttestationFromDatabaseLog parse C request :: AttError + 'arg Attestation")
  case (Inl e)
  with res show ?thesis by (simp add: OnRequest_def)
next
  case (Inr att)
  let ?n = "m_next m"
  let ?m = "m\<lparr>m_heap := (m_heap m)\<lparr>h_atts := (h_atts (m_heap m))(?n := att)\<rparr>, m_next := Suc ?n\<rparr>"
  have okm: "manager_ok L K ?m" by (rule alloc_att_ok [OF ok])
  obtain m1 out where g: "GetOrCreateRound L ?m (at_RoundID att) = (m1, out)" by fastforce
  note ok1 = GetOrCreateRound_ok [OF L okm g] and le1 = locks_le_GetOrCreate [OF okm g]
  have le0: "locks_le m ?m" by (rule locks_le_rounds) simp
  note d = res [unfolded OnRequest_def Inr sum.case Let_def g prod.case]
  show ?thesis
  proof (cases out)
    case (Inl e)
    with d have "m' = m1" by simp
    with locks_le_trans [OF le0 le1] show ?thesis by simp
  next
    case (Inr ra)
    obtain r where r: "m_round m1 ra = Some r" using ok1(2) [OF Inr] by blast
    obtain h r' added where add: "AddAttestation K (m_heap m1) r ?n = Some (h, r', added)"
      using d Inr r by (auto split: option.splits)
    let ?m2 = "m1\<lparr>m_heap := h, m_round := (m_round m1)(ra \<mapsto> r')\<rparr>"
    have "locks_le m1 ?m2" by (rule locks_le_upd [OF _ r]) (simp, simp add: AddAttestation_locks [OF add])
    then have le: "locks_le m ?m2" by (rule locks_le_trans [OF locks_le_trans [OF le0 le1]])
    have "m' = fst (if added then AddToQueue L ?m2 ?n else (?m2, None))"
      using d Inr r add by (auto simp: Let_def)
    then have "m_round m' = m_round ?m2" by simp
    then show ?thesis by (rule locks_le_trans [OF le locks_le_rounds])
  qed
qed

lemma OnSigningPolicy_rounds [simp]: "m_round (fst (OnSigningPolicy L m d)) = m_round m"
  by (simp add: OnSigningPolicy_def Let_def split: option.splits)

lemma locks_le_Run_signingPolicies: "locks_le m (Run_signingPolicies L m ds)"
proof -
  have "m_round (foldl (\<lambda>m d. fst (OnSigningPolicy L m d)) m ds) = m_round m"
    by (induction ds arbitrary: m) simp_all
  then show ?thesis by (intro locks_le_rounds) (simp add: Run_signingPolicies_def Let_def)
qed

lemma locks_le_Run_initialPolicies: "Run_initialPolicies L m ds = Some m' \<Longrightarrow> locks_le m m'"
proof (induction ds arbitrary: m)
  case (Cons d ds)
  obtain m1 where m1: "OnSigningPolicy L m d = (m1, None)" "Run_initialPolicies L m1 ds = Some m'"
    using Cons.prems by (auto split: prod.splits option.splits)
  have "locks_le m m1" using OnSigningPolicy_rounds [of L m d] m1(1) by (intro locks_le_rounds) simp
  then show ?case using Cons.IH [OF m1(2)] by (rule locks_le_trans)
qed simp

lemma retry_rounds [simp]: "m_round (fst (retryUnsuccessfulChosen L m r)) = m_round m"
  by (simp add: retryUnsuccessfulChosen_def case_prod_beta Let_def)

lemma locks_le_Run_bitVotes:
  assumes L: "cyclic_ok L" and ok: "manager_ok L K m" and res: "Run_bitVotes L C m k ms = Some m'"
  shows "locks_le m m'"
proof -
  define m1 where "m1 = foldl (\<lambda>m message. fst (OnBitVote L C m message)) m ms"
  have "manager_ok L K n \<Longrightarrow> manager_ok L K (fst (OnBitVote L C n x)) \<and> locks_le n (fst (OnBitVote L C n x))" for n x
    using OnBitVote_ok [OF L] locks_le_OnBitVote [OF L] by blast
  from locks_le_foldl [where P = "manager_ok L K" and f = "\<lambda>m message. fst (OnBitVote L C m message)", OF this ok]
  have 1: "manager_ok L K m1" "locks_le m m1" by (simp_all add: m1_def)
  note d = res [unfolded Run_bitVotes_def m1_def [symmetric] Let_def]
  show ?thesis
  proof (cases "cy_Get L (m_Rounds m1) k")
    case None
    with d 1(2) show ?thesis by simp
  next
    case (Some ra)
    obtain r where r: "m_round m1 ra = Some r" using manager_okD(3) [OF 1(1) Some] by blast
    obtain h r' err where c: "ComputeConsensusBitVote (m_heap m1) r = Some (h, r', err)"
      using d Some r by (auto split: option.splits)
    let ?m = "m1\<lparr>m_heap := h, m_round := (m_round m1)(ra \<mapsto> r')\<rparr>"
    have "locks_le m1 ?m" by (rule locks_le_upd [OF _ r]) (simp, simp add: ComputeConsensus_locks [OF c])
    then have le: "locks_le m ?m" by (rule locks_le_trans [OF 1(2)])
    have "m' = (if err = None then fst (retryUnsuccessfulChosen L ?m r') else ?m)" using d Some r c by simp
    then have "m_round m' = m_round ?m" by simp
    then show ?thesis by (rule locks_le_trans [OF le locks_le_rounds])
  qed
qed

lemma locks_le_Run_requests:
  assumes L: "cyclic_ok L"
  shows "manager_ok L K m \<Longrightarrow> Run_requests L parse K C m logs = Some m' \<Longrightarrow> locks_le m m'"
proof (induction logs arbitrary: m)
  case (Cons l logs)
  from Cons.prems(2) obtain m1 err where r: "OnRequest L parse K C m l = Some (m1, err)" "Run_requests L parse K C m1 logs = Some m'"
    by (auto split: option.splits)
  have "locks_le m m1" by (rule locks_le_OnRequest [OF L Cons.prems(1) r(1)])
  moreover have "locks_le m1 m'" by (rule Cons.IH [OF OnRequest_ok [OF L Cons.prems(1) r(1)] r(2)])
  ultimately show ?case by (rule locks_le_trans)
qed simp

lemma locks_le_run_dequeued: "locks_le m (run_dequeued H A K C m a)"
  by (rule locks_le_rounds) (simp add: run_dequeued_def handler_def case_prod_beta Let_def)

lemma locks_le_submit2Service:
  assumes ok: "manager_ok L K m" and res: "submit2Service L BM pid m k addr = Some (m', out)"
  shows "locks_le m m'"
proof (cases "cy_Get L (m_Rounds m) k")
  case None
  with res show ?thesis by (simp add: submit2Service_def)
next
  case (Some ra)
  obtain r where r: "m_round m ra = Some r" using manager_okD(3) [OF ok Some] by blast
  have "m_round m' = (m_round m)(ra \<mapsto> sortAttestations (m_heap m) r)"
    using res Some r by (auto simp: submit2Service_def BitVoteBytes_def Round_BitVote_def Let_def split: option.splits sum.splits)
  then show ?thesis by (rule locks_le_upd [OF _ r]) simp
qed

lemma locks_le_submitSignatures:
  assumes ok: "manager_ok L K m" and res: "submitSignaturesService L M BM pid m k = Some (m', out)"
  shows "locks_le m m'"
proof (cases "cy_Get L (m_Rounds m) k")
  case None
  with res show ?thesis by (simp add: submitSignaturesService_def)
next
  case (Some ra)
  obtain r where r: "m_round m ra = Some r" using manager_okD(3) [OF ok Some] by blast
  from res consider "m' = m" | h r' x where "MerkleRoot (mk_Build M) (mk_Root M) (m_heap m) r = Some (h, r', x)"
      "m_round m' = (m_round m)(ra \<mapsto> r')"
    by (auto simp: submitSignaturesService_round [OF Some r] split: option.splits if_splits)
  then show ?thesis
  proof cases
    case 2
    show ?thesis by (rule locks_le_upd [OF 2(2) r MerkleRoot_frame(9) [OF 2(1)]])
  qed simp
qed

lemma locks_le_GetAttestations:
  assumes ok: "manager_ok L K m" and res: "GetAttestations L M m k = Some (m', out)"
  shows "locks_le m m'"
proof (cases "cy_Get L (m_Rounds m) k")
  case None
  with res show ?thesis by (simp add: GetAttestations_def)
next
  case (Some ra)
  obtain r where r: "m_round m ra = Some r" using manager_okD(3) [OF ok Some] by blast
  obtain h r' x where tree: "MerkleTree (mk_Build M) (m_heap m) r = Some (h, r', x)"
    and m': "m_round m' = (m_round m)(ra \<mapsto> r')"
    using res Some r by (auto simp: GetAttestations_def Let_def split: option.splits sum.splits)
  show ?thesis by (rule locks_le_upd [OF m' r]) (simp add: MerkleTree_frame(9) [OF tree])
qed

lemmas locks_le_steps = locks_le_Run_initialPolicies locks_le_Run_signingPolicies locks_le_Run_bitVotes
  locks_le_Run_requests locks_le_run_dequeued locks_le_submit2Service locks_le_submitSignatures locks_le_GetAttestations

lemma client_step_locks:
  assumes "client_step L parse K C A M m m'" "cyclic_ok L" "manager_ok L K m"
  shows "locks_le m m'"
  using assms by (induction rule: client_step.induct) (auto intro: locks_le_steps)

lemma client_reach_locks:
  assumes "client_reach L parse K C A M m m'" and L: "cyclic_ok L" and ok: "manager_ok L K m"
  shows "locks_le m m'"
  using assms(1)
proof (induction rule: rtranclp_induct)
  case (step y z)
  have "manager_ok L K y" by (rule client_reach_ok [OF step.hyps(1) L ok])
  then show ?case using client_step_locks [OF step.hyps(2) L] step.IH by (blast intro: locks_le_trans)
qed simp

text \<open>The operations of a round that take its write lock.\<close>

lemma locked_round_blocks:
  assumes "r_readLocks r \<noteq> 0"
  shows "AddAttestation K h r n = None" "Round_BitVote h r = None" "BitVoteBytes h r = None"
    "ComputeConsensusBitVote h r = None" "MerkleTree Build h r = None"
  using assms
  by (simp_all add: AddAttestation_def Round_BitVote_def BitVoteBytes_def ComputeConsensusBitVote_def MerkleTree_def with_Lock_def)

section \<open>Properties\<close>

text \<open>
  C12. Every state that a client can reach from its start, by any interleaving of the manager's receives, the
  queue workers and the REST handlers, is consistent: a round found under an identifier is that round, its
  request map and its list hold the same attestations, each under the hash of its request, with its earliest
  position first and the round's status cell, and every stored vote is a registered voter's with that
  voter's weight, one per sender.
\<close>

theorem client_invariant:
  assumes "cy_Get L s = (\<lambda>_. None)" "cyclic_ok L" "client_reach L parse K C A M (Manager_New s p t q h) m"
    and "cy_Get L (m_Rounds m) k = Some ra"
  shows "\<exists>r. m_round m ra = Some r \<and> r_ID r = k \<and> round_atts_ok K (m_heap m) r \<and> bitvotes_ok r"
proof -
  have ok: "manager_ok L K m" by (rule client_reach_ok [OF assms(3,2) Manager_New_ok [OF assms(1)]])
  obtain r where "m_round m ra = Some r" "r_ID r = k" using manager_okD(3) [OF ok assms(4)] by blast
  with manager_okD(1) [OF ok] show ?thesis by (auto simp: round_in_manager_def)
qed

definition empty_manager :: "(nat, u32 \<rightharpoonup> nat, VoterSet option, nat list) Manager" where
  "empty_manager = Manager_New Map.empty (Some sample_voters) Map.empty [''q'' \<mapsto> []] sample_heap"

theorem client_invariant_witness:
  "\<exists>m' r. Run_requests sample_lib (\<lambda>log. Some ([5], 20)) id Chain_default empty_manager [sample_log] = Some m' \<and>
     cy_Get sample_lib (m_Rounds m') 3 = Some 1 \<and> m_round m' 1 = Some r \<and> r_ID r = 3 \<and> round_atts_ok id (m_heap m') r"
proof -
  have "case Run_requests sample_lib (\<lambda>log. Some ([5], 20)) id Chain_default empty_manager [sample_log] of
      None \<Rightarrow> False | Some m' \<Rightarrow> cy_Get sample_lib (m_Rounds m') 3 = Some 1" by code_simp
  then obtain m' where run: "Run_requests sample_lib (\<lambda>log. Some ([5], 20)) id Chain_default empty_manager [sample_log] = Some m'"
    and get: "cy_Get sample_lib (m_Rounds m') 3 = Some 1" by (auto split: option.splits)
  have "client_reach sample_lib (\<lambda>log :: dbLog. Some ([5], 20)) id Chain_default sample_abi sample_merkle empty_manager m'"
    by (rule r_into_rtranclp, rule client_step.requests [OF run])
  from client_invariant [OF _ sample_lib_cyclic this [unfolded empty_manager_def] get] run get
  show ?thesis by (auto simp: sample_lib_def)
qed

text \<open>
  C31. A cached Merkle tree locks its round for ever: once \<^verbatim>\<open>submitSignatures\<close> is answered from the cached tree
  of a round, in every state that the client reaches afterwards no operation of that round that takes its
  write lock returns: no request is added, no bit vote served, no consensus computed and no tree built.
\<close>

theorem cached_tree_blocks_round:
  assumes L: "cyclic_ok L" and ok: "manager_ok L K m" and r: "cy_Get L (m_Rounds m) k = Some ra" "m_round m ra = Some r"
    and fin: "r_ConsensusCalculationFinished r" "r_ConsensusBitVote r = Some b" "r_merkleTree r \<noteq> []"
    and served: "submitSignaturesService L M BM pid m k = Some (m1, resp)"
    and later: "client_reach L parse K C A M m1 m2"
  shows "\<exists>r2. m_round m2 ra = Some r2 \<and> (\<forall>K h n Build. AddAttestation K h r2 n = None \<and> BitVoteBytes h r2 = None \<and>
    ComputeConsensusBitVote h r2 = None \<and> MerkleTree Build h r2 = None)"
proof -
  have ok1: "manager_ok L K m1" by (rule submitSignaturesService_ok [OF ok served])
  obtain r1 where r1: "m_round m1 ra = Some r1" "r_readLocks r1 = r_readLocks r + 1"
    using served fin submitSignaturesService_round [OF r, of M BM pid]
    by (auto simp: MerkleRoot_def MerkleTreeCached_def Let_def)
  obtain r2 where r2: "m_round m2 ra = Some r2" "r_readLocks r1 \<le> r_readLocks r2"
    using locks_leD [OF client_reach_locks [OF later L ok1] r1(1)] by blast
  then have "r_readLocks r2 \<noteq> 0" using r1(2) by simp
  with r2(1) locked_round_blocks show ?thesis by blast
qed

definition signed_manager :: "(nat, u32 \<rightharpoonup> nat, VoterSet option, nat list) Manager" where
  "signed_manager = sample_manager\<lparr>m_round := (m_round sample_manager)(0 \<mapsto>
     (snd (Round_New sample_heap 0 3 sample_voters))\<lparr>r_ConsensusCalculationFinished := True,
        r_ConsensusBitVote := Some \<lparr>bv_Length = 0, bv_BitVector = 0\<rparr>, r_merkleTree := [[7]]\<rparr>)\<rparr>"

lemma signed_manager_ok: "manager_ok sample_lib id signed_manager"
proof -
  have "round_in_manager id sample_manager 0 (snd (Round_New sample_heap 0 3 sample_voters))"
    by (rule manager_okD(1) [OF sample_manager_ok sample_manager_round(2)])
  then show ?thesis
    unfolding signed_manager_def
    by (intro manager_ok_round [OF sample_manager_ok sample_manager_round(2)])
      (simp_all add: round_in_manager_def round_atts_ok_def bitvotes_ok_def)
qed

theorem cached_tree_blocks_round_witness:
  "\<exists>m1 resp r1. submitSignaturesService sample_lib sample_merkle (\<lambda>pid k random root. hex_EncodeToString root) 200 signed_manager 3 = Some (m1, resp) \<and>
     m_round m1 0 = Some r1 \<and> AddAttestation id sample_heap r1 4 = None"
proof -
  let ?r = "(snd (Round_New sample_heap 0 3 sample_voters))\<lparr>r_ConsensusCalculationFinished := True,
        r_ConsensusBitVote := Some \<lparr>bv_Length = 0, bv_BitVector = 0\<rparr>, r_merkleTree := [[7]]\<rparr>"
  have r: "cy_Get sample_lib (m_Rounds signed_manager) 3 = Some 0" "m_round signed_manager 0 = Some ?r"
    using sample_manager_round by (simp_all add: signed_manager_def)
  obtain m1 resp where run: "submitSignaturesService sample_lib sample_merkle (\<lambda>pid k random root. hex_EncodeToString root) 200 signed_manager 3 = Some (m1, resp)"
    using submitSignaturesService_round [OF r, of sample_merkle] by (simp add: MerkleRoot_def MerkleTreeCached_def)
  have refl: "client_reach sample_lib (\<lambda>log. None :: (bytes \<times> int) option) id Chain_default sample_abi sample_merkle m1 m1" by simp
  from cached_tree_blocks_round [OF sample_lib_cyclic signed_manager_ok r _ _ _ run refl] run show ?thesis by fastforce
qed



end
