(* ===== verification/Pipes.thy ===== *)
theory Pipes
  imports Client
begin

text \<open>
  \<^verbatim>\<open>client/shared\<close>: the buffered channels between the collector and the manager, and the client as the
  processes that communicate over them: the three listeners of the collector send what they have found, in
  order, and wait while their channel is full; the manager first takes the initial signing policies and then
  receives from any channel that is not empty; the queue workers and the REST handlers act at any time.

  Shown here: the channels neither lose, duplicate nor reorder anything and stay within their capacity;
  nothing is handled before the initial policies; every run is a run of \<open>client_step\<close>, so that its invariants
  carry over; and as long as no read lock has been left on a round, everything that is on its way can be
  handled.
\<close>

section \<open>The processes\<close>

definition bitVoteBufferSize :: nat where "bitVoteBufferSize = 2"
definition requestsBufferSize :: nat where "requestsBufferSize = 10"
definition signingPolicyBufferSize :: nat where "signingPolicyBufferSize = 3"

record 'log DataPipes =
  dp_Requests :: "'log list list"
  dp_BitVotes :: "PayloadRound list"
  dp_Voters :: "VotersData list list"

text \<open>The collector is what its listeners have still to send, each in order.\<close>

record ('arg, 's, 'p, 'q, 'log) pipes =
  pp_manager :: "('arg, 's, 'p, 'q) Manager"
  pp_started :: bool
  pp_channels :: "'log DataPipes"
  pp_collector :: "'log DataPipes"

datatype 'log event = Internal | GotRequests "'log list" | GotBitVotes PayloadRound | GotVoters "VotersData list"

text \<open>What the queue workers and the REST handlers do.\<close>

inductive handler_step ::
  "('s, 'p, 'sp, 'q) lib \<Rightarrow> (bytes \<Rightarrow> bytes) \<Rightarrow> Timing \<Rightarrow> ('arg, 'val) abi \<Rightarrow> merkle_lib \<Rightarrow>
   ('arg, 's, 'p, 'q) Manager \<Rightarrow> ('arg, 's, 'p, 'q) Manager \<Rightarrow> bool"
  for L K C A M where
  dequeued: "handler_step L K C A M m (run_dequeued H A K C m a)"
| submit2: "submit2Service L BuildMessage protocolID m k addr = Some (m', out) \<Longrightarrow> handler_step L K C A M m m'"
| submitSignatures:
    "submitSignaturesService L M BuildMessageForSigning protocolID m k = Some (m', response) \<Longrightarrow> handler_step L K C A M m m'"
| getAttestations: "GetAttestations L M m k = Some (m', res) \<Longrightarrow> handler_step L K C A M m m'"

inductive pipes_step ::
  "('s, 'p, 'sp, 'q) lib \<Rightarrow> ('m dbLog_scheme \<Rightarrow> (bytes \<times> int) option) \<Rightarrow> (bytes \<Rightarrow> bytes) \<Rightarrow> Timing \<Rightarrow>
   ('arg, 'val) abi \<Rightarrow> merkle_lib \<Rightarrow> ('arg, 's, 'p, 'q, 'm dbLog_scheme) pipes \<Rightarrow> 'm dbLog_scheme event \<Rightarrow>
   ('arg, 's, 'p, 'q, 'm dbLog_scheme) pipes \<Rightarrow> bool"
  for L parse K C A M where
  sendRequests: "dp_Requests (pp_collector s) = b # rest \<Longrightarrow> length (dp_Requests (pp_channels s)) < requestsBufferSize \<Longrightarrow>
    pipes_step L parse K C A M s Internal
      (s\<lparr>pp_collector := (pp_collector s)\<lparr>dp_Requests := rest\<rparr>,
         pp_channels := (pp_channels s)\<lparr>dp_Requests := dp_Requests (pp_channels s) @ [b]\<rparr>\<rparr>)"
| sendBitVotes: "dp_BitVotes (pp_collector s) = v # vs \<Longrightarrow> length (dp_BitVotes (pp_channels s)) < bitVoteBufferSize \<Longrightarrow>
    pipes_step L parse K C A M s Internal
      (s\<lparr>pp_collector := (pp_collector s)\<lparr>dp_BitVotes := vs\<rparr>,
         pp_channels := (pp_channels s)\<lparr>dp_BitVotes := dp_BitVotes (pp_channels s) @ [v]\<rparr>\<rparr>)"
| sendVoters: "dp_Voters (pp_collector s) = d # ds \<Longrightarrow> length (dp_Voters (pp_channels s)) < signingPolicyBufferSize \<Longrightarrow>
    pipes_step L parse K C A M s Internal
      (s\<lparr>pp_collector := (pp_collector s)\<lparr>dp_Voters := ds\<rparr>,
         pp_channels := (pp_channels s)\<lparr>dp_Voters := dp_Voters (pp_channels s) @ [d]\<rparr>\<rparr>)"
| recvInitial: "\<not> pp_started s \<Longrightarrow> dp_Voters (pp_channels s) = d # ds \<Longrightarrow> Run_initialPolicies L (pp_manager s) d = Some m' \<Longrightarrow>
    pipes_step L parse K C A M s (GotVoters d)
      (s\<lparr>pp_manager := m', pp_started := True, pp_channels := (pp_channels s)\<lparr>dp_Voters := ds\<rparr>\<rparr>)"
| recvVoters: "pp_started s \<Longrightarrow> dp_Voters (pp_channels s) = d # ds \<Longrightarrow>
    pipes_step L parse K C A M s (GotVoters d)
      (s\<lparr>pp_manager := Run_signingPolicies L (pp_manager s) d, pp_channels := (pp_channels s)\<lparr>dp_Voters := ds\<rparr>\<rparr>)"
| recvBitVotes: "pp_started s \<Longrightarrow> dp_BitVotes (pp_channels s) = v # vs \<Longrightarrow>
    Run_bitVotes L C (pp_manager s) (pr_ID v) (pr_Messages v) = Some m' \<Longrightarrow>
    pipes_step L parse K C A M s (GotBitVotes v)
      (s\<lparr>pp_manager := m', pp_channels := (pp_channels s)\<lparr>dp_BitVotes := vs\<rparr>\<rparr>)"
| recvRequests: "pp_started s \<Longrightarrow> dp_Requests (pp_channels s) = b # rest \<Longrightarrow>
    Run_requests L parse K C (pp_manager s) b = Some m' \<Longrightarrow>
    pipes_step L parse K C A M s (GotRequests b)
      (s\<lparr>pp_manager := m', pp_channels := (pp_channels s)\<lparr>dp_Requests := rest\<rparr>\<rparr>)"
| handle: "handler_step L K C A M (pp_manager s) m' \<Longrightarrow> pipes_step L parse K C A M s Internal (s\<lparr>pp_manager := m'\<rparr>)"

inductive_cases pipes_stepE: "pipes_step L parse K C A M s e s'"

inductive pipes_run ::
  "('s, 'p, 'sp, 'q) lib \<Rightarrow> ('m dbLog_scheme \<Rightarrow> (bytes \<times> int) option) \<Rightarrow> (bytes \<Rightarrow> bytes) \<Rightarrow> Timing \<Rightarrow>
   ('arg, 'val) abi \<Rightarrow> merkle_lib \<Rightarrow> ('arg, 's, 'p, 'q, 'm dbLog_scheme) pipes \<Rightarrow> 'm dbLog_scheme event list \<Rightarrow>
   ('arg, 's, 'p, 'q, 'm dbLog_scheme) pipes \<Rightarrow> bool"
  for L parse K C A M s0 where
  start: "pipes_run L parse K C A M s0 [] s0"
| step: "pipes_run L parse K C A M s0 es s \<Longrightarrow> pipes_step L parse K C A M s e s' \<Longrightarrow> pipes_run L parse K C A M s0 (es @ [e]) s'"

text \<open>What the manager has received, by channel.\<close>

definition got_requests :: "'log event list \<Rightarrow> 'log list list" where
  "got_requests = List.map_filter (\<lambda>e. case e of GotRequests b \<Rightarrow> Some b | _ \<Rightarrow> None)"

definition got_bitVotes :: "'log event list \<Rightarrow> PayloadRound list" where
  "got_bitVotes = List.map_filter (\<lambda>e. case e of GotBitVotes v \<Rightarrow> Some v | _ \<Rightarrow> None)"

definition got_voters :: "'log event list \<Rightarrow> VotersData list list" where
  "got_voters = List.map_filter (\<lambda>e. case e of GotVoters d \<Rightarrow> Some d | _ \<Rightarrow> None)"

lemmas got_defs = got_requests_def got_bitVotes_def got_voters_def

lemma got_simps [simp]:
  "got_requests [] = []" "got_bitVotes [] = []" "got_voters [] = []"
  "got_requests (es @ [e]) = got_requests es @ (case e of GotRequests b \<Rightarrow> [b] | _ \<Rightarrow> [])"
  "got_bitVotes (es @ [e]) = got_bitVotes es @ (case e of GotBitVotes v \<Rightarrow> [v] | _ \<Rightarrow> [])"
  "got_voters (es @ [e]) = got_voters es @ (case e of GotVoters d \<Rightarrow> [d] | _ \<Rightarrow> [])"
  by (simp_all add: got_defs List.map_filter_def split: event.splits)

section \<open>The channels\<close>

definition within_capacity :: "'log DataPipes \<Rightarrow> bool" where
  "within_capacity d \<longleftrightarrow> length (dp_Requests d) \<le> requestsBufferSize \<and> length (dp_BitVotes d) \<le> bitVoteBufferSize \<and>
     length (dp_Voters d) \<le> signingPolicyBufferSize"

lemma pipes_step_capacity:
  "pipes_step L parse K C A M s e s' \<Longrightarrow> within_capacity (pp_channels s) \<Longrightarrow> within_capacity (pp_channels s')"
  by (erule pipes_stepE) (auto simp: within_capacity_def)

lemma pipes_run_capacity:
  "pipes_run L parse K C A M s0 es s \<Longrightarrow> within_capacity (pp_channels s0) \<Longrightarrow> within_capacity (pp_channels s)"
  by (induction rule: pipes_run.induct) (auto intro: pipes_step_capacity)

lemma pipes_run_fifo:
  "pipes_run L parse K C A M s0 es s \<Longrightarrow>
   got_requests es @ dp_Requests (pp_channels s) @ dp_Requests (pp_collector s) =
     dp_Requests (pp_channels s0) @ dp_Requests (pp_collector s0) \<and>
   got_bitVotes es @ dp_BitVotes (pp_channels s) @ dp_BitVotes (pp_collector s) =
     dp_BitVotes (pp_channels s0) @ dp_BitVotes (pp_collector s0) \<and>
   got_voters es @ dp_Voters (pp_channels s) @ dp_Voters (pp_collector s) =
     dp_Voters (pp_channels s0) @ dp_Voters (pp_collector s0)"
proof (induction rule: pipes_run.induct)
  case (step es s e s')
  from step.hyps(2) step.IH show ?case by cases auto
qed simp

lemma pipes_run_policies_first:
  "pipes_run L parse K C A M s0 es s \<Longrightarrow> \<not> pp_started s0 \<Longrightarrow>
   (pp_started s \<longleftrightarrow> got_voters es \<noteq> []) \<and> (got_voters es = [] \<longrightarrow> got_requests es = [] \<and> got_bitVotes es = [])"
proof (induction rule: pipes_run.induct)
  case (step es s e s')
  from step.hyps(2) step.IH [OF step.prems] show ?case by cases auto
qed simp

section \<open>Refinement of the client\<close>

lemma handler_is_client: "handler_step L K C A M m m' \<Longrightarrow> client_step L parse K C A M m m'"
  by (induction rule: handler_step.induct) (auto intro: client_step.intros)

lemma pipes_step_client:
  "pipes_step L parse K C A M s e s' \<Longrightarrow> client_reach L parse K C A M (pp_manager s) (pp_manager s')"
  by (erule pipes_stepE) (auto intro: client_step.intros handler_is_client)

lemma pipes_run_client:
  "pipes_run L parse K C A M s0 es s \<Longrightarrow> client_reach L parse K C A M (pp_manager s0) (pp_manager s)"
proof (induction rule: pipes_run.induct)
  case (step es s e s')
  from step.IH pipes_step_client [OF step.hyps(2)] show ?case by (rule rtranclp_trans)
qed simp

section \<open>Progress without leftover locks\<close>

definition unlocked :: "('arg, 's, 'p, 'q) Manager \<Rightarrow> bool" where
  "unlocked m \<longleftrightarrow> (\<forall>ra r. m_round m ra = Some r \<longrightarrow> r_readLocks r = 0)"

lemma unlocked_rounds: "m_round m' = m_round m \<Longrightarrow> unlocked m' = unlocked m"
  by (simp add: unlocked_def)

lemma unlocked_upd: "unlocked m \<Longrightarrow> m_round m' = (m_round m)(ra \<mapsto> r) \<Longrightarrow> r_readLocks r = 0 \<Longrightarrow> unlocked m'"
  by (auto simp: unlocked_def)

lemma unlocked_GetOrCreate:
  assumes "unlocked m" "GetOrCreateRound L m k = (m', out)"
  shows "unlocked m'"
  using assms by (cases rule: GetOrCreateRound_cases [of L m k]) (auto simp: unlocked_def Round_New_def split: if_splits)

lemma unlocked_OnBitVote:
  assumes L: "cyclic_ok L" and ok: "manager_ok L K m" and u: "unlocked m"
  shows "unlocked (fst (OnBitVote L C m msg))"
proof -
  obtain m1 out where g: "GetOrCreateRound L m (msg_VotingRound msg) = (m1, out)" by fastforce
  have u1: "unlocked m1" by (rule unlocked_GetOrCreate [OF u g])
  have "unlocked (m1\<lparr>m_round := (m_round m1)(ra \<mapsto> fst (ProcessBitVote r msg))\<rparr>)" if "m_round m1 ra = Some r" for ra r
    using u1 that by (auto simp: unlocked_def)
  moreover have "\<exists>r. m_round m1 ra = Some r" if "out = Inr ra" for ra
    using GetOrCreateRound_ok(2) [OF L ok g that] by blast
  ultimately show ?thesis
    using u u1 g by (cases out) (fastforce simp: OnBitVote_def Let_def split: prod.splits option.splits)+
qed

lemma unlocked_OnRequest:
  fixes m :: "('arg, 's, 'p, 'q) Manager"
  assumes L: "cyclic_ok L" and ok: "manager_ok L K m" and u: "unlocked m"
  obtains m' err where "OnRequest L parse K C m request = Some (m', err)" "unlocked m'"
proof (cases "AttestationFromDatabaseLog parse C request :: AttError + 'arg Attestation")
  case (Inl e)
  then show thesis using that u by (simp add: OnRequest_def)
next
  case (Inr att)
  let ?a = "m_next m"
  let ?m = "m\<lparr>m_heap := (m_heap m)\<lparr>h_atts := (h_atts (m_heap m))(?a := att)\<rparr>, m_next := Suc ?a\<rparr>"
  have ok1: "manager_ok L K ?m" by (rule alloc_att_ok [OF ok])
  have u1: "unlocked ?m" using u by (simp add: unlocked_def)
  obtain m2 out where g: "GetOrCreateRound L ?m (at_RoundID att) = (m2, out)" by fastforce
  have u2: "unlocked m2" by (rule unlocked_GetOrCreate [OF u1 g])
  show thesis
  proof (cases out)
    case (Inl e)
    then have "OnRequest L parse K C m request = Some (m2, Some e)" using Inr g by (simp add: OnRequest_def Let_def)
    then show thesis using that u2 by blast
  next
    case out: (Inr ra)
    obtain r where r: "m_round m2 ra = Some r" using GetOrCreateRound_ok(2) [OF L ok1 g out] by blast
    then have "r_readLocks r = 0" using u2 by (simp add: unlocked_def)
    then obtain h r' added where add: "AddAttestation K (m_heap m2) r ?a = Some (h, r', added)"
      by (fastforce simp: AddAttestation_def with_Lock_def Let_def split: option.splits)
    let ?m3 = "m2\<lparr>m_heap := h, m_round := (m_round m2)(ra \<mapsto> r')\<rparr>"
    have u3: "unlocked ?m3"
      using \<open>r_readLocks r = 0\<close> AddAttestation_locks [OF add] by (intro unlocked_upd [OF u2, of _ ra r']) simp_all
    have "OnRequest L parse K C m request = Some (if added then AddToQueue L ?m3 ?a else (?m3, None))"
      using Inr g out r add by (simp add: OnRequest_def Let_def)
    moreover have "unlocked (fst (AddToQueue L ?m3 ?a))" by (rule unlocked_rounds [THEN iffD2, OF _ u3]) simp
    ultimately show thesis using that [of ?m3 None] that [of "fst (AddToQueue L ?m3 ?a)" "snd (AddToQueue L ?m3 ?a)"] u3
      by (simp split: if_splits)
  qed
qed

lemma unlocked_Run_requests:
  assumes L: "cyclic_ok L" and "manager_ok L K m" "unlocked m"
  obtains m' where "Run_requests L parse K C m logs = Some m'" "manager_ok L K m'" "unlocked m'"
  using assms(2,3)
proof (induction logs arbitrary: m thesis)
  case (Cons l logs)
  obtain m1 err where m1: "OnRequest L parse K C m l = Some (m1, err)" "unlocked m1"
    by (rule unlocked_OnRequest [OF L Cons.prems(2,3)])
  have "manager_ok L K m1" by (rule OnRequest_ok [OF L Cons.prems(2) m1(1)])
  then show ?case using Cons.IH [of m1] Cons.prems(1) m1 by force
qed simp

lemma unlocked_Run_bitVotes:
  assumes L: "cyclic_ok L" and ok: "manager_ok L K m" and u: "unlocked m"
  obtains m' where "Run_bitVotes L C m k ms = Some m'" "manager_ok L K m'" "unlocked m'"
proof -
  define m0 where "m0 = foldl (\<lambda>m message. fst (OnBitVote L C m message)) m ms"
  have fold: "manager_ok L K m0 \<and> unlocked m0"
    unfolding m0_def using ok u by (induction ms arbitrary: m) (auto intro: OnBitVote_ok [OF L] unlocked_OnBitVote [OF L])
  show thesis
  proof (cases "cy_Get L (m_Rounds m0) k")
    case None
    then have "Run_bitVotes L C m k ms = Some m0" by (simp add: Run_bitVotes_def m0_def)
    with fold that show thesis by blast
  next
    case (Some ra)
    obtain r where r: "m_round m0 ra = Some r" using manager_okD(3) [OF conjunct1 [OF fold] Some] by blast
    have free: "r_readLocks r = 0" using fold r by (simp add: unlocked_def)
    then have "ComputeConsensusBitVote (m_heap m0) r \<noteq> None" by (simp add: ComputeConsensusBitVote_def with_Lock_def)
    then obtain h r' err where comp: "ComputeConsensusBitVote (m_heap m0) r = Some (h, r', err)" by (cases "ComputeConsensusBitVote (m_heap m0) r") auto
    let ?m1 = "m0\<lparr>m_heap := h, m_round := (m_round m0)(ra \<mapsto> r')\<rparr>"
    have u1: "unlocked ?m1"
      by (rule unlocked_upd [OF conjunct2 [OF fold], where ra = ra and r = r']) (simp_all add: free ComputeConsensus_locks [OF comp])
    have run: "Run_bitVotes L C m k ms = Some (if err = None then fst (retryUnsuccessfulChosen L ?m1 r') else ?m1)"
      using Some r comp by (simp add: Run_bitVotes_def Let_def m0_def)
    moreover have "unlocked (fst (retryUnsuccessfulChosen L ?m1 r'))" by (rule unlocked_rounds [THEN iffD2, OF _ u1]) simp
    then have "unlocked (if err = None then fst (retryUnsuccessfulChosen L ?m1 r') else ?m1)" using u1 by simp
    ultimately show thesis using that Run_bitVotes_ok [OF L ok run] by blast
  qed
qed

lemma unlocked_Run_signingPolicies: "unlocked (Run_signingPolicies L m ds) = unlocked m"
proof -
  have "m_round (foldl (\<lambda>m data. fst (OnSigningPolicy L m data)) m ds) = m_round m" by (induction ds arbitrary: m) simp_all
  then show ?thesis by (intro unlocked_rounds) (simp add: Run_signingPolicies_def Let_def)
qed

text \<open>How much is still on its way; what is in a channel is one step nearer.\<close>

definition on_the_way :: "('arg, 's, 'p, 'q, 'log) pipes \<Rightarrow> nat" where
  "on_the_way s =
     2 * (length (dp_Requests (pp_collector s)) + length (dp_BitVotes (pp_collector s)) + length (dp_Voters (pp_collector s))) +
     length (dp_Requests (pp_channels s)) + length (dp_BitVotes (pp_channels s)) + length (dp_Voters (pp_channels s))"

abbreviation (input) pipes_ok :: "('s, 'p, 'sp, 'q) lib \<Rightarrow> (bytes \<Rightarrow> bytes) \<Rightarrow> ('arg, 's, 'p, 'q, 'log) pipes \<Rightarrow> bool" where
  "pipes_ok L K s \<equiv> pp_started s \<and> manager_ok L K (pp_manager s) \<and> unlocked (pp_manager s)"

lemma pipes_progress:
  assumes L: "cyclic_ok L" and ok: "pipes_ok L K s" and some: "on_the_way s \<noteq> 0"
  obtains e s' where "pipes_step L parse K C A M s e s'" "pipes_ok L K s'" "on_the_way s' < on_the_way s"
proof -
  consider (voters) d ds where "dp_Voters (pp_channels s) = d # ds"
    | (bitVotes) v vs where "dp_BitVotes (pp_channels s) = v # vs"
    | (requests) b rest where "dp_Requests (pp_channels s) = b # rest"
    | (send) "dp_Voters (pp_channels s) = []" "dp_BitVotes (pp_channels s) = []" "dp_Requests (pp_channels s) = []"
    by (meson neq_Nil_conv)
  then show thesis
  proof cases
    case voters
    show thesis
      by (rule that [OF pipes_step.recvVoters [OF conjunct1 [OF ok] voters]])
        (use ok voters in \<open>simp_all add: Run_signingPolicies_ok unlocked_Run_signingPolicies on_the_way_def\<close>)
  next
    case bitVotes
    obtain m' where m': "Run_bitVotes L C (pp_manager s) (pr_ID v) (pr_Messages v) = Some m'" "manager_ok L K m'" "unlocked m'"
      using unlocked_Run_bitVotes [OF L] ok by blast
    show thesis
      by (rule that [OF pipes_step.recvBitVotes [OF conjunct1 [OF ok] bitVotes m'(1)]])
        (use ok bitVotes m' in \<open>simp_all add: on_the_way_def\<close>)
  next
    case requests
    obtain m' where m': "Run_requests L parse K C (pp_manager s) b = Some m'" "manager_ok L K m'" "unlocked m'"
      using unlocked_Run_requests [OF L] ok by blast
    show thesis
      by (rule that [OF pipes_step.recvRequests [OF conjunct1 [OF ok] requests m'(1)]])
        (use ok requests m' in \<open>simp_all add: on_the_way_def\<close>)
  next
    case send
    then consider d ds where "dp_Voters (pp_collector s) = d # ds" | v vs where "dp_BitVotes (pp_collector s) = v # vs"
      | b rest where "dp_Requests (pp_collector s) = b # rest"
      using some by (auto simp: on_the_way_def neq_Nil_conv)
    then show thesis
    proof cases
      case 1
      show thesis
        by (rule that [OF pipes_step.sendVoters [OF 1]])
          (use ok send 1 in \<open>simp_all add: on_the_way_def signingPolicyBufferSize_def\<close>)
    next
      case 2
      show thesis
        by (rule that [OF pipes_step.sendBitVotes [OF 2]])
          (use ok send 2 in \<open>simp_all add: on_the_way_def bitVoteBufferSize_def\<close>)
    next
      case 3
      show thesis
        by (rule that [OF pipes_step.sendRequests [OF 3]])
          (use ok send 3 in \<open>simp_all add: on_the_way_def requestsBufferSize_def\<close>)
    qed
  qed
qed

lemma pipes_complete:
  assumes L: "cyclic_ok L"
  shows "pipes_run L parse K C A M s0 es s \<Longrightarrow> pipes_ok L K s \<Longrightarrow>
    \<exists>es' s'. pipes_run L parse K C A M s0 (es @ es') s' \<and> on_the_way s' = 0"
proof (induction "on_the_way s" arbitrary: s es rule: less_induct)
  case less
  show ?case
  proof (cases "on_the_way s = 0")
    case True
    with less.prems(1) show ?thesis by (intro exI [of _ "[]"]) auto
  next
    case False
    obtain e s1 where s1: "pipes_step L parse K C A M s e s1" "pipes_ok L K s1" "on_the_way s1 < on_the_way s"
      by (rule pipes_progress [OF L less.prems(2) False])
    from less.hyps [OF s1(3) pipes_run.step [OF less.prems(1) s1(1)] s1(2)]
    obtain es' s' where "pipes_run L parse K C A M s0 ((es @ [e]) @ es') s'" "on_the_way s' = 0" by blast
    then show ?thesis by (intro exI [of _ "e # es'"]) auto
  qed
qed

section \<open>Properties\<close>


abbreviation (input) no_data :: "'log DataPipes" where
  "no_data \<equiv> \<lparr>dp_Requests = [], dp_BitVotes = [], dp_Voters = []\<rparr>"

definition sample_pipes :: "(nat, u32 \<rightharpoonup> nat, VoterSet option, nat list, dbLog) pipes" where
  "sample_pipes = \<lparr>pp_manager = empty_manager, pp_started = False, pp_channels = no_data,
     pp_collector = \<lparr>dp_Requests = [[sample_log]], dp_BitVotes = [], dp_Voters = [[]]\<rparr>\<rparr>"

abbreviation (input) sample_run where
  "sample_run \<equiv> pipes_run sample_lib (\<lambda>log. Some ([5], 20)) id Chain_default sample_abi sample_merkle sample_pipes"

lemma sample_pipes_start:
  "sample_run [Internal, GotVoters []] (sample_pipes\<lparr>pp_started := True, pp_collector := no_data\<lparr>dp_Requests := [[sample_log]]\<rparr>\<rparr>)"
proof -
  let ?s1 = "sample_pipes\<lparr>pp_collector := (pp_collector sample_pipes)\<lparr>dp_Voters := []\<rparr>,
      pp_channels := (pp_channels sample_pipes)\<lparr>dp_Voters := dp_Voters (pp_channels sample_pipes) @ [[]]\<rparr>\<rparr>"
  have "sample_run ([] @ [Internal]) ?s1"
    by (rule pipes_run.step [OF pipes_run.start pipes_step.sendVoters])
      (simp_all add: sample_pipes_def signingPolicyBufferSize_def)
  moreover have "pipes_step sample_lib (\<lambda>log. Some ([5], 20)) id Chain_default sample_abi sample_merkle ?s1 (GotVoters [])
      (?s1\<lparr>pp_manager := empty_manager, pp_started := True, pp_channels := (pp_channels ?s1)\<lparr>dp_Voters := []\<rparr>\<rparr>)"
    by (rule pipes_step.recvInitial) (simp_all add: sample_pipes_def)
  ultimately have "sample_run (([] @ [Internal]) @ [GotVoters []])
      (?s1\<lparr>pp_manager := empty_manager, pp_started := True, pp_channels := (pp_channels ?s1)\<lparr>dp_Voters := []\<rparr>\<rparr>)"
    by (rule pipes_run.step)
  then show ?thesis by (simp add: sample_pipes_def)
qed


text \<open>
  The processes refine the client: whatever the listeners, the manager, the queue workers and the REST
  handlers do over the channels is a run of \<open>client_step\<close>, so that a consistent client stays consistent.
\<close>

lemma processes_refine_client:
  assumes "pipes_run L parse K C A M s0 es s" "cyclic_ok L" "manager_ok L K (pp_manager s0)"
  shows "client_reach L parse K C A M (pp_manager s0) (pp_manager s) \<and> manager_ok L K (pp_manager s)"
  using pipes_run_client [OF assms(1)] client_reach_ok [OF pipes_run_client [OF assms(1)] assms(2,3)] by blast

lemma empty_manager_ok: "manager_ok sample_lib K empty_manager"
  unfolding empty_manager_def by (rule Manager_New_ok) (simp add: sample_lib_def)

text \<open>
  Everything on its way can be handled as long as no read lock has been left on a round: from every state of
  a started client without such a lock, the run can be continued until the collector has sent everything and
  the manager has received all of it, each batch once and in order, whatever the capacities of the channels.
\<close>

lemma everything_is_handled:
  assumes run: "pipes_run L parse K C A M s0 es s" and L: "cyclic_ok L" and ok: "manager_ok L K (pp_manager s0)"
    and started: "pp_started s" and free: "unlocked (pp_manager s)"
  shows "\<exists>es' s'. pipes_run L parse K C A M s0 (es @ es') s' \<and>
    got_requests (es @ es') = dp_Requests (pp_channels s0) @ dp_Requests (pp_collector s0) \<and>
    got_bitVotes (es @ es') = dp_BitVotes (pp_channels s0) @ dp_BitVotes (pp_collector s0) \<and>
    got_voters (es @ es') = dp_Voters (pp_channels s0) @ dp_Voters (pp_collector s0)"
proof -
  have "manager_ok L K (pp_manager s)" by (rule client_reach_ok [OF pipes_run_client [OF run] L ok])
  with started free obtain es' s' where run': "pipes_run L parse K C A M s0 (es @ es') s'" and none: "on_the_way s' = 0"
    using pipes_complete [OF L run] by blast
  from pipes_run_fifo [OF run'] none show ?thesis
    by (intro exI [of _ es'] exI [of _ s']) (simp add: run' on_the_way_def)
qed

end
