(* ===== verification/Listeners.thy ===== *)
theory Listeners
  imports Pipes
begin

text \<open>
  \<^verbatim>\<open>collector.go\<close>: the selectors of the contracts, the collector and its \<^verbatim>\<open>Run\<close>, which starts the listeners
  of \<open>Collector\<close> with the addresses and selectors they query for and connects them to the channels of
  \<open>Pipes\<close>. The database is seen as the answers it gives to each listener's queries, by address and selector;
  the initial part of \<^verbatim>\<open>SigningPolicyInitializedListener\<close> (\<^verbatim>\<open>signingPolicy.go\<close>) is here too.

  Shown here, for the listeners, the channels and the manager together: the manager receives the logs of the
  blocks in order and none twice, and bit votes of rounds in increasing order; and as long as no read lock is
  left on a round, every request log gets to the manager.
\<close>

section \<open>The selectors\<close>

record contract_abi =
  ca_Events :: "string \<rightharpoonup> bytes"
  ca_Methods :: "string \<rightharpoonup> bytes"

record selectors =
  sel_signingPolicyInitialized :: bytes
  sel_AttestationRequest :: bytes
  sel_voterRegistered :: bytes
  sel_Submit2 :: bytes

datatype InitPanic = CannotGetABI string | CannotGetEvent string | SliceOfMethodID

definition event_ID :: "contract_abi option \<Rightarrow> string \<Rightarrow> string \<Rightarrow> InitPanic + bytes" where
  "event_ID contract name event =
     (case contract of
        None \<Rightarrow> Inl (CannotGetABI name)
      | Some c \<Rightarrow> (case ca_Events c event of None \<Rightarrow> Inl (CannotGetEvent event) | Some ident \<Rightarrow> Inr ident))"

text \<open>The package's \<^verbatim>\<open>init\<close>; the ABIs are those of the contract bindings.\<close>

definition collector_init ::
  "contract_abi option \<Rightarrow> contract_abi option \<Rightarrow> contract_abi option \<Rightarrow> contract_abi option \<Rightarrow> InitPanic + selectors" where
  "collector_init relayABI fdcABI registryABI submissionABI =
     (case event_ID relayABI ''relay'' ''SigningPolicyInitialized'' of
        Inl p \<Rightarrow> Inl p
      | Inr signingPolicyEvent \<Rightarrow>
     (case event_ID fdcABI ''fdc'' ''AttestationRequest'' of
        Inl p \<Rightarrow> Inl p
      | Inr requestEvent \<Rightarrow>
     (case event_ID registryABI ''registry'' ''VoterRegistered'' of
        Inl p \<Rightarrow> Inl p
      | Inr voterRegisteredEvent \<Rightarrow>
     (case submissionABI of
        None \<Rightarrow> Inl (CannotGetABI ''submission'')
      | Some c \<Rightarrow>
          (let ident = (case ca_Methods c ''submit2'' of None \<Rightarrow> [] | Some ident \<Rightarrow> ident) in
           if length ident < 4 then Inl SliceOfMethodID
           else Inr \<lparr>sel_signingPolicyInitialized = signingPolicyEvent, sel_AttestationRequest = requestEvent,
                     sel_voterRegistered = voterRegisteredEvent, sel_Submit2 = take 4 ident\<rparr>)))))"

section \<open>The collector\<close>

record Addresses =
  ads_SubmitContract :: address
  ads_RelayContract :: address
  ads_FdcContract :: address
  ads_VoterRegistryContract :: address

record 'db Collector =
  col_ProtocolID :: u8
  col_SubmitContractAddress :: address
  col_FdcContractAddress :: address
  col_RelayContractAddress :: address
  col_VoterRegistryContractAddress :: address
  col_DB :: 'db

text \<open>\<^verbatim>\<open>New\<close>: \<open>None\<close> is the panic when the database cannot be connected.\<close>

definition Collector_New :: "('cfg \<Rightarrow> 'db option) \<Rightarrow> u8 \<Rightarrow> 'cfg \<Rightarrow> Addresses \<Rightarrow> 'db Collector option" where
  "Collector_New Connect protocolID dbConfig addresses =
     (case Connect dbConfig of
        None \<Rightarrow> None
      | Some db \<Rightarrow>
          Some \<lparr>col_ProtocolID = protocolID, col_SubmitContractAddress = ads_SubmitContract addresses,
                col_FdcContractAddress = ads_FdcContract addresses, col_RelayContractAddress = ads_RelayContract addresses,
                col_VoterRegistryContractAddress = ads_VoterRegistryContract addresses, col_DB = db\<rparr>)"

section \<open>The listener of signing policies\<close>

datatype PolicyPanic = NoPolicyLogs | BadInitialPolicies | BadLastPolicy

definition SigningPolicyInitializedListener ::
  "(nat \<Rightarrow> 'log list option) \<Rightarrow> ('log \<Rightarrow> (Policy \<times> 'm) option) \<Rightarrow> ('log \<Rightarrow> Policy option) \<Rightarrow> Timing \<Rightarrow>
   'log list option list list \<Rightarrow> PolicyPanic + (Policy \<times> 'm) list list" where
  "SigningPolicyInitializedListener fetchLatest addSubmit ParsePolicy Chain windows =
     (case fetchLatest 3 of
        None \<Rightarrow> Inl NoPolicyLogs
      | Some logs \<Rightarrow>
          (case SigningPolicyInitialized_sorted addSubmit logs of
             None \<Rightarrow> Inl BadInitialPolicies
           | Some sortedVoters \<Rightarrow>
               (case ParsePolicy (logs ! 0) of
                  None \<Rightarrow> Inl BadLastPolicy
                | Some lastSigningPolicy \<Rightarrow>
                    Inr (sortedVoters # filter (\<lambda>vs. length vs > 0)
                      (map snd (spiTargetedListener addSubmit Chain (of_int (pol_RewardEpochId lastSigningPolicy)) windows))))))"

section \<open>Running the collector\<close>

text \<open>
  What the database, and the clock, show to the listeners in a run: the answers by address and selector to the
  initial and the later queries for policies, requests and bit votes, and the polls of the choose trigger.
\<close>

record ('log, 'tx) database =
  db_latestLogs :: "address \<Rightarrow> bytes \<Rightarrow> nat \<Rightarrow> 'log list option"
  db_policyWindows :: "address \<Rightarrow> bytes \<Rightarrow> 'log list option list list"
  db_now :: u64
  db_state :: "u64 option"
  db_logsFrom :: "address \<Rightarrow> bytes \<Rightarrow> u64 \<Rightarrow> u64 \<Rightarrow> 'log list option"
  db_ticks :: "(u64 \<times> (address \<Rightarrow> bytes \<Rightarrow> u64 \<Rightarrow> u64 \<Rightarrow> 'log list option)) option list"
  db_blockTimestamp :: "u64 option"
  db_polls :: "(u64 option \<times> u64) list"
  db_transactions :: "u32 \<Rightarrow> TxParams \<Rightarrow> 'tx list option"

text \<open>
  What is not in the repository: the parsers of the events and payloads; \<open>lp_entries\<close> lists a map in the order
  of a \<^verbatim>\<open>range\<close> loop, and \<open>lp_submitToSigning\<close> is \<open>SubmitToSigningPolicyAddress\<close> on the database.
\<close>

record ('log, 'tx) log_parsers =
  lp_Policy :: "'log \<Rightarrow> Policy option"
  lp_submitToSigning :: "address \<Rightarrow> u64 \<Rightarrow> (address \<rightharpoonup> address) option"
  lp_entries :: "(address \<rightharpoonup> address) \<Rightarrow> (address \<times> address) list"
  lp_Payloads :: "'tx \<Rightarrow> (u8 \<rightharpoonup> Message) option"

datatype RunPanic = PolicyListener PolicyPanic | RequestListener ListenerPanic | ChooseTrigger | ChooseTime TimingError

text \<open>
  \<^verbatim>\<open>Run\<close>: what the listeners send on each channel. The unbuffered channel between the choose trigger and the
  bit vote listener hands over one round after the other.
\<close>

definition Collector_Run ::
  "registries \<Rightarrow> selectors \<Rightarrow> ('log, 'tx) log_parsers \<Rightarrow> Timing \<Rightarrow> ('log, 'tx) database Collector \<Rightarrow> RunPanic + 'log DataPipes" where
  "Collector_Run R S P Chain c =
     (let db = col_DB c in
      case SigningPolicyInitializedListener
             (db_latestLogs db (col_RelayContractAddress c) (sel_signingPolicyInitialized S))
             (AddSubmitAddressesToSigningPolicy R (lp_Policy P) (lp_submitToSigning P) (col_VoterRegistryContractAddress c))
             (lp_Policy P) Chain (db_policyWindows db (col_RelayContractAddress c) (sel_signingPolicyInitialized S)) of
        Inl p \<Rightarrow> Inl (PolicyListener p)
      | Inr policies \<Rightarrow>
     (case AttestationRequestListener (db_logsFrom db (col_FdcContractAddress c) (sel_AttestationRequest S)) Chain (db_now db) (db_state db)
             (map (map_option (\<lambda>(index, fetch). (index, fetch (col_FdcContractAddress c) (sel_AttestationRequest S)))) (db_ticks db)) of
        Inl p \<Rightarrow> Inl (RequestListener p)
      | Inr (lastBlock, batches) \<Rightarrow>
     (case db_blockTimestamp db of
        None \<Rightarrow> Inl ChooseTrigger
      | Some blockTimestamp \<Rightarrow>
     (case PrepareChooseTrigger Chain blockTimestamp (db_polls db) of
        Inl err \<Rightarrow> Inl (ChooseTime err)
      | Inr triggered \<Rightarrow>
          Inr \<lparr>dp_Requests = batches,
               dp_BitVotes = List.map_filter (\<lambda>(roundID, _, _).
                 BitVoteListener (db_transactions db roundID) (lp_Payloads P) Chain (col_SubmitContractAddress c) (sel_Submit2 S)
                   (col_ProtocolID c) roundID) triggered,
               dp_Voters = map (map (\<lambda>(policy, submitToSigning).
                 \<lparr>vdt_Policy = policy, vdt_SubmitToSigningAddress = lp_entries P submitToSigning\<rparr>)) policies\<rparr>))))"

section \<open>Lemmas\<close>

lemma BitVoteListener_ID: "BitVoteListener F X C addr sel protocol n = Some pr \<Longrightarrow> pr_ID pr = n"
  by (auto simp: BitVoteListener_def Let_def split: option.splits if_splits)

text \<open>The bit votes of some of the rounds of an increasing list.\<close>

lemma map_filter_increasing:
  assumes "sorted_wrt (<) (map f ts)" "\<And>t v. t \<in> set ts \<Longrightarrow> g t = Some v \<Longrightarrow> h v = f t"
  shows "sorted_wrt (<) (map h (List.map_filter g ts))"
proof -
  have "set (map h (List.map_filter g ts)) \<subseteq> f ` set ts" if "\<And>t v. t \<in> set ts \<Longrightarrow> g t = Some v \<Longrightarrow> h v = f t" for ts
    using that by (induction ts) (auto simp: map_filter_simps split: option.splits)
  with assms show ?thesis
  proof (induction ts)
    case (Cons t ts)
    have "sorted_wrt (<) (map h (List.map_filter g ts))" "set (map h (List.map_filter g ts)) \<subseteq> f ` set ts"
      using Cons by auto
    then show ?case using Cons.prems(1,2) by (cases "g t") (force simp: map_filter_simps)+
  qed (simp add: map_filter_simps)
qed

abbreviation (input) request_ticks_of :: "selectors \<Rightarrow> ('log, 'tx) database Collector \<Rightarrow> (u64 \<times> (u64 \<Rightarrow> u64 \<Rightarrow> 'log list option)) option list" where
  "request_ticks_of S c \<equiv>
     map (map_option (\<lambda>(index, fetch). (index, fetch (col_FdcContractAddress c) (sel_AttestationRequest S)))) (db_ticks (col_DB c))"

lemma Collector_Run_Inr:
  assumes "Collector_Run R S P C c = Inr d"
  obtains l bt triggered where
    "AttestationRequestListener (db_logsFrom (col_DB c) (col_FdcContractAddress c) (sel_AttestationRequest S)) C (db_now (col_DB c))
       (db_state (col_DB c)) (request_ticks_of S c) = Inr (l, dp_Requests d)"
    "db_blockTimestamp (col_DB c) = Some bt" "PrepareChooseTrigger C bt (db_polls (col_DB c)) = Inr triggered"
    "dp_BitVotes d = List.map_filter (\<lambda>(n, _, _). BitVoteListener (db_transactions (col_DB c) n) (lp_Payloads P) C
       (col_SubmitContractAddress c) (sel_Submit2 S) (col_ProtocolID c) n) triggered"
  using assms by (auto simp: Collector_Run_def Let_def split: sum.splits option.splits prod.splits)

text \<open>
  What the database promises: the queries by block number answer with the logs of the blocks, the block index
  never goes back, and the initial query answers \<open>logs\<close>.
\<close>

definition database_ok ::
  "Timing \<Rightarrow> selectors \<Rightarrow> ('log, 'tx) database Collector \<Rightarrow> (nat \<Rightarrow> 'log list) \<Rightarrow> u64 \<Rightarrow> 'log list \<Rightarrow> bool" where
  "database_ok C S c B n logs \<longleftrightarrow>
     db_state (col_DB c) = Some n \<and>
     (\<exists>k startTS. LastCollectPhaseStart C (db_now (col_DB c)) = Inr (k, startTS) \<and>
        db_logsFrom (col_DB c) (col_FdcContractAddress c) (sel_AttestationRequest S) startTS n = Some logs) \<and>
     ticks_ok B n (request_ticks_of S c)"

lemma Collector_Run_requests:
  assumes "Collector_Run R S P C c = Inr d" "database_ok C S c B n logs"
  shows "\<exists>l. n \<le> l \<and> concat (dp_Requests d) = logs @ concat (map B [Suc (unat n)..<Suc (unat l)])"
proof -
  have state: "db_state (col_DB c) = Some n" and ticks: "ticks_ok B n (request_ticks_of S c)"
    using assms(2) [unfolded database_ok_def] by blast+
  obtain k startTS where start: "LastCollectPhaseStart C (db_now (col_DB c)) = Inr (k, startTS)"
    "db_logsFrom (col_DB c) (col_FdcContractAddress c) (sel_AttestationRequest S) startTS n = Some logs"
    using assms(2) [unfolded database_ok_def] by (elim conjE exE)
  obtain l where run: "AttestationRequestListener (db_logsFrom (col_DB c) (col_FdcContractAddress c) (sel_AttestationRequest S)) C
      (db_now (col_DB c)) (Some n) (request_ticks_of S c) = Inr (l, dp_Requests d)"
    by (rule Collector_Run_Inr [OF assms(1), unfolded state])
  from listener_logs [OF run start ticks] show ?thesis by blast
qed

lemma Collector_Run_rounds:
  assumes "Collector_Run R S P C c = Inr d" "chain_ok C"
    and "\<forall>bt. db_blockTimestamp (col_DB c) = Some bt \<longrightarrow> unat bt \<le> choose_end C (2 ^ 32 - 2) \<and>
      (\<forall>n e. NextChooseEnd C bt = Inr (n, e) \<longrightarrow> unat n + length (db_polls (col_DB c)) + 2 < 2 ^ 32)"
  shows "sorted_wrt (<) (map (unat \<circ> pr_ID) (dp_BitVotes d))"
proof -
  obtain bt triggered where t: "db_blockTimestamp (col_DB c) = Some bt" "PrepareChooseTrigger C bt (db_polls (col_DB c)) = Inr triggered"
    and d: "dp_BitVotes d = List.map_filter (\<lambda>(n, _, _). BitVoteListener (db_transactions (col_DB c) n) (lp_Payloads P) C
       (col_SubmitContractAddress c) (sel_Submit2 S) (col_ProtocolID c) n) triggered"
    by (rule Collector_Run_Inr [OF assms(1)])
  obtain n e where ne: "NextChooseEnd C bt = Inr (n, e)"
    using t(2) by (auto simp: PrepareChooseTrigger_def split: sum.splits)
  have bound: "unat bt \<le> choose_end C (2 ^ 32 - 2)" "unat n + length (db_polls (col_DB c)) + 2 < 2 ^ 32"
    using assms(3) t(1) ne by blast+
  let ?st = "\<lparr>cho_roundID = n, cho_end = e\<rparr>"
  have "e = ChooseEndTS C n" by (rule NextChooseEnd_first [OF assms(2) bound(1)]) (use ne in auto)
  then have ok: "choose_ok C ?st" by (simp add: choose_ok_def)
  obtain st' where polls: "choose_polls C ?st (db_polls (col_DB c)) = (st', triggered)"
    using t(2) ne by (cases "choose_polls C ?st (db_polls (col_DB c))") (simp add: PrepareChooseTrigger_def)
  have "map (unat \<circ> fst) triggered = [unat n..<unat n + length triggered]"
    using choose_polls_rounds [OF assms(2) _ ok polls] bound(2) by simp
  then have "sorted_wrt (<) (map (unat \<circ> fst) triggered)" by (simp add: sorted_wrt_upt)
  then show ?thesis
    unfolding d by (rule map_filter_increasing) (auto dest: BitVoteListener_ID)
qed

text \<open>The client when the collector starts to run.\<close>

definition collector_started ::
  "('arg, 's, 'p, 'q) Manager \<Rightarrow> 'log DataPipes \<Rightarrow> ('arg, 's, 'p, 'q, 'log) pipes" where
  "collector_started m d = \<lparr>pp_manager = m, pp_started = False,
     pp_channels = \<lparr>dp_Requests = [], dp_BitVotes = [], dp_Voters = []\<rparr>, pp_collector = d\<rparr>"

lemma collector_started_simps [simp]:
  "pp_manager (collector_started m d) = m" "\<not> pp_started (collector_started m d)" "pp_collector (collector_started m d) = d"
  "pp_channels (collector_started m d) = \<lparr>dp_Requests = [], dp_BitVotes = [], dp_Voters = []\<rparr>"
  by (simp_all add: collector_started_def)

lemma sorted_wrt_prefix: "sorted_wrt P (map f (xs @ ys)) \<Longrightarrow> sorted_wrt P (map f xs)"
  by (simp add: sorted_wrt_append)

section \<open>Properties\<close>

text \<open>
  C13. From the database to the manager, in order: in every run of the collector, the channels, the manager, the
  queue workers and the REST handlers, the request logs that the manager has received are the beginning of the
  logs of the blocks, each once and in order; the rounds of the bit votes that it has received increase; and it
  has received neither before the initial signing policies.
\<close>

theorem collector_to_manager_order:
  assumes d: "Collector_Run R S P C c = Inr d" and db: "database_ok C S c B n logs" and C: "chain_ok C"
    and time: "\<forall>bt. db_blockTimestamp (col_DB c) = Some bt \<longrightarrow> unat bt \<le> choose_end C (2 ^ 32 - 2) \<and>
      (\<forall>n e. NextChooseEnd C bt = Inr (n, e) \<longrightarrow> unat n + length (db_polls (col_DB c)) + 2 < 2 ^ 32)"
    and run: "pipes_run L parse K C A M (collector_started m d) es s"
  shows "(\<exists>l rest. n \<le> l \<and> concat (got_requests es) @ rest = logs @ concat (map B [Suc (unat n)..<Suc (unat l)])) \<and>
    sorted_wrt (<) (map (unat \<circ> pr_ID) (got_bitVotes es)) \<and>
    (got_voters es = [] \<longrightarrow> got_requests es = [] \<and> got_bitVotes es = [])"
proof (intro conjI)
  note fifo = pipes_run_fifo [OF run, simplified]
  obtain l where l: "n \<le> l" "concat (dp_Requests d) = logs @ concat (map B [Suc (unat n)..<Suc (unat l)])"
    using Collector_Run_requests [OF d db] by blast
  have "concat (got_requests es) @ concat (dp_Requests (pp_channels s) @ dp_Requests (pp_collector s)) = concat (dp_Requests d)"
    unfolding concat_append [symmetric] using fifo by simp
  with l show "\<exists>l rest. n \<le> l \<and> concat (got_requests es) @ rest = logs @ concat (map B [Suc (unat n)..<Suc (unat l)])" by metis
  have "sorted_wrt (<) (map (unat \<circ> pr_ID) (got_bitVotes es @ dp_BitVotes (pp_channels s) @ dp_BitVotes (pp_collector s)))"
    using Collector_Run_rounds [OF d C time] fifo by simp
  then show "sorted_wrt (<) (map (unat \<circ> pr_ID) (got_bitVotes es))" by (rule sorted_wrt_prefix)
  show "got_voters es = [] \<longrightarrow> got_requests es = [] \<and> got_bitVotes es = []"
    using pipes_run_policies_first [OF run] by simp
qed

text \<open>
  Everything gets to the manager: from every state of a run that has received the initial policies and has no
  read lock left on a round, the run can be continued until the manager has received exactly the logs of the blocks
  up to the last one the collector has queried, each once and in order, and all bit votes and signing policies.
\<close>

lemma every_log_is_received:
  assumes d: "Collector_Run R S P C c = Inr d" and db: "database_ok C S c B n logs"
    and L: "cyclic_ok L" and ok: "manager_ok L K m"
    and run: "pipes_run L parse K C A M (collector_started m d) es s" "pp_started s" "unlocked (pp_manager s)"
  shows "\<exists>es' s' l. pipes_run L parse K C A M (collector_started m d) (es @ es') s' \<and> n \<le> l \<and>
    concat (got_requests (es @ es')) = logs @ concat (map B [Suc (unat n)..<Suc (unat l)]) \<and>
    got_bitVotes (es @ es') = dp_BitVotes d \<and> got_voters (es @ es') = dp_Voters d"
proof -
  have "manager_ok L K (pp_manager (collector_started m d))" using ok by simp
  from everything_is_handled [OF run(1) L this run(2,3)]
  obtain es' s' where "pipes_run L parse K C A M (collector_started m d) (es @ es') s'" "got_requests (es @ es') = dp_Requests d"
    "got_bitVotes (es @ es') = dp_BitVotes d" "got_voters (es @ es') = dp_Voters d"
    by auto
  with Collector_Run_requests [OF d db] show ?thesis by metis
qed

definition sample_database :: "(dbLog, unit) database" where
  "sample_database = \<lparr>db_latestLogs = (\<lambda>a s n. Some [sample_log]), db_policyWindows = (\<lambda>a s. []), db_now = 1658430000, db_state = Some 3,
     db_logsFrom = (\<lambda>a s ts n. Some [sample_log]), db_ticks = [None], db_blockTimestamp = Some 1658430090,
     db_polls = [(Some 1658430095, 1658430096)], db_transactions = (\<lambda>n p. Some [()])\<rparr>"

definition sample_collector :: "(dbLog, unit) database Collector" where
  "sample_collector = \<lparr>col_ProtocolID = 200, col_SubmitContractAddress = [], col_FdcContractAddress = [], col_RelayContractAddress = [],
     col_VoterRegistryContractAddress = [], col_DB = sample_database\<rparr>"

abbreviation (input) sample_policy :: Policy where
  "sample_policy \<equiv> \<lparr>pol_Voters = [], pol_RewardEpochId = 0, pol_StartVotingRoundId = 0\<rparr>"

definition sample_parsers :: "(dbLog, unit) log_parsers" where
  "sample_parsers = \<lparr>lp_Policy = (\<lambda>log. Some sample_policy), lp_submitToSigning = (\<lambda>a n. Some Map.empty), lp_entries = (\<lambda>m. []),
     lp_Payloads = (\<lambda>tx. Some [200 \<mapsto> sample_message 7 [0, 0]])\<rparr>"

abbreviation (input) sample_selectors :: selectors where
  "sample_selectors \<equiv> \<lparr>sel_signingPolicyInitialized = [], sel_AttestationRequest = [], sel_voterRegistered = [], sel_Submit2 = []\<rparr>"

abbreviation (input) sample_voters_data :: VotersData where
  "sample_voters_data \<equiv> \<lparr>vdt_Policy = sample_policy, vdt_SubmitToSigningAddress = []\<rparr>"

abbreviation (input) sample_data :: "dbLog DataPipes" where
  "sample_data \<equiv> \<lparr>dp_Requests = [[sample_log]], dp_BitVotes = [\<lparr>pr_Messages = [sample_message 7 [0, 0]], pr_ID = 0\<rparr>],
     dp_Voters = [[sample_voters_data]]\<rparr>"

abbreviation (input) sample_registries :: registries where
  "sample_registries \<equiv> registry_addresses (\<lambda>s. [1])"

lemma sample_Collector_Run:
  "Collector_Run sample_registries sample_selectors sample_parsers Chain_default sample_collector = Inr sample_data"
proof -
  have start: "LastCollectPhaseStart Chain_default 1658430000 = Inr (0, 1658429955)" by code_simp
  have trig: "PrepareChooseTrigger Chain_default 1658430090 [(Some 1658430095, 1658430096)] = Inr [(0, 1658430095, 1658430096)]" by code_simp
  show ?thesis
    by (simp add: Collector_Run_def sample_collector_def sample_database_def sample_parsers_def Let_def
        SigningPolicyInitializedListener_def SigningPolicyInitialized_sorted_def AddSubmitAddressesToSigningPolicy_def big_IsUint64_def
        AttestationRequestListener_def start trig BitVoteListener_def map_filter_simps)
qed

lemma sample_database_ok: "database_ok Chain_default sample_selectors sample_collector (\<lambda>b. []) 3 [sample_log]"
proof -
  have "LastCollectPhaseStart Chain_default 1658430000 = Inr (0, 1658429955)" by code_simp
  then show ?thesis by (simp add: database_ok_def sample_collector_def sample_database_def)
qed

abbreviation (input) sample_collector_run where
  "sample_collector_run \<equiv> pipes_run sample_lib (\<lambda>log. Some ([5], 20)) id Chain_default sample_abi sample_merkle
     (collector_started empty_manager sample_data)"

lemma sample_collector_run_start:
  "sample_collector_run [Internal, GotVoters [sample_voters_data]]
     ((collector_started empty_manager sample_data)\<lparr>pp_started := True, pp_collector := sample_data\<lparr>dp_Voters := []\<rparr>\<rparr>)"
proof -
  let ?s0 = "collector_started empty_manager sample_data"
  let ?s1 = "?s0\<lparr>pp_collector := (pp_collector ?s0)\<lparr>dp_Voters := []\<rparr>,
      pp_channels := (pp_channels ?s0)\<lparr>dp_Voters := dp_Voters (pp_channels ?s0) @ [[sample_voters_data]]\<rparr>\<rparr>"
  have s1: "sample_collector_run ([] @ [Internal]) ?s1"
    by (rule pipes_run.step [OF pipes_run.start pipes_step.sendVoters]) (simp_all add: signingPolicyBufferSize_def)
  have "Run_initialPolicies sample_lib empty_manager [sample_voters_data] = Some empty_manager"
    by (simp add: OnSigningPolicy_def VotersDataCheck_def sample_lib_def empty_manager_def Manager_New_def)
  then have "pipes_step sample_lib (\<lambda>log. Some ([5], 20)) id Chain_default sample_abi sample_merkle ?s1 (GotVoters [sample_voters_data])
      (?s1\<lparr>pp_manager := empty_manager, pp_started := True, pp_channels := (pp_channels ?s1)\<lparr>dp_Voters := []\<rparr>\<rparr>)"
    by (intro pipes_step.recvInitial) simp_all
  from pipes_run.step [OF s1 this] show ?thesis by (simp add: collector_started_def)
qed

theorem collector_to_manager_order_witness:
  "\<exists>l rest. 3 \<le> l \<and> concat (got_requests [Internal, GotVoters [sample_voters_data]]) @ rest = [sample_log] @ concat (map (\<lambda>b. []) [4..<Suc (unat (l :: u64))])"
proof -
  have next0: "NextChooseEnd Chain_default 1658430090 = Inr (0, 1658430090)" by code_simp
  have time: "\<forall>bt. db_blockTimestamp (col_DB sample_collector) = Some bt \<longrightarrow> unat bt \<le> choose_end Chain_default (2 ^ 32 - 2) \<and>
      (\<forall>n e. NextChooseEnd Chain_default bt = Inr (n, e) \<longrightarrow> unat n + length (db_polls (col_DB sample_collector)) + 2 < 2 ^ 32)"
    by (simp add: sample_collector_def sample_database_def next0) (simp add: Chain_default_def)
  from collector_to_manager_order [OF sample_Collector_Run sample_database_ok chain_ok_default time sample_collector_run_start]
  have "\<exists>l rest. (3 :: u64) \<le> l \<and> concat (got_requests [Internal, GotVoters [sample_voters_data]]) @ rest =
      [sample_log] @ concat (map (\<lambda>b. []) [Suc (unat (3 :: u64))..<Suc (unat l)])" by blast
  then show ?thesis by simp
qed

end
