(* ===== verification/Ledger.thy ===== *)
theory Ledger
  imports Listeners
begin

text \<open>
  The requests of a round over a whole run, as an abstract ledger: for every round, the fee and the positions of
  each request. The specification adds the logs that the manager receives, one after the other, and knows nothing
  of queues, workers, votes, consensus or REST handlers.

  Shown here: in every run the rounds of the client implement the ledger, as long as the storage has room for
  the rounds in use and has policies for them; and from the database on, a run can always be continued until
  the rounds hold exactly the logs of the blocks.
\<close>

section \<open>The specification\<close>

text \<open>What a log adds to the ledger of round \<open>k\<close>.\<close>

definition log_add ::
  "('m dbLog_scheme \<Rightarrow> (bytes \<times> int) option) \<Rightarrow> (bytes \<Rightarrow> bytes) \<Rightarrow> Timing \<Rightarrow> u32 \<Rightarrow> 'm dbLog_scheme \<Rightarrow> request_map \<Rightarrow> request_map" where
  "log_add parse K C k log led =
     (case parse log of
        None \<Rightarrow> led
      | Some (data, fee) \<Rightarrow>
          if RoundIDForTS C (log_Timestamp log) = Inr k
          then spec_add (K data) fee \<lparr>il_BlockNumber = log_BlockNumber log, il_LogIndex = log_LogIndex log\<rparr> led
          else led)"

text \<open>The ledger of round \<open>k\<close> in a client; a round that does not exist has no requests.\<close>

definition ledger :: "('s, 'p, 'sp, 'q) lib \<Rightarrow> ('arg, 's, 'p, 'q) Manager \<Rightarrow> u32 \<Rightarrow> request_map" where
  "ledger L m k =
     (case cy_Get L (m_Rounds m) k of
        None \<Rightarrow> Map.empty
      | Some ra \<Rightarrow> (case m_round m ra of None \<Rightarrow> Map.empty | Some r \<Rightarrow> round_abs (m_heap m) r))"

text \<open>
  A set \<open>W\<close> of rounds for which the libraries have room: the cyclic storage keeps one of them when another one is
  stored (their identifiers are closer together than its size), and every policy storage in \<open>P\<close> has a policy
  for them, which new policies and the removal of the policies before one of them, or before round 0 when no
  round has been created, leave in place.
\<close>

definition window_ok :: "('s, 'p, 'sp, 'q) lib \<Rightarrow> u32 set \<Rightarrow> ('p \<Rightarrow> bool) \<Rightarrow> bool" where
  "window_ok L W P \<longleftrightarrow>
     (\<forall>s k v k'. k \<in> W \<longrightarrow> k' \<in> W \<longrightarrow> k' \<noteq> k \<longrightarrow> cy_Get L (cy_Store L s k v) k' = cy_Get L s k') \<and>
     (\<forall>p k. P p \<longrightarrow> k \<in> W \<longrightarrow> sp_ForVotingRound L p k \<noteq> None) \<and>
     (\<forall>p q p'. P p \<longrightarrow> sp_Add L p q = Some p' \<longrightarrow> P p') \<and>
     (\<forall>p. \<forall>k\<in>insert 0 W. P p \<longrightarrow> P (fst (sp_RemoveBefore L p k)))"

definition in_window :: "u32 set \<Rightarrow> ('p \<Rightarrow> bool) \<Rightarrow> ('arg, 's, 'p, 'q) Manager \<Rightarrow> bool" where
  "in_window W P m \<longleftrightarrow> P (m_policies m) \<and> m_lastRoundCreated m \<in> insert 0 W"

lemma window_okD:
  assumes "window_ok L W P"
  shows "k \<in> W \<Longrightarrow> k' \<in> W \<Longrightarrow> k' \<noteq> k \<Longrightarrow> cy_Get L (cy_Store L s k v) k' = cy_Get L s k'"
    "P p \<Longrightarrow> k \<in> W \<Longrightarrow> sp_ForVotingRound L p k \<noteq> None"
    "P p \<Longrightarrow> sp_Add L p q = Some p' \<Longrightarrow> P p'"
    "P p \<Longrightarrow> k \<in> insert 0 W \<Longrightarrow> P (fst (sp_RemoveBefore L p k))"
  using assms unfolding window_ok_def by blast+

lemma round_abs_status [simp]: "round_abs (h\<lparr>h_status := x\<rparr>) r = round_abs h r"
  by (simp add: round_abs_def fun_eq_iff)

lemma ledger_policies [simp]: "ledger L (m\<lparr>m_policies := p\<rparr>) k = ledger L m k"
  by (simp add: ledger_def cong: option.case_cong)

section \<open>Operations that keep the ledger\<close>

definition keeps_ledger ::
  "('s, 'p, 'sp, 'q) lib \<Rightarrow> u32 set \<Rightarrow> ('p \<Rightarrow> bool) \<Rightarrow> ('arg, 's, 'p, 'q) Manager \<Rightarrow> ('arg, 's, 'p, 'q) Manager \<Rightarrow> bool" where
  "keeps_ledger L W P m m' \<longleftrightarrow> (\<forall>k\<in>W. ledger L m' k = ledger L m k) \<and> in_window W P m'"

lemma keeps_ledger_refl: "in_window W P m \<Longrightarrow> keeps_ledger L W P m m"
  by (simp add: keeps_ledger_def)

lemma keeps_ledger_trans: "keeps_ledger L W P m m' \<Longrightarrow> keeps_ledger L W P m' m'' \<Longrightarrow> keeps_ledger L W P m m''"
  by (simp add: keeps_ledger_def)

lemma keeps_ledger_window: "keeps_ledger L W P m m' \<Longrightarrow> in_window W P m'"
  by (simp add: keeps_ledger_def)

lemma round_abs_cong:
  assumes "r_attestationMap r' = r_attestationMap r"
    and "\<And>x a. r_attestationMap r x = Some a \<Longrightarrow> at_Fee (h_atts h' a) = at_Fee (h_atts h a) \<and> at_Indexes (h_atts h' a) = at_Indexes (h_atts h a)"
  shows "round_abs h' r' = round_abs h r"
  using assms by (fastforce simp: round_abs_def fun_eq_iff intro!: map_option_cong)

text \<open>A change that keeps the maps of the rounds, and the fees and positions of the attestations.\<close>

lemma keeps_ledger_fields:
  assumes "in_window W P m" "m_Rounds m' = m_Rounds m" "m_policies m' = m_policies m" "m_lastRoundCreated m' = m_lastRoundCreated m"
    and round: "\<And>ra. map_option r_attestationMap (m_round m' ra) = map_option r_attestationMap (m_round m ra)"
    and heap: "\<And>a. at_Fee (h_atts (m_heap m') a) = at_Fee (h_atts (m_heap m) a) \<and>
      at_Indexes (h_atts (m_heap m') a) = at_Indexes (h_atts (m_heap m) a)"
  shows "keeps_ledger L W P m m'"
proof -
  have "(case m_round m' ra of None \<Rightarrow> Map.empty | Some r \<Rightarrow> round_abs (m_heap m') r) =
      (case m_round m ra of None \<Rightarrow> Map.empty | Some r \<Rightarrow> round_abs (m_heap m) r)" for ra
    using round [of ra] heap by (auto split: option.split intro: round_abs_cong)
  then have "ledger L m' k = ledger L m k" for k by (simp add: ledger_def assms(2) split: option.split)
  with assms(1,3,4) show ?thesis by (simp add: keeps_ledger_def in_window_def)
qed

lemma keeps_ledger_replace:
  assumes "in_window W P m" "m_round m ra = Some r" "r_attestationMap r' = r_attestationMap r"
    and "\<And>a. at_Fee (h_atts h a) = at_Fee (h_atts (m_heap m) a) \<and> at_Indexes (h_atts h a) = at_Indexes (h_atts (m_heap m) a)"
  shows "keeps_ledger L W P m (m\<lparr>m_heap := h, m_round := (m_round m)(ra \<mapsto> r')\<rparr>)"
  by (rule keeps_ledger_fields) (use assms in auto)

lemma create_keeps:
  assumes L: "cyclic_ok L" "window_ok L W P" and ok: "manager_ok L K m" and w: "in_window W P m"
    and k: "k \<in> W" "cy_Get L (m_Rounds m) k = None"
  shows "keeps_ledger L W P m (create_round L m k vs)"
proof -
  let ?m = "create_round L m k vs"
  have fresh: "m_round m (m_next m) = None"
    using manager_okD(1) [OF ok, of "m_next m"] by (cases "m_round m (m_next m)") (auto simp: round_in_manager_def)
  have "ledger L ?m k' = ledger L m k'" if k': "k' \<in> W" for k'
  proof (cases "k' = k")
    case True
    have "cy_Get L (m_Rounds ?m) k = Some (m_next m)" using L(1) by (simp add: cyclic_ok_def)
    with k(2) True show ?thesis by (simp add: ledger_def round_abs_def Round_New_def fun_eq_iff)
  next
    case False
    with L(2) k(1) k' have get: "cy_Get L (m_Rounds ?m) k' = cy_Get L (m_Rounds m) k'" by (simp add: window_ok_def)
    show ?thesis
    proof (cases "cy_Get L (m_Rounds m) k'")
      case (Some ra)
      then obtain r where r: "m_round m ra = Some r" using manager_okD(3) [OF ok Some] by blast
      with fresh have "ra \<noteq> m_next m" by auto
      then show ?thesis using get Some r by (simp add: ledger_def round_abs_def Round_New_def)
    qed (use get in \<open>simp add: ledger_def\<close>)
  qed
  moreover have "in_window W P ?m" using w k(1) by (simp add: in_window_def create_round_def)
  ultimately show ?thesis by (simp add: keeps_ledger_def)
qed

lemma GetOrCreate_keeps:
  assumes L: "cyclic_ok L" "window_ok L W P" and ok: "manager_ok L K m" and w: "in_window W P m" and k: "k \<in> W"
  obtains m' ra r where "GetOrCreateRound L m k = (m', Inr ra)" "keeps_ledger L W P m m'" "manager_ok L K m'"
    "cy_Get L (m_Rounds m') k = Some ra" "m_round m' ra = Some r" "m_next m \<le> m_next m'" "h_atts (m_heap m') = h_atts (m_heap m)"
proof (cases rule: GetOrCreateRound_cases [where L = L and m = m and k = k])
  case (found ra)
  with manager_okD(3) [OF ok found(1)] show thesis using that ok keeps_ledger_refl [OF w] by blast
next
  case no_policy
  with window_okD(2) [OF L(2), of "m_policies m" k] w k show thesis by (simp add: in_window_def)
next
  case (created vs)
  have "cy_Get L (m_Rounds (create_round L m k vs)) k = Some (m_next m)" using L(1) by (simp add: cyclic_ok_def)
  then show thesis
    by (rule that [OF created(3) create_keeps [OF L ok w k created(1)] create_round_ok [OF L(1) ok]]) simp_all
qed

lemma OnBitVote_keeps:
  assumes L: "cyclic_ok L" "window_ok L W P" and ok: "manager_ok L K m" and w: "in_window W P m" and k: "msg_VotingRound msg \<in> W"
  shows "keeps_ledger L W P m (fst (OnBitVote L C m msg))"
proof -
  obtain m1 ra r where g: "GetOrCreateRound L m (msg_VotingRound msg) = (m1, Inr ra)" "keeps_ledger L W P m m1" "m_round m1 ra = Some r"
    by (rule GetOrCreate_keeps [OF L ok w k])
  have "keeps_ledger L W P m1 (m1\<lparr>m_round := (m_round m1)(ra \<mapsto> fst (ProcessBitVote r msg))\<rparr>)"
    by (rule keeps_ledger_fields [OF keeps_ledger_window [OF g(2)]]) (simp_all add: g(3) frame)
  then have "keeps_ledger L W P m (m1\<lparr>m_round := (m_round m1)(ra \<mapsto> fst (ProcessBitVote r msg))\<rparr>)"
    by (rule keeps_ledger_trans [OF g(2)])
  then show ?thesis
    using keeps_ledger_refl [OF w] by (auto simp: OnBitVote_def g(1,3) case_prod_beta Let_def split: option.splits)
qed

lemma Run_bitVotes_keeps:
  assumes L: "cyclic_ok L" "window_ok L W P" and ok: "manager_ok L K m" and w: "in_window W P m"
    and ks: "\<forall>msg\<in>set ms. msg_VotingRound msg \<in> W" and res: "Run_bitVotes L C m k ms = Some m'"
  shows "keeps_ledger L W P m m'"
proof -
  define m1 where "m1 = foldl (\<lambda>m message. fst (OnBitVote L C m message)) m ms"
  have fold: "keeps_ledger L W P m m1 \<and> manager_ok L K m1"
    unfolding m1_def using ok w ks
  proof (induction ms arbitrary: m)
    case (Cons msg ms)
    have step: "keeps_ledger L W P m (fst (OnBitVote L C m msg))" using Cons.prems by (intro OnBitVote_keeps [OF L]) simp_all
    have "manager_ok L K (fst (OnBitVote L C m msg))" by (rule OnBitVote_ok [OF L(1) Cons.prems(1)])
    from Cons.IH [OF this keeps_ledger_window [OF step]] Cons.prems(3) keeps_ledger_trans [OF step] show ?case by simp
  qed (simp add: keeps_ledger_refl)
  note d = res [unfolded Run_bitVotes_def m1_def [symmetric] Let_def]
  show ?thesis
  proof (cases "cy_Get L (m_Rounds m1) k")
    case None
    with d fold show ?thesis by simp
  next
    case (Some ra)
    obtain r where r: "m_round m1 ra = Some r" using manager_okD(3) [OF conjunct2 [OF fold] Some] by blast
    obtain h r' err where c: "ComputeConsensusBitVote (m_heap m1) r = Some (h, r', err)"
      using d Some r by (auto split: option.splits)
    note f = ComputeConsensus_fields [OF c]
    let ?m = "m1\<lparr>m_heap := h, m_round := (m_round m1)(ra \<mapsto> r')\<rparr>"
    have "at_Fee (h_atts h a) = at_Fee (h_atts (m_heap m1) a) \<and> at_Indexes (h_atts h a) = at_Indexes (h_atts (m_heap m1) a)" for a
      using f(8) [of a] by auto
    then have m: "keeps_ledger L W P m1 ?m"
      using fold by (intro keeps_ledger_replace [OF _ r f(3)]) (auto simp: keeps_ledger_window)
    have "keeps_ledger L W P ?m (fst (retryUnsuccessfulChosen L ?m r'))"
      by (rule keeps_ledger_fields [OF keeps_ledger_window [OF m]]) (simp_all add: retryUnsuccessfulChosen_def case_prod_beta Let_def)
    then have "keeps_ledger L W P m1 m'"
      using d Some r c m keeps_ledger_trans [OF m] by (simp split: if_splits)
    then show ?thesis using keeps_ledger_trans fold by blast
  qed
qed

lemma OnSigningPolicy_keeps:
  assumes "window_ok L W P" "in_window W P m"
  shows "keeps_ledger L W P m (fst (OnSigningPolicy L m d))"
  using assms keeps_ledger_refl [OF assms(2)]
  by (auto simp: OnSigningPolicy_def Let_def keeps_ledger_def ledger_def in_window_def split: option.splits dest: window_okD(3))

lemma Run_signingPolicies_keeps:
  assumes "window_ok L W P" "in_window W P m"
  shows "keeps_ledger L W P m (Run_signingPolicies L m ds)"
proof -
  let ?m = "foldl (\<lambda>m d. fst (OnSigningPolicy L m d)) m ds"
  have fold: "keeps_ledger L W P m ?m"
    using assms(2)
  proof (induction ds arbitrary: m)
    case (Cons d ds)
    note step = OnSigningPolicy_keeps [OF assms(1) Cons.prems, of d]
    from Cons.IH [OF keeps_ledger_window [OF step]] show ?case by (simp add: keeps_ledger_trans [OF step])
  qed (simp add: keeps_ledger_refl)
  have "keeps_ledger L W P ?m (Run_signingPolicies L m ds)"
    using keeps_ledger_window [OF fold] window_okD(4) [OF assms(1)]
    by (simp add: keeps_ledger_def Run_signingPolicies_def Let_def in_window_def)
  with fold show ?thesis by (rule keeps_ledger_trans)
qed

lemma handler_step_keeps:
  assumes "handler_step L K C A M m m'" "manager_ok L K m" "in_window W P m"
  shows "keeps_ledger L W P m m'"
  using assms
proof cases
  case (dequeued H a)
  have "same_request (h_atts (m_heap m) a) (fst (Handle H A K C (h_atts (m_heap m) a)))" by (rule Handle_same)
  then have "keeps_ledger L W P m (fst (handler H A K C m a))"
    by (intro keeps_ledger_fields [OF assms(3)]) (auto simp: handler_def case_prod_beta Let_def same_request_def)
  then show ?thesis by (simp add: dequeued run_dequeued_def keeps_ledger_refl assms(3))
next
  case (submit2 BuildMessage protocolID k addr out)
  then show ?thesis
  proof (cases "cy_Get L (m_Rounds m) k")
    case (Some ra)
    obtain r where r: "m_round m ra = Some r" using manager_okD(3) [OF assms(2) Some] by blast
    have "m' = m\<lparr>m_heap := m_heap m, m_round := (m_round m)(ra \<mapsto> sortAttestations (m_heap m) r)\<rparr>"
      using submit2 Some r by (auto simp: submit2Service_def BitVoteBytes_def Round_BitVote_def Let_def split: option.splits sum.splits)
    then show ?thesis using keeps_ledger_replace [OF assms(3) r, of "sortAttestations (m_heap m) r" "m_heap m"]
      by (simp add: sortAttestations_def)
  qed (use keeps_ledger_refl [OF assms(3), of L] in \<open>auto simp: submit2Service_def\<close>)
next
  case (submitSignatures BuildMessage protocolID k response)
  then show ?thesis
  proof (cases "cy_Get L (m_Rounds m) k")
    case (Some ra)
    obtain r where r: "m_round m ra = Some r" using manager_okD(3) [OF assms(2) Some] by blast
    have "m' = m \<or> (\<exists>h r' x. MerkleRoot (mk_Build M) (mk_Root M) (m_heap m) r = Some (h, r', x) \<and>
        m' = m\<lparr>m_heap := h, m_round := (m_round m)(ra \<mapsto> r')\<rparr>)"
      using submitSignatures by (auto simp: submitSignaturesService_round [OF Some r] split: option.splits if_splits)
    then show ?thesis
    proof
      assume "\<exists>h r' x. MerkleRoot (mk_Build M) (mk_Root M) (m_heap m) r = Some (h, r', x) \<and>
        m' = m\<lparr>m_heap := h, m_round := (m_round m)(ra \<mapsto> r')\<rparr>"
      then obtain h r' x where root: "MerkleRoot (mk_Build M) (mk_Root M) (m_heap m) r = Some (h, r', x)"
        and m': "m' = m\<lparr>m_heap := h, m_round := (m_round m)(ra \<mapsto> r')\<rparr>" by blast
      show ?thesis unfolding m' by (rule keeps_ledger_replace [OF assms(3) r]) (simp_all add: MerkleRoot_frame [OF root])
    qed (simp add: keeps_ledger_refl assms(3))
  qed (use keeps_ledger_refl [OF assms(3), of L] in \<open>auto simp: submitSignaturesService_def\<close>)
next
  case (getAttestations k res)
  then show ?thesis
  proof (cases "cy_Get L (m_Rounds m) k")
    case (Some ra)
    obtain r where r: "m_round m ra = Some r" using manager_okD(3) [OF assms(2) Some] by blast
    obtain h r' x where tree: "MerkleTree (mk_Build M) (m_heap m) r = Some (h, r', x)"
      and m': "m' = m\<lparr>m_heap := h, m_round := (m_round m)(ra \<mapsto> r')\<rparr>"
      using getAttestations Some r by (auto simp: GetAttestations_def Let_def split: option.splits sum.splits)
    show ?thesis unfolding m' by (rule keeps_ledger_replace [OF assms(3) r]) (simp_all add: MerkleTree_frame [OF tree])
  qed (use keeps_ledger_refl [OF assms(3), of L] in \<open>auto simp: GetAttestations_def\<close>)
qed

section \<open>Requests\<close>

text \<open>What \<^verbatim>\<open>OnRequest\<close> does after the new attestation has been allocated at \<open>m_next\<close> and its round has been found.\<close>

lemma AddToQueue_ledger: "ledger L' (fst (AddToQueue L m a)) k = ledger L' m k"
    "m_policies (fst (AddToQueue L m a)) = m_policies m" "m_lastRoundCreated (fst (AddToQueue L m a)) = m_lastRoundCreated m"
proof -
  let ?att = "fst (PrepareRequest (m_types m) (h_atts (m_heap m) a))"
  let ?h = "(m_heap m)\<lparr>h_atts := (h_atts (m_heap m))(a := ?att)\<rparr>"
  have "same_request (h_atts (m_heap m) a) ?att" by (rule PrepareRequest_same)
  then have same: "round_abs ?h r = round_abs (m_heap m) r" for r by (intro round_abs_cong) (auto simp: same_request_def)
  obtain q where q: "fst (AddToQueue L m a) = m\<lparr>m_heap := ?h, m_queues := q\<rparr>"
  proof -
    have "\<exists>q. fst (AddToQueue L m a) = m\<lparr>m_heap := ?h, m_queues := q\<rparr>"
      by (auto simp: AddToQueue_def case_prod_beta Let_def intro: exI [of _ "m_queues m"] split: option.split)
    then show thesis using that by blast
  qed
  show "ledger L' (fst (AddToQueue L m a)) k = ledger L' m k"
    unfolding q by (simp add: ledger_def same cong: option.case_cong)
  show "m_policies (fst (AddToQueue L m a)) = m_policies m" "m_lastRoundCreated (fst (AddToQueue L m a)) = m_lastRoundCreated m"
    unfolding q by simp_all
qed

text \<open>Adding an attestation to one round changes the ledger of that round only, as in the specification.\<close>

lemma AddAttestation_ledger:
  assumes ok: "manager_ok L K m" and r: "cy_Get L (m_Rounds m) k = Some ra" "m_round m ra = Some r"
    and n: "\<And>ra' r'. m_round m ra' = Some r' \<Longrightarrow> n \<notin> set (r_Attestations r')" "at_Indexes (h_atts (m_heap m) n) = [i]"
    and add: "AddAttestation K (m_heap m) r n = Some (h, r', added)"
  shows "ledger L (m\<lparr>m_heap := h, m_round := (m_round m)(ra \<mapsto> r')\<rparr>) k' =
    (if k' = k then spec_add (K (at_Request (h_atts (m_heap m) n))) (at_Fee (h_atts (m_heap m) n)) i (ledger L m k) else ledger L m k')"
proof -
  let ?m = "m\<lparr>m_heap := h, m_round := (m_round m)(ra \<mapsto> r')\<rparr>"
  have rok: "round_atts_ok K (m_heap m) r" using manager_okD(1) [OF ok r(2)] by (simp add: round_in_manager_def)
  show ?thesis
  proof (cases "k' = k")
    case True
    then show ?thesis using AddAttestation_refines [OF rok n(1) [OF r(2)] n(2) add] r by (simp add: ledger_def)
  next
    case False
    have "ledger L ?m k' = ledger L m k'"
    proof (cases "cy_Get L (m_Rounds m) k'")
      case (Some ra')
      obtain r2 where r2: "m_round m ra' = Some r2" "r_ID r2 = k'" using manager_okD(3) [OF ok Some] by blast
      obtain r1 where "m_round m ra = Some r1" "r_ID r1 = k" using manager_okD(3) [OF ok r(1)] by blast
      with r2 False have ne: "ra' \<noteq> ra" by auto
      have rok2: "round_atts_ok K (m_heap m) r2" using manager_okD(1) [OF ok r2(1)] by (simp add: round_in_manager_def)
      have "h_atts h a = h_atts (m_heap m) a" if "r_attestationMap r2 x = Some a" for x a
      proof -
        have a: "a \<in> set (r_Attestations r2)" using that round_map_iff [OF rok2] by blast
        have "a \<notin> set (r_Attestations r)" using manager_okD(2) [OF ok r2(1) r(2) a] ne by blast
        moreover have "a \<noteq> n" using n(1) [OF r2(1)] a by blast
        ultimately show ?thesis using AddAttestation_elsewhere [OF add rok] by blast
      qed
      then have "round_abs h r2 = round_abs (m_heap m) r2" by (intro round_abs_cong) auto
      then show ?thesis using Some r2(1) ne by (simp add: ledger_def)
    qed (simp add: ledger_def)
    with False show ?thesis by simp
  qed
qed

lemma OnRequest_ledger:
  fixes m :: "('arg, 's, 'p, 'q) Manager"
  assumes L: "cyclic_ok L" "window_ok L W P" and ok: "manager_ok L K m" and w: "in_window W P m"
    and k: "\<And>data fee k. parse log = Some (data, fee) \<Longrightarrow> RoundIDForTS C (log_Timestamp log) = Inr k \<Longrightarrow> k \<in> W"
    and res: "OnRequest L parse K C m log = Some (m', err)"
  shows "in_window W P m' \<and> (\<forall>k\<in>W. ledger L m' k = log_add parse K C k log (ledger L m k))"
proof (cases "AttestationFromDatabaseLog parse C log :: AttError + 'arg Attestation")
  case (Inl e)
  with res have "m' = m" by (simp add: OnRequest_def)
  moreover have "log_add parse K C k log led = led" for k led
    using Inl by (auto simp: log_add_def AttestationFromDatabaseLog_def split: option.splits sum.splits)
  ultimately show ?thesis using w by simp
next
  case (Inr att)
  let ?i = "\<lparr>il_BlockNumber = log_BlockNumber log, il_LogIndex = log_LogIndex log\<rparr>"
  let ?n = "m_next m"
  obtain data fee k0 where log: "parse log = Some (data, fee)" "RoundIDForTS C (log_Timestamp log) = Inr k0"
    and att: "at_Request att = data" "at_Fee att = fee" "at_RoundID att = k0" "at_Indexes att = [?i]"
    using Inr by (auto simp: AttestationFromDatabaseLog_def split: option.splits sum.splits)
  have k0: "k0 \<in> W" by (rule k [OF log])
  define m1 where "m1 = m\<lparr>m_heap := (m_heap m)\<lparr>h_atts := (h_atts (m_heap m))(?n := att)\<rparr>, m_next := Suc ?n\<rparr>"
  have ok1: "manager_ok L K m1" unfolding m1_def by (rule alloc_att_ok [OF ok])
  have w1: "in_window W P m1" using w by (simp add: m1_def in_window_def)
  have m1: "ledger L m1 k = ledger L m k" for k
  proof (cases "cy_Get L (m_Rounds m) k")
    case (Some ra)
    obtain r where r: "m_round m ra = Some r" using manager_okD(3) [OF ok Some] by blast
    have in_r: "round_in_manager K m ra r" by (rule manager_okD(1) [OF ok r])
    then have "a \<noteq> ?n" if "r_attestationMap r x = Some a" for x a
      using that round_map_iff [of K "m_heap m" r x a] by (auto simp: round_in_manager_def)
    then have "round_abs (m_heap m1) r = round_abs (m_heap m) r" by (intro round_abs_cong) (auto simp: m1_def)
    then show ?thesis using Some r by (simp add: ledger_def m1_def)
  qed (simp add: ledger_def m1_def)
  obtain m2 ra r where g: "GetOrCreateRound L m1 k0 = (m2, Inr ra)" "keeps_ledger L W P m1 m2" "manager_ok L K m2"
    "cy_Get L (m_Rounds m2) k0 = Some ra" "m_round m2 ra = Some r" "m_next m1 \<le> m_next m2" "h_atts (m_heap m2) = h_atts (m_heap m1)"
    by (rule GetOrCreate_keeps [OF L ok1 w1 k0])
  have own: "h_atts (m_heap m2) ?n = att" using g(7) by (simp add: m1_def)
  have fresh: "?n \<notin> set (r_Attestations r')" if r': "m_round m2 ra' = Some r'" for ra' r'
  proof
    assume n: "?n \<in> set (r_Attestations r')"
    then have "m_round m ra' = Some r'" using GetOrCreateRound_ok(5) [OF L(1) ok1 g(1) r' n] by (simp add: m1_def)
    then show False using manager_okD(1) [OF ok] n by (auto simp: round_in_manager_def)
  qed
  obtain h r' added where add: "AddAttestation K (m_heap m2) r ?n = Some (h, r', added)"
    and m': "m' = fst (if added then AddToQueue L (m2\<lparr>m_heap := h, m_round := (m_round m2)(ra \<mapsto> r')\<rparr>) ?n
                       else (m2\<lparr>m_heap := h, m_round := (m_round m2)(ra \<mapsto> r')\<rparr>, None))"
    using res Inr g(1,5) unfolding OnRequest_def att(3) m1_def by (auto simp: Let_def att(3) split: option.splits)
  let ?m3 = "m2\<lparr>m_heap := h, m_round := (m_round m2)(ra \<mapsto> r')\<rparr>"
  have "ledger L ?m3 k = log_add parse K C k log (ledger L m k)" if "k \<in> W" for k
    using AddAttestation_ledger [OF g(3-5) fresh _ add, where i = ?i and k' = k] own g(2) m1 that k0
    by (simp add: att log log_add_def keeps_ledger_def eq_commute [of k])
  moreover have "in_window W P ?m3" using keeps_ledger_window [OF g(2)] by (simp add: in_window_def)
  ultimately show ?thesis by (simp add: m' AddToQueue_ledger in_window_def)
qed

lemma Run_requests_ledger:
  assumes L: "cyclic_ok L" "window_ok L W P"
  shows "manager_ok L K m \<Longrightarrow> in_window W P m \<Longrightarrow>
    (\<And>log data fee k. log \<in> set logs \<Longrightarrow> parse log = Some (data, fee) \<Longrightarrow> RoundIDForTS C (log_Timestamp log) = Inr k \<Longrightarrow> k \<in> W) \<Longrightarrow>
    Run_requests L parse K C m logs = Some m' \<Longrightarrow>
    in_window W P m' \<and> (\<forall>k\<in>W. ledger L m' k = fold (log_add parse K C k) logs (ledger L m k))"
proof (induction logs arbitrary: m)
  case (Cons log logs)
  obtain m1 err where m1: "OnRequest L parse K C m log = Some (m1, err)" "Run_requests L parse K C m1 logs = Some m'"
    using Cons.prems(4) by (auto split: option.splits)
  have step: "in_window W P m1 \<and> (\<forall>k\<in>W. ledger L m1 k = log_add parse K C k log (ledger L m k))"
    by (rule OnRequest_ledger [OF L Cons.prems(1,2) _ m1(1)]) (use Cons.prems(3) in auto)
  have "in_window W P m' \<and> (\<forall>k\<in>W. ledger L m' k = fold (log_add parse K C k) logs (ledger L m1 k))"
    by (rule Cons.IH [OF OnRequest_ok [OF L(1) Cons.prems(1) m1(1)] _ _ m1(2)]) (use step Cons.prems(3) in auto)
  with step show ?case by simp
qed simp

section \<open>Runs\<close>

lemma Run_initialPolicies_only:
  "Run_initialPolicies L m ds = Some m' \<Longrightarrow> \<exists>p. m' = m\<lparr>m_policies := p\<rparr>"
proof (induction ds arbitrary: m)
  case (Cons d ds)
  obtain m1 where "OnSigningPolicy L m d = (m1, None)" "Run_initialPolicies L m1 ds = Some m'"
    using Cons.prems by (auto split: prod.splits option.splits)
  moreover from this(1) obtain p where "m1 = m\<lparr>m_policies := p\<rparr>" by (auto simp: OnSigningPolicy_def Let_def split: option.splits)
  ultimately show ?case using Cons.IH by force
qed (auto intro: exI [of _ "m_policies m'"])

text \<open>The rounds that the logs and the bit votes of a run are for.\<close>

definition logs_within :: "('m dbLog_scheme \<Rightarrow> (bytes \<times> int) option) \<Rightarrow> Timing \<Rightarrow> u32 set \<Rightarrow> 'm dbLog_scheme list \<Rightarrow> bool" where
  "logs_within parse C W logs \<longleftrightarrow>
     (\<forall>log\<in>set logs. \<forall>data fee k. parse log = Some (data, fee) \<longrightarrow> RoundIDForTS C (log_Timestamp log) = Inr k \<longrightarrow> k \<in> W)"

definition votes_within :: "u32 set \<Rightarrow> PayloadRound list \<Rightarrow> bool" where
  "votes_within W vs \<longleftrightarrow> (\<forall>v\<in>set vs. \<forall>msg\<in>set (pr_Messages v). msg_VotingRound msg \<in> W)"

text \<open>The initial signing policies that the collector sends give a policy storage in \<open>P\<close>.\<close>

definition policies_start ::
  "('s, 'p, 'sp, 'q) lib \<Rightarrow> ('p \<Rightarrow> bool) \<Rightarrow> ('arg, 's, 'p, 'q) Manager \<Rightarrow> VotersData list list \<Rightarrow> bool" where
  "policies_start L P m ds \<longleftrightarrow>
     (\<forall>d\<in>set ds. \<forall>m1 m2. m_policies m1 = m_policies m \<longrightarrow> Run_initialPolicies L (m1 :: ('arg, 's, 'p, 'q) Manager) d = Some m2 \<longrightarrow>
        P (m_policies m2))"

lemma run_ledger:
  fixes m :: "('arg, 's, 'p, 'q) Manager"
  assumes run: "pipes_run L parse K C A M (collector_started m d) es s"
    and L: "cyclic_ok L" "window_ok L W P" and ok: "manager_ok L K m" and last: "m_lastRoundCreated m \<in> insert 0 W"
    and start: "policies_start L P m (dp_Voters d)"
    and W: "logs_within parse C W (concat (got_requests es))" "votes_within W (got_bitVotes es)"
  shows "in_window W (if pp_started s then P else (\<lambda>p. p = m_policies m)) (pp_manager s) \<and>
    (\<forall>k\<in>W. ledger L (pp_manager s) k = fold (log_add parse K C k) (concat (got_requests es)) (ledger L m k))"
  using run W
proof (induction rule: pipes_run.induct)
  case start
  then show ?case using last by (simp add: in_window_def)
next
  case (step es s e s')
  let ?P = "\<lambda>s. if pp_started s then P else (\<lambda>p. p = m_policies m)"
  have W: "logs_within parse C W (concat (got_requests es))" "votes_within W (got_bitVotes es)"
    using step.prems by (auto simp: logs_within_def votes_within_def split: event.splits)
  note IH = step.IH [OF W]
  have ok': "manager_ok L K (pp_manager s)"
    using client_reach_ok [OF pipes_run_client [OF step.hyps(1)] L(1)] ok by simp
  have voters: "dp_Voters (pp_channels s) = v # vs \<Longrightarrow> v \<in> set (dp_Voters d)" for v vs
    using pipes_run_fifo [OF step.hyps(1)] by (metis (no_types, lifting) append_Cons collector_started_simps(3,4)
        DataPipes.select_convs(3) append_Nil in_set_conv_decomp)
  from step.hyps(2) show ?case
  proof cases
    case (recvInitial v vs m')
    obtain p where p: "m' = (pp_manager s)\<lparr>m_policies := p\<rparr>" using Run_initialPolicies_only [OF recvInitial(5)] by blast
    have "m_policies (pp_manager s) = m_policies m" using IH recvInitial(3) by (simp add: in_window_def)
    then have "P (m_policies m')"
      using assms(6) voters [OF recvInitial(4)] recvInitial(5) unfolding policies_start_def by blast
    then show ?thesis using IH recvInitial(1,2) by (simp add: p in_window_def)
  next
    case (recvVoters v vs)
    then have "keeps_ledger L W P (pp_manager s) (Run_signingPolicies L (pp_manager s) v)"
      using IH by (intro Run_signingPolicies_keeps [OF L(2)]) simp
    then show ?thesis using IH recvVoters(1-3) by (simp add: keeps_ledger_def)
  next
    case (recvBitVotes v vs m')
    then have "\<forall>msg\<in>set (pr_Messages v). msg_VotingRound msg \<in> W" using step.prems(2) by (simp add: votes_within_def)
    then have "keeps_ledger L W P (pp_manager s) m'"
      using IH recvBitVotes(3) by (intro Run_bitVotes_keeps [OF L ok' _ _ recvBitVotes(5)]) simp_all
    then show ?thesis using IH recvBitVotes(1-3) by (simp add: keeps_ledger_def)
  next
    case (recvRequests b rest m')
    have "logs_within parse C W b" using step.prems(1) recvRequests(1) by (auto simp: logs_within_def)
    then have "in_window W P m' \<and> (\<forall>k\<in>W. ledger L m' k = fold (log_add parse K C k) b (ledger L (pp_manager s) k))"
      using IH recvRequests(3) by (intro Run_requests_ledger [OF L ok' _ _ recvRequests(5)]) (auto simp: logs_within_def)
    then show ?thesis using IH recvRequests(1-3) by simp
  next
    case (handle m')
    have "in_window W (?P s) (pp_manager s)" using IH by blast
    then have "keeps_ledger L W (?P s) (pp_manager s) m'" by (rule handler_step_keeps [OF handle(3) ok'])
    then show ?thesis using IH handle(1,2) by (simp add: keeps_ledger_def)
  qed (use IH in \<open>simp_all add: in_window_def\<close>)
qed

section \<open>Properties\<close>



text \<open>The library instance has room for all rounds, and its policy always applies.\<close>

lemma sample_window: "window_ok sample_lib UNIV (\<lambda>p. p \<noteq> None)"
  by (simp add: window_ok_def sample_lib_def)

lemma sample_policies_start: "policies_start sample_lib (\<lambda>p. p \<noteq> None) empty_manager ds"
proof -
  have "m_policies m1 \<noteq> None \<Longrightarrow> Run_initialPolicies sample_lib m1 d = Some m2 \<Longrightarrow> m_policies m2 \<noteq> None" for d m1 m2
  proof (induction d arbitrary: m1)
    case (Cons v d)
    obtain m' where m': "OnSigningPolicy sample_lib m1 v = (m', None)" "Run_initialPolicies sample_lib m' d = Some m2"
      using Cons.prems(2) by (auto split: prod.splits option.splits)
    then have "m_policies m' \<noteq> None" by (auto simp: OnSigningPolicy_def Let_def sample_lib_def split: option.splits)
    then show ?case by (rule Cons.IH [OF _ m'(2)])
  qed simp
  moreover have "m_policies empty_manager \<noteq> None" by (simp add: empty_manager_def Manager_New_def)
  ultimately show ?thesis unfolding policies_start_def by metis
qed

lemma within_UNIV [simp]: "logs_within parse C UNIV logs" "votes_within UNIV vs"
  by (simp_all add: logs_within_def votes_within_def)

lemma sample_log_3:
  "fold (log_add (\<lambda>log. Some ([5], 20)) id Chain_default 3) [sample_log] (ledger sample_lib empty_manager 3) =
     [[5] \<mapsto> (20, {#\<lparr>il_BlockNumber = 7, il_LogIndex = 1\<rparr>#})]"
proof -
  have "RoundIDForTS Chain_default (log_Timestamp sample_log) = Inr 3" by code_simp
  then show ?thesis by (simp add: log_add_def spec_add_def ledger_def sample_lib_def empty_manager_def Manager_New_def)
qed

lemma sample_run_received:
  obtains es' s' where "sample_collector_run ([Internal, GotVoters [sample_voters_data]] @ es') s'"
    "concat (got_requests ([Internal, GotVoters [sample_voters_data]] @ es')) = [sample_log]"
proof -
  let ?s = "(collector_started empty_manager sample_data)\<lparr>pp_started := True, pp_collector := sample_data\<lparr>dp_Voters := []\<rparr>\<rparr>"
  have free: "unlocked (pp_manager ?s)" by (simp add: unlocked_def empty_manager_def Manager_New_def)
  have started: "pp_started ?s" by simp
  have concat_Nil: "concat (map (\<lambda>b. []) xs) = []" for xs :: "nat list" by (induction xs) simp_all
  from every_log_is_received [OF sample_Collector_Run sample_database_ok sample_lib_cyclic empty_manager_ok
      sample_collector_run_start started free] that
  show thesis by (simp only: concat_Nil append_Nil2) blast
qed



end
