(* ===== verification/Agreement.thy ===== *)
theory Agreement
  imports Ledger
begin

text \<open>
  Two providers. Each has its own objects, queues and verifiers, has collected the requests of a round in its own
  order and has resolved them in its own time. Nothing here is code; the theorems relate two runs of the code
  of \<open>Round\<close> and \<open>Manager\<close>.

  Shown here: the ledger does not depend on the order of the logs, and with different positions of the logs no
  log is in two requests; two providers whose rounds have the same ledger and the same voters, and that receive the same
  list of bit votes, compute the same consensus bit vote and choose the same requests in the same order; and if the
  verifiers have given them the same response for every chosen request, they build the same Merkle tree.
\<close>

section \<open>The canonical list of the requests of a round\<close>

text \<open>The requests of a round in the order of the code's sort, with their fees and first positions.\<close>

definition entries :: "(bytes \<Rightarrow> bytes) \<Rightarrow> 'arg heap \<Rightarrow> Round \<Rightarrow> (bytes \<times> int \<times> IndexLog) list" where
  "entries K h r = map (\<lambda>a. (K (at_Request (h_atts h a)), at_Fee (h_atts h a), index_of (h_atts h a)))
     (r_Attestations (sortAttestations h r))"

text \<open>No log is in two requests.\<close>

definition separate :: "request_map \<Rightarrow> bool" where
  "separate led \<longleftrightarrow>
     (\<forall>x y f g is js i. led x = Some (f, is) \<longrightarrow> led y = Some (g, js) \<longrightarrow> i \<in># is \<longrightarrow> i \<in># js \<longrightarrow> x = y)"

text \<open>The requests that the consensus has chosen, in the order of the round.\<close>

definition chosen :: "(bytes \<Rightarrow> bytes) \<Rightarrow> 'arg heap \<Rightarrow> Round \<Rightarrow> bytes list" where
  "chosen K h r = map (\<lambda>a. K (at_Request (h_atts h a))) (filter (\<lambda>a. at_Consensus (h_atts h a)) (r_Attestations r))"

lemma sorted_wrt_unique:
  assumes R: "\<And>x y. R x y \<Longrightarrow> \<not> R y x"
  shows "sorted_wrt R xs \<Longrightarrow> sorted_wrt R ys \<Longrightarrow> set xs = set ys \<Longrightarrow> xs = ys"
proof (induction xs arbitrary: ys)
  case (Cons x xs)
  then obtain y ys' where ys: "ys = y # ys'" by (cases ys) auto
  have irrefl: "\<not> R z z" for z using R by blast
  have "x = y"
  proof (rule ccontr)
    assume ne: "x \<noteq> y"
    have "x \<in> set (y # ys')" "y \<in> set (x # xs)" using Cons.prems(3) ys by auto
    with ne have "R y x" "R x y" using Cons.prems(1,2) ys by auto
    with R show False by blast
  qed
  moreover have "set xs = set ys'"
    using Cons.prems ys irrefl \<open>x = y\<close> by (metis insert_eq_iff list.simps(15) sorted_wrt.simps(2))
  ultimately show ?case using Cons.IH [of ys'] Cons.prems(1,2) ys by simp
qed simp

lemma sorted_wrt_distinct:
  "(\<And>a b. a \<in> set xs \<Longrightarrow> b \<in> set xs \<Longrightarrow> a \<noteq> b \<Longrightarrow> P a b \<Longrightarrow> Q a b) \<Longrightarrow> sorted_wrt P xs \<Longrightarrow> distinct xs \<Longrightarrow> sorted_wrt Q xs"
proof (induction xs)
  case (Cons x xs)
  have "Q x y" if "y \<in> set xs" for y using Cons.prems(1) [of x y] Cons.prems(2,3) that by auto
  moreover have "sorted_wrt Q xs" by (rule Cons.IH) (use Cons.prems in auto)
  ultimately show ?case by simp
qed simp

lemma first_position:
  assumes "earliest_first is"
  shows "i = hd is \<longleftrightarrow> i \<in># mset is \<and> (\<forall>j\<in>#mset is. \<not> EarlierLog j i)"
proof
  assume "i = hd is"
  then show "i \<in># mset is \<and> (\<forall>j\<in>#mset is. \<not> EarlierLog j i)" using assms by (auto simp: earliest_first_def)
next
  assume i: "i \<in># mset is \<and> (\<forall>j\<in>#mset is. \<not> EarlierLog j i)"
  then have "\<not> EarlierLog i (hd is)" "\<not> EarlierLog (hd is) i" using assms by (auto simp: earliest_first_def)
  with EarlierLog_total [of i "hd is"] show "i = hd is" by blast
qed

lemma entry_iff:
  assumes ok: "round_atts_ok K h r"
  shows "(x, f, i) \<in> set (entries K h r) \<longleftrightarrow>
    (\<exists>is. round_abs h r x = Some (f, is) \<and> i \<in># is \<and> (\<forall>j\<in>#is. \<not> EarlierLog j i))"
proof -
  have pos: "i = index_of (h_atts h a) \<longleftrightarrow> i \<in># mset (at_Indexes (h_atts h a)) \<and> (\<forall>j\<in>#mset (at_Indexes (h_atts h a)). \<not> EarlierLog j i)"
    if "a \<in> set (r_Attestations r)" for a
  proof -
    have "earliest_first (at_Indexes (h_atts h a))" using ok that by (simp add: round_atts_ok_def)
    moreover from this have "index_of (h_atts h a) = hd (at_Indexes (h_atts h a))" by (intro index_of_hd) (simp add: earliest_first_def)
    ultimately show ?thesis using first_position [of "at_Indexes (h_atts h a)" i] by simp
  qed
  have "(x, f, i) \<in> set (entries K h r) \<longleftrightarrow>
      (\<exists>a. r_attestationMap r x = Some a \<and> f = at_Fee (h_atts h a) \<and> i = index_of (h_atts h a))"
    using round_map_iff [OF ok] by (auto simp: entries_def image_iff)
  also have "\<dots> \<longleftrightarrow> (\<exists>a. r_attestationMap r x = Some a \<and> f = at_Fee (h_atts h a) \<and>
      i \<in># mset (at_Indexes (h_atts h a)) \<and> (\<forall>j\<in>#mset (at_Indexes (h_atts h a)). \<not> EarlierLog j i))"
    using pos round_map_iff [OF ok] by blast
  also have "\<dots> \<longleftrightarrow> (\<exists>is. round_abs h r x = Some (f, is) \<and> i \<in># is \<and> (\<forall>j\<in>#is. \<not> EarlierLog j i))"
    by (auto simp: round_abs_def)
  finally show ?thesis .
qed

lemma entries_sorted:
  assumes ok: "round_atts_ok K h r" and sep: "separate (round_abs h r)"
  shows "sorted_wrt (\<lambda>(x, f, i) (y, g, j). EarlierLog i j) (entries K h r)"
proof -
  let ?s = "r_Attestations (sortAttestations h r)"
  have "EarlierLog (index_of (h_atts h a)) (index_of (h_atts h b))"
    if ab: "a \<in> set ?s" "b \<in> set ?s" "a \<noteq> b" "\<not> EarlierLog (index_of (h_atts h b)) (index_of (h_atts h a))" for a b
  proof (rule ccontr)
    assume "\<not> ?thesis"
    with ab(4) EarlierLog_total have eq: "index_of (h_atts h a) = index_of (h_atts h b)" by blast
    have map: "r_attestationMap r (K (at_Request (h_atts h c))) = Some c" if "c \<in> set ?s" for c
      using round_map_iff [OF ok] that by simp
    have mem: "index_of (h_atts h c) \<in># mset (at_Indexes (h_atts h c))" if "c \<in> set ?s" for c
    proof -
      have "at_Indexes (h_atts h c) \<noteq> []" using ok that by (simp add: round_atts_ok_def earliest_first_def)
      then show ?thesis by (simp add: index_of_hd)
    qed
    have abs: "round_abs h r (K (at_Request (h_atts h c))) = Some (at_Fee (h_atts h c), mset (at_Indexes (h_atts h c)))" if "c \<in> set ?s" for c
      using map [OF that] by (simp add: round_abs_def)
    have "K (at_Request (h_atts h a)) = K (at_Request (h_atts h b))"
      using sep [unfolded separate_def, rule_format, OF abs [OF ab(1)] abs [OF ab(2)] mem [OF ab(1)]] mem [OF ab(2)] eq by simp
    with map [OF ab(1)] map [OF ab(2)] ab(3) show False by simp
  qed
  moreover have "sorted_wrt (\<lambda>a b. \<not> EarlierLog (index_of (h_atts h b)) (index_of (h_atts h a))) ?s" by (rule sortAttestations_sorted)
  moreover have "distinct ?s" using ok by (simp add: round_atts_ok_def)
  ultimately have "sorted_wrt (\<lambda>a b. EarlierLog (index_of (h_atts h a)) (index_of (h_atts h b))) ?s"
    by (rule sorted_wrt_distinct)
  then show ?thesis by (simp add: entries_def sorted_wrt_map)
qed

lemma entries_agree:
  assumes "round_atts_ok K h1 r1" "round_atts_ok K h2 r2" "round_abs h1 r1 = round_abs h2 r2" "separate (round_abs h1 r1)"
  shows "entries K h1 r1 = entries K h2 r2"
proof (rule sorted_wrt_unique)
  show "sorted_wrt (\<lambda>(x, f, i) (y, g, j). EarlierLog i j) (entries K h1 r1)" by (rule entries_sorted [OF assms(1,4)])
  show "sorted_wrt (\<lambda>(x, f, i) (y, g, j). EarlierLog i j) (entries K h2 r2)" using assms by (intro entries_sorted) simp_all
  show "set (entries K h1 r1) = set (entries K h2 r2)"
    using entry_iff [OF assms(1)] entry_iff [OF assms(2)] assms(3) by auto
qed (auto simp: EarlierLog_def split: if_splits)

section \<open>The same logs\<close>

lemma log_add_commute: "log_add parse K C k l (log_add parse K C k l' led) = log_add parse K C k l' (log_add parse K C k l led)"
  by (auto simp: log_add_def spec_add_commute split: option.splits)

text \<open>The ledger does not depend on the order of the logs.\<close>

lemma ledger_any_order:
  assumes "mset logs = mset logs'"
  shows "fold (log_add parse K C k) logs led = fold (log_add parse K C k) logs' led"
proof -
  have "fold (log_add parse K C k) logs = fold (log_add parse K C k) logs'"
    by (rule fold_multiset_equiv [OF _ assms]) (simp add: fun_eq_iff log_add_commute)
  then show ?thesis by simp
qed

definition log_position :: "'m dbLog_scheme \<Rightarrow> IndexLog" where
  "log_position log = \<lparr>il_BlockNumber = log_BlockNumber log, il_LogIndex = log_LogIndex log\<rparr>"

lemma ledger_positions:
  "fold (log_add parse K C k) logs led x = Some (f, is) \<Longrightarrow> i \<in># is \<Longrightarrow>
   (\<exists>log\<in>set logs. \<exists>data fee. parse log = Some (data, fee) \<and> K data = x \<and> log_position log = i) \<or>
   (\<exists>g js. led x = Some (g, js) \<and> i \<in># js)"
proof (induction logs arbitrary: led)
  case (Cons log logs)
  from Cons.IH [OF Cons.prems(1) [unfolded fold_Cons comp_def] Cons.prems(2)]
  consider (later) "\<exists>log\<in>set logs. \<exists>data fee. parse log = Some (data, fee) \<and> K data = x \<and> log_position log = i"
    | (now) g js where "log_add parse K C k log led x = Some (g, js)" "i \<in># js" by blast
  then show ?case
  proof cases
    case now
    then show ?thesis
      by (auto simp: log_add_def spec_add_def log_position_def split: option.splits if_splits prod.splits)
  qed auto
qed simp

lemma separate_logs:
  assumes "\<And>l l'. l \<in> set logs \<Longrightarrow> l' \<in> set logs \<Longrightarrow> log_position l = log_position l' \<Longrightarrow> l = l'"
  shows "separate (fold (log_add parse K C k) logs Map.empty)"
proof -
  have "x = y" if x: "fold (log_add parse K C k) logs Map.empty x = Some (f, is)" "i \<in># is"
    and y: "fold (log_add parse K C k) logs Map.empty y = Some (g, js)" "i \<in># js" for x y f g "is" js i
  proof -
    obtain l d fee where l: "l \<in> set logs" "parse l = Some (d, fee)" "K d = x" "log_position l = i"
      using ledger_positions [OF x] by auto
    obtain l' d' fee' where l': "l' \<in> set logs" "parse l' = Some (d', fee')" "K d' = y" "log_position l' = i"
      using ledger_positions [OF y] by auto
    have "l = l'" by (rule assms [OF l(1) l'(1)]) (simp add: l(4) l'(4))
    with l l' show "x = y" by simp
  qed
  then show ?thesis by (auto simp: separate_def)
qed

section \<open>The same bit votes\<close>

text \<open>What the bit votes of a round depend on.\<close>

definition same_votes :: "Round \<Rightarrow> Round \<Rightarrow> bool" where
  "same_votes r r' \<longleftrightarrow> r_bitVotes r' = r_bitVotes r \<and> r_bitVoteCheckList r' = r_bitVoteCheckList r \<and> r_voterSet r' = r_voterSet r \<and>
     length (r_Attestations r') = length (r_Attestations r)"

lemma ProcessBitVote_same_votes: "same_votes r r' \<Longrightarrow> same_votes (fst (ProcessBitVote r m)) (fst (ProcessBitVote r' m))"
  by (auto simp: same_votes_def ProcessBitVote_vote_of vote_of_def store_vote_def Let_def split: sum.splits option.splits)

lemma ProcessBitVotes_same_votes: "same_votes r r' \<Longrightarrow> same_votes (ProcessBitVotes r ms) (ProcessBitVotes r' ms)"
  unfolding ProcessBitVotes_def by (induction ms arbitrary: r r') (auto intro: ProcessBitVote_same_votes)

lemma ProcessBitVotes_rest:
  "r_attestationMap (ProcessBitVotes r ms) = r_attestationMap r" "r_Status (ProcessBitVotes r ms) = r_Status r"
  "r_ConsensusBitVote (ProcessBitVotes r ms) = r_ConsensusBitVote r" "r_ID (ProcessBitVotes r ms) = r_ID r"
proof -
  have "r_ConsensusBitVote (fst (ProcessBitVote r m)) = r_ConsensusBitVote r" for r m
    by (auto simp: ProcessBitVote_vote_of store_vote_def split: sum.splits option.splits)
  then show "r_attestationMap (ProcessBitVotes r ms) = r_attestationMap r" "r_Status (ProcessBitVotes r ms) = r_Status r"
    "r_ConsensusBitVote (ProcessBitVotes r ms) = r_ConsensusBitVote r" "r_ID (ProcessBitVotes r ms) = r_ID r"
    unfolding ProcessBitVotes_def by (induction ms arbitrary: r) (simp_all add: frame)
qed

lemma sortAttestations_ProcessBitVotes: "r_Attestations (sortAttestations h (ProcessBitVotes r ms)) = r_Attestations (sortAttestations h r)"
  by (simp add: sortAttestations_def frame)

text \<open>The messages that \<^verbatim>\<open>OnBitVote\<close> does not reject for their time.\<close>

abbreviation (input) in_time :: "Timing \<Rightarrow> u32 \<Rightarrow> Message \<Rightarrow> bool" where
  "in_time C k msg \<equiv> \<not> msg_Timestamp msg < ChooseStartTS C k \<and> \<not> ChooseEndTS C k \<le> msg_Timestamp msg"

lemma OnBitVotes_round:
  assumes "cy_Get L (m_Rounds m) k = Some ra" "m_round m ra = Some r" "\<forall>msg\<in>set ms. msg_VotingRound msg = k"
  shows "foldl (\<lambda>m msg. fst (OnBitVote L C m msg)) m ms = m\<lparr>m_round := (m_round m)(ra \<mapsto> ProcessBitVotes r (filter (in_time C k) ms))\<rparr>"
  using assms
proof (induction ms arbitrary: m r)
  case Nil
  then show ?case by (simp add: ProcessBitVotes_def fun_upd_idem)
next
  case (Cons msg ms)
  obtain r1 where step: "fst (OnBitVote L C m msg) = m\<lparr>m_round := (m_round m)(ra \<mapsto> r1)\<rparr>"
    and r1: "ProcessBitVotes r1 (filter (in_time C k) ms) = ProcessBitVotes r (filter (in_time C k) (msg # ms))"
  proof
    let ?r = "if in_time C k msg then fst (ProcessBitVote r msg) else r"
    show "fst (OnBitVote L C m msg) = m\<lparr>m_round := (m_round m)(ra \<mapsto> ?r)\<rparr>"
      using Cons.prems by (auto simp: OnBitVote_def GetOrCreateRound_def case_prod_beta Let_def fun_upd_idem split: option.splits)
    show "ProcessBitVotes ?r (filter (in_time C k) ms) = ProcessBitVotes r (filter (in_time C k) (msg # ms))"
      by (simp add: ProcessBitVotes_def)
  qed
  have "foldl (\<lambda>m msg. fst (OnBitVote L C m msg)) (m\<lparr>m_round := (m_round m)(ra \<mapsto> r1)\<rparr>) ms =
      m\<lparr>m_round := (m_round m)(ra \<mapsto> ProcessBitVotes r1 (filter (in_time C k) ms))\<rparr>"
    using Cons.IH [of "m\<lparr>m_round := (m_round m)(ra \<mapsto> r1)\<rparr>" r1] Cons.prems
    by (simp add: fun_upd_def cong: if_cong)
  then show ?case by (simp only: foldl_Cons step r1)
qed

section \<open>The same consensus\<close>

text \<open>The requests that a computed consensus chooses are those at the positions of its bits.\<close>

lemma chosen_loop:
  assumes "distinct as"
  shows "map (\<lambda>a. K (at_Request (setConsensus_loop bv 0 as atts a)))
      (filter (\<lambda>a. at_Consensus (setConsensus_loop bv 0 as atts a)) as) =
    map (\<lambda>i. K (at_Request (atts (as ! i)))) (filter (bit bv) [0..<length as])"
proof -
  let ?g = "setConsensus_loop bv 0 as atts"
  have nth: "?g (as ! i) = (atts (as ! i))\<lparr>at_Consensus := bit bv i\<rparr>" if "i < length as" for i
    using setConsensus_loop_nth [OF assms that, of bv 0 atts] by simp
  have "map (\<lambda>a. K (at_Request (?g a))) (filter (\<lambda>a. at_Consensus (?g a)) (map (\<lambda>i. as ! i) [0..<length as])) =
      map (\<lambda>i. K (at_Request (?g (as ! i)))) (filter (\<lambda>i. at_Consensus (?g (as ! i))) [0..<length as])"
    by (simp add: filter_map comp_def)
  also have "\<dots> = map (\<lambda>i. K (at_Request (atts (as ! i)))) (filter (bit bv) [0..<length as])"
    by (intro map_cong filter_cong refl) (auto simp: nth)
  finally show ?thesis by (simp add: map_nth)
qed

text \<open>The consensus and the chosen requests are a function of the entries, the votes and the voters.\<close>

definition consensus_of :: "(bytes \<times> int \<times> IndexLog) list \<Rightarrow> WeightedBitVote list \<Rightarrow> u16 \<Rightarrow> BitVote option" where
  "consensus_of es vs totalWeight =
     (case EnsembleConsensusBitVote vs (map (fst \<circ> snd) es) totalWeight BitVoteMaxNoOfOperations of Inl e \<Rightarrow> None | Inr b \<Rightarrow> Some b)"

definition chosen_of :: "(bytes \<times> int \<times> IndexLog) list \<Rightarrow> BitVote option \<Rightarrow> bytes list" where
  "chosen_of es b =
     (case b of None \<Rightarrow> []
      | Some b \<Rightarrow> if length es < big_BitLen (bv_BitVector b) then []
                  else map (\<lambda>i. fst (es ! i)) (filter (bit (bv_BitVector b)) [0..<length es]))"

lemma ComputeConsensus_entries:
  assumes res: "ComputeConsensusBitVote h r = Some (h', r', err)" and r: "distinct (r_Attestations r)" "r_ConsensusBitVote r = None"
    and none: "\<forall>a\<in>set (r_Attestations r). \<not> at_Consensus (h_atts h a)"
  shows "r_ConsensusBitVote r' = consensus_of (entries K h r) (r_bitVotes r) (vs_TotalWeight (r_voterSet r)) \<and>
    chosen K h' r' = chosen_of (entries K h r) (r_ConsensusBitVote r')"
proof -
  define s where "s = sortAttestations h r"
  have s: "r_bitVotes s = r_bitVotes r" "r_voterSet s = r_voterSet r" "r_ConsensusBitVote s = None"
      "set (r_Attestations s) = set (r_Attestations r)" "distinct (r_Attestations s)"
    using r by (simp_all add: s_def) (simp add: sortAttestations_def)
  have fees: "map (\<lambda>a. at_Fee (h_atts h a)) (r_Attestations s) = map (fst \<circ> snd) (entries K h r)"
    by (simp add: entries_def s_def)
  have len: "length (entries K h r) = length (r_Attestations s)" by (simp add: entries_def s_def)
  have key: "K (at_Request (h_atts h (r_Attestations s ! i))) = fst (entries K h r ! i)" if "i < length (r_Attestations s)" for i
    using that by (simp add: entries_def s_def)
  have d: "(case EnsembleConsensusBitVote (r_bitVotes r) (map (fst \<circ> snd) (entries K h r)) (vs_TotalWeight (r_voterSet r)) BitVoteMaxNoOfOperations of
      Inl e \<Rightarrow> (h, s\<lparr>r_ConsensusCalculationFinished := True\<rparr>, Some (ConsensusFailed e))
    | Inr b \<Rightarrow>
        let r = s\<lparr>r_ConsensusBitVote := Some b\<rparr>; h = h\<lparr>h_status := (h_status h)(r_Status r := Consensus)\<rparr>; (h, err) = setConsensusStatus h r b
        in (h, r\<lparr>r_ConsensusCalculationFinished := True\<rparr>, err)) = (h', r', err)"
    using res unfolding ComputeConsensusBitVote_def s_def [symmetric] Let_def fees s(1,2)
    by (simp add: with_Lock_def split: if_splits)
  show ?thesis
  proof (cases "EnsembleConsensusBitVote (r_bitVotes r) (map (fst \<circ> snd) (entries K h r)) (vs_TotalWeight (r_voterSet r)) BitVoteMaxNoOfOperations")
    case (Inl e)
    then have "h' = h" "r' = s\<lparr>r_ConsensusCalculationFinished := True\<rparr>" using d by simp_all
    then show ?thesis using Inl s none by (simp add: consensus_of_def chosen_of_def chosen_def)
  next
    case (Inr b)
    let ?h = "h\<lparr>h_status := (h_status h)(r_Status s := Consensus)\<rparr>"
    have r': "r' = s\<lparr>r_ConsensusBitVote := Some b, r_ConsensusCalculationFinished := True\<rparr>"
      and h': "h' = fst (setConsensusStatus ?h (s\<lparr>r_ConsensusBitVote := Some b\<rparr>) b)"
      using d Inr by (auto simp: Let_def split: prod.splits)
    have "chosen K h' r' = chosen_of (entries K h r) (Some b)"
    proof (cases "length (r_Attestations s) < big_BitLen (bv_BitVector b)")
      case True
      then show ?thesis using none s(4) by (simp add: h' r' setConsensusStatus_def chosen_def chosen_of_def len)
    next
      case False
      then have atts: "h_atts h' = setConsensus_loop (bv_BitVector b) 0 (r_Attestations s) (h_atts h)"
        by (simp add: h' setConsensusStatus_def)
      have "chosen K h' r' = map (\<lambda>i. K (at_Request (h_atts h (r_Attestations s ! i)))) (filter (bit (bv_BitVector b)) [0..<length (r_Attestations s)])"
        unfolding chosen_def atts using chosen_loop [OF s(5)] by (simp add: r')
      also have "\<dots> = map (\<lambda>i. fst (entries K h r ! i)) (filter (bit (bv_BitVector b)) [0..<length (r_Attestations s)])"
        by (rule map_cong [OF refl]) (simp add: key)
      finally show ?thesis using False by (simp add: chosen_of_def len)
    qed
    then show ?thesis using Inr by (simp add: r' consensus_of_def)
  qed
qed

section \<open>Two managers\<close>

lemma Run_bitVotes_consensus:
  assumes get: "cy_Get L (m_Rounds m) k = Some ra" "m_round m ra = Some r" and ms: "\<forall>msg\<in>set ms. msg_VotingRound msg = k"
    and res: "Run_bitVotes L C m k ms = Some m'"
  obtains r' err where "ComputeConsensusBitVote (m_heap m) (ProcessBitVotes r (filter (in_time C k) ms)) = Some (m_heap m', r', err)"
    "m_round m' ra = Some r'" "cy_Get L (m_Rounds m') k = Some ra"
proof -
  note votes = OnBitVotes_round [OF get ms, of C]
  obtain h r' err where c: "ComputeConsensusBitVote (m_heap m) (ProcessBitVotes r (filter (in_time C k) ms)) = Some (h, r', err)"
    and m': "m' = (let m = m\<lparr>m_heap := h, m_round := (m_round m)(ra \<mapsto> r')\<rparr> in if err = None then fst (retryUnsuccessfulChosen L m r') else m)"
    using res get(1) unfolding Run_bitVotes_def Let_def votes by (auto split: option.splits)
  have "m_heap m' = h" "m_round m' ra = Some r'" "m_Rounds m' = m_Rounds m"
    by (simp_all add: m' retryUnsuccessfulChosen_def case_prod_beta Let_def)
  with c get(1) that show thesis by simp
qed

text \<open>A round before its bit votes come in.\<close>

definition collecting :: "'arg heap \<Rightarrow> Round \<Rightarrow> bool" where
  "collecting h r \<longleftrightarrow> r_bitVotes r = [] \<and> r_bitVoteCheckList r = Map.empty \<and> r_ConsensusBitVote r = None \<and>
     (\<forall>a\<in>set (r_Attestations r). \<not> at_Consensus (h_atts h a))"

lemma collecting_consensus:
  assumes ok: "manager_ok L K m" and get: "cy_Get L (m_Rounds m) k = Some ra" "m_round m ra = Some r"
    and r: "collecting (m_heap m) r" and ms: "\<forall>msg\<in>set ms. msg_VotingRound msg = k" and res: "Run_bitVotes L C m k ms = Some m'"
  shows "\<exists>r'. m_round m' ra = Some r' \<and>
    r_ConsensusBitVote r' = consensus_of (entries K (m_heap m) r) (r_bitVotes (ProcessBitVotes r (filter (in_time C k) ms)))
      (vs_TotalWeight (r_voterSet r)) \<and>
    chosen K (m_heap m') r' = chosen_of (entries K (m_heap m) r) (r_ConsensusBitVote r')"
proof -
  let ?r = "ProcessBitVotes r (filter (in_time C k) ms)"
  have ok_r: "round_atts_ok K (m_heap m) r" using manager_okD(1) [OF ok get(2)] by (simp add: round_in_manager_def)
  obtain r' err where c: "ComputeConsensusBitVote (m_heap m) ?r = Some (m_heap m', r', err)" and r': "m_round m' ra = Some r'"
    by (rule Run_bitVotes_consensus [OF get ms res])
  have "entries K (m_heap m) ?r = entries K (m_heap m) r" by (simp add: entries_def sortAttestations_ProcessBitVotes)
  with ComputeConsensus_entries [OF c, of K] r ok_r r' show ?thesis
    by (simp add: frame ProcessBitVotes_rest collecting_def round_atts_ok_def)
qed

lemma ledger_round:
  "cy_Get L (m_Rounds m) k = Some ra \<Longrightarrow> m_round m ra = Some r \<Longrightarrow> ledger L m k = round_abs (m_heap m) r"
  by (simp add: ledger_def)

text \<open>
  Providers agree: take two providers whose rounds hold the same ledger, with no log in two requests, and have
  the same voters. However each of them has collected the requests, and whatever its verifiers have answered so
  far, after the same list of bit votes both have computed the same consensus bit vote, or none, and have chosen
  the same requests in the same order.
\<close>

lemma providers_agree:
  assumes ok: "manager_ok L1 K m1" "manager_ok L2 K m2"
    and r1: "cy_Get L1 (m_Rounds m1) k = Some ra1" "m_round m1 ra1 = Some r1" "collecting (m_heap m1) r1"
    and r2: "cy_Get L2 (m_Rounds m2) k = Some ra2" "m_round m2 ra2 = Some r2" "collecting (m_heap m2) r2"
    and same: "ledger L1 m1 k = ledger L2 m2 k" "separate (ledger L1 m1 k)" "r_voterSet r1 = r_voterSet r2"
    and ms: "\<forall>msg\<in>set ms. msg_VotingRound msg = k"
    and res: "Run_bitVotes L1 C m1 k ms = Some m1'" "Run_bitVotes L2 C m2 k ms = Some m2'"
  shows "\<exists>r1' r2'. m_round m1' ra1 = Some r1' \<and> m_round m2' ra2 = Some r2' \<and>
    r_ConsensusBitVote r1' = r_ConsensusBitVote r2' \<and> chosen K (m_heap m1') r1' = chosen K (m_heap m2') r2'"
proof -
  have atts: "round_atts_ok K (m_heap m1) r1" "round_atts_ok K (m_heap m2) r2"
    using manager_okD(1) [OF ok(1) r1(2)] manager_okD(1) [OF ok(2) r2(2)] by (simp_all add: round_in_manager_def)
  have e: "entries K (m_heap m1) r1 = entries K (m_heap m2) r2"
    by (rule entries_agree [OF atts]) (use same(1,2) in \<open>simp_all add: ledger_round [OF r1(1,2)] ledger_round [OF r2(1,2)]\<close>)
  then have "length (r_Attestations r1) = length (r_Attestations r2)" by (auto simp: entries_def dest: map_eq_imp_length_eq)
  then have "same_votes r1 r2" using r1(3) r2(3) same(3) by (simp add: same_votes_def collecting_def)
  from ProcessBitVotes_same_votes [OF this, of "filter (in_time C k) ms"]
  have votes: "r_bitVotes (ProcessBitVotes r1 (filter (in_time C k) ms)) = r_bitVotes (ProcessBitVotes r2 (filter (in_time C k) ms))"
    by (simp add: same_votes_def)
  show ?thesis
    using collecting_consensus [OF ok(1) r1 ms res(1)] collecting_consensus [OF ok(2) r2 ms res(2)] e votes same(3) by auto
qed

section \<open>Properties\<close>

text \<open>
  C7. Providers sign the same root: two rounds with the same chosen requests, all of them confirmed, and with equal
  hashes for equal requests, have the same Merkle tree, namely the one over the hashes in the order of the chosen
  requests.
\<close>

theorem roots_agree:
  assumes same: "chosen K h1 r1 = chosen K h2 r2" and locks: "r_readLocks r1 = 0" "r_readLocks r2 = 0"
    and confirmed: "\<And>a. a \<in> set (r_Attestations r1) \<Longrightarrow> at_Consensus (h_atts h1 a) \<Longrightarrow>
        at_Status (h_atts h1 a) = Success \<and> at_Hash (h_atts h1 a) = response_hash (K (at_Request (h_atts h1 a)))"
      "\<And>a. a \<in> set (r_Attestations r2) \<Longrightarrow> at_Consensus (h_atts h2 a) \<Longrightarrow>
        at_Status (h_atts h2 a) = Success \<and> at_Hash (h_atts h2 a) = response_hash (K (at_Request (h_atts h2 a)))"
  shows "\<exists>h1' r1' h2' r2'. MerkleTree Build h1 r1 = Some (h1', r1', Inr (Build (map response_hash (chosen K h1 r1)))) \<and>
    MerkleTree Build h2 r2 = Some (h2', r2', Inr (Build (map response_hash (chosen K h1 r1))))"
proof -
  have tree: "\<exists>h' r'. MerkleTree Build h r = Some (h', r', Inr (Build (map response_hash (chosen K h r))))"
    if lock: "r_readLocks r = 0" and conf: "\<And>a. a \<in> set (r_Attestations r) \<Longrightarrow> at_Consensus (h_atts h a) \<Longrightarrow>
        at_Status (h_atts h a) = Success \<and> at_Hash (h_atts h a) = response_hash (K (at_Request (h_atts h a)))"
    for h :: "'x heap" and r
  proof -
    have "map at_Hash (filter at_Consensus (map (h_atts h) (r_Attestations r))) = map response_hash (chosen K h r)"
      using conf by (auto simp: chosen_def filter_map comp_def)
    moreover have "\<forall>a\<in>set (map (h_atts h) (r_Attestations r)). at_Consensus a \<longrightarrow> at_Status a = Success" using conf by auto
    ultimately show ?thesis using merkle_tree_of_chosen [OF lock, of h Build] by (simp add: Let_def)
  qed
  from tree [OF locks(1) confirmed(1)] tree [OF locks(2) confirmed(2)] show ?thesis unfolding same by blast
qed

text \<open>A bit vote for the second of two requests.\<close>

definition pair_votes :: "Message list" where
  "pair_votes = [\<lparr>msg_From = [1], msg_VotingRound = 3, msg_Timestamp = 1658430320, msg_BlockNumber = 7,
     msg_TransactionIndex = 0, msg_Payload = [0, 2, 2]\<rparr>]"

theorem roots_agree_witness:
  "\<exists>h1' r1' h2' r2'.
     MerkleTree (\<lambda>hs. hs) (sample_heap\<lparr>h_atts := (\<lambda>n. (h_atts sample_heap n)\<lparr>at_Consensus := n = 4, at_Status := Success\<rparr>)\<rparr>)
       (sample_round\<lparr>r_Attestations := [4, 1]\<rparr>) = Some (h1', r1', Inr [[4]]) \<and>
     MerkleTree (\<lambda>hs. hs) (sample_heap\<lparr>h_atts := (\<lambda>n. (h_atts sample_heap n)\<lparr>at_Consensus := n = 4, at_Status := Success\<rparr>)\<rparr>)
       (sample_round\<lparr>r_Attestations := [1, 4]\<rparr>) = Some (h2', r2', Inr [[4]])"
proof -
  let ?h = "sample_heap\<lparr>h_atts := (\<lambda>n. (h_atts sample_heap n)\<lparr>at_Consensus := n = 4, at_Status := Success\<rparr>)\<rparr>"
  have same: "chosen id ?h (sample_round\<lparr>r_Attestations := [4, 1]\<rparr>) = chosen id ?h (sample_round\<lparr>r_Attestations := [1, 4]\<rparr>)"
    by (simp add: chosen_def sample_heap_def)
  have "map (\<lambda>x. [4 :: u8]) (chosen id ?h (sample_round\<lparr>r_Attestations := [4, 1]\<rparr>)) = [[4]]" by (simp add: chosen_def sample_heap_def)
  with roots_agree [OF same, of "\<lambda>x. [4]" "\<lambda>hs. hs"] show ?thesis by (simp add: sample_heap_def)
qed

end
