(* ===== verification/Providers.thy ===== *)
theory Providers
  imports Agreement
begin

text \<open>
  Two whole runs. Each provider has its own collector, channels, workers, verifiers and REST queries, and receives
  the request logs of a round in its own order and its own batches; nothing here is code.

  Shown here: until the bit votes of a round come in, no run touches its votes, its consensus and the flags of
  its attestations, and its voters are those of the policy; so, after both providers have received the same
  logs of the round and then the same list of bit votes, they have the same consensus and have chosen the same
  requests, whatever else has happened in either run.
\<close>

section \<open>Rounds whose bit votes have not come in\<close>

definition quiet :: "u32 \<Rightarrow> VoterSet \<Rightarrow> ('arg, 's, 'p, 'q) Manager \<Rightarrow> bool" where
  "quiet k V m \<longleftrightarrow>
     (\<forall>ra r. m_round m ra = Some r \<longrightarrow> r_ID r = k \<longrightarrow> collecting (m_heap m) r \<and> r_voterSet r = V)"

text \<open>The policies of a round, as far as there are any, have the voters \<open>V\<close>.\<close>

definition voters_fixed :: "('s, 'p, 'sp, 'q) lib \<Rightarrow> u32 \<Rightarrow> VoterSet \<Rightarrow> ('p \<Rightarrow> bool) \<Rightarrow> bool" where
  "voters_fixed L k V P \<longleftrightarrow> (\<forall>p vs. P p \<longrightarrow> sp_ForVotingRound L p k = Some vs \<longrightarrow> vs = V)"

lemma quietD: "quiet k V m \<Longrightarrow> m_round m ra = Some r \<Longrightarrow> r_ID r = k \<Longrightarrow> collecting (m_heap m) r \<and> r_voterSet r = V"
  by (simp add: quiet_def)

text \<open>A step that replaces one round and changes the flags of its attestations only.\<close>

lemma quiet_replace:
  assumes q: "quiet k V m" and r: "m_round m ra = Some r" "r_ID r' = r_ID r"
    and own: "r_ID r = k \<Longrightarrow> collecting (m_heap m) r \<Longrightarrow> collecting h r' \<and> r_voterSet r' = r_voterSet r"
    and other: "\<And>ra2 r2 a. ra2 \<noteq> ra \<Longrightarrow> m_round m ra2 = Some r2 \<Longrightarrow> a \<in> set (r_Attestations r2) \<Longrightarrow>
      at_Consensus (h_atts h a) = at_Consensus (h_atts (m_heap m) a)"
  shows "quiet k V (m\<lparr>m_heap := h, m_round := (m_round m)(ra \<mapsto> r')\<rparr>)"
  unfolding quiet_def
proof (intro allI impI)
  fix ra2 r2
  assume r2: "m_round (m\<lparr>m_heap := h, m_round := (m_round m)(ra \<mapsto> r')\<rparr>) ra2 = Some r2" and k: "r_ID r2 = k"
  show "collecting (m_heap (m\<lparr>m_heap := h, m_round := (m_round m)(ra \<mapsto> r')\<rparr>)) r2 \<and> r_voterSet r2 = V"
  proof (cases "ra2 = ra")
    case True
    then have "r2 = r'" using r2 by simp
    then show ?thesis using own quietD [OF q r(1)] r(2) k by simp
  next
    case False
    then have "m_round m ra2 = Some r2" using r2 by simp
    with quietD [OF q this k] other [OF False] show ?thesis by (simp add: collecting_def)
  qed
qed

text \<open>A step that keeps the rounds and all flags.\<close>

lemma quiet_same:
  "quiet k V m \<Longrightarrow> m_round m' = m_round m \<Longrightarrow> (\<And>ra r a. m_round m ra = Some r \<Longrightarrow> a \<in> set (r_Attestations r) \<Longrightarrow>
     at_Consensus (h_atts (m_heap m') a) = at_Consensus (h_atts (m_heap m) a)) \<Longrightarrow> quiet k V m'"
  by (simp add: quiet_def collecting_def)

lemma quiet_flags:
  assumes "quiet k V m" "m_round m ra = Some r" "r_ID r' = r_ID r" "r_bitVotes r' = r_bitVotes r"
    "r_bitVoteCheckList r' = r_bitVoteCheckList r" "r_ConsensusBitVote r' = r_ConsensusBitVote r" "r_voterSet r' = r_voterSet r"
    "set (r_Attestations r') = set (r_Attestations r)" "\<And>a. at_Consensus (h_atts h a) = at_Consensus (h_atts (m_heap m) a)"
  shows "quiet k V (m\<lparr>m_heap := h, m_round := (m_round m)(ra \<mapsto> r')\<rparr>)"
  by (rule quiet_replace [OF assms(1-3)]) (use assms(4-) in \<open>simp_all add: collecting_def\<close>)

section \<open>The handlers keep a round quiet\<close>

lemma GetOrCreate_quiet:
  assumes L: "voters_fixed L k V P" "P (m_policies m)" and q: "quiet k V m" and get: "GetOrCreateRound L m k' = (m', out)"
  shows "quiet k V m' \<and> m_policies m' = m_policies m"
proof (cases rule: GetOrCreateRound_cases [where L = L and m = m and k = k'])
  case (created vs)
  have "k' = k \<Longrightarrow> vs = V" using L created(2) by (simp add: voters_fixed_def)
  moreover have "m' = create_round L m k' vs" using get created(3) by simp
  ultimately show ?thesis
    using q by (auto simp: quiet_def create_round_def Round_New_def collecting_def)
qed (use q get in auto)

lemma OnBitVote_quiet:
  assumes L: "cyclic_ok L" "voters_fixed L k V P" and m: "manager_ok L K m" "P (m_policies m)" "quiet k V m"
    and other: "msg_VotingRound msg \<noteq> k"
  shows "quiet k V (fst (OnBitVote L C m msg)) \<and> m_policies (fst (OnBitVote L C m msg)) = m_policies m"
proof -
  obtain m1 out where g: "GetOrCreateRound L m (msg_VotingRound msg) = (m1, out)" by fastforce
  note q1 = GetOrCreate_quiet [OF L(2) m(2,3) g]
  show ?thesis
  proof (cases out)
    case (Inl e)
    then show ?thesis using q1 m(3) g by (simp add: OnBitVote_def)
  next
    case (Inr ra)
    obtain r where r: "m_round m1 ra = Some r" "r_ID r = msg_VotingRound msg" using GetOrCreateRound_ok(2) [OF L(1) m(1) g Inr] by blast
    have "quiet k V (m1\<lparr>m_heap := m_heap m1, m_round := (m_round m1)(ra \<mapsto> fst (ProcessBitVote r msg))\<rparr>)"
      by (rule quiet_replace [OF conjunct1 [OF q1] r(1)]) (use r(2) other in \<open>simp_all add: frame\<close>)
    then show ?thesis using q1 m(3) g r(1) Inr
      by (auto simp: OnBitVote_def case_prod_beta Let_def split: option.splits)
  qed
qed

lemma ComputeConsensus_elsewhere:
  assumes "ComputeConsensusBitVote h r = Some (h', r', err)" "a \<notin> set (r_Attestations r)"
  shows "h_atts h' a = h_atts h a"
proof -
  have "h_atts (fst (setConsensusStatus h2 s b)) a = h_atts h2 a" if "a \<notin> set (r_Attestations s)" for h2 :: "'a heap" and s b
    using that by (simp add: setConsensusStatus_def setConsensus_loop_other)
  with assms show ?thesis
    by (auto simp: ComputeConsensusBitVote_def Let_def case_prod_beta split: sum.splits)
qed

lemma Run_bitVotes_quiet:
  assumes L: "cyclic_ok L" "voters_fixed L k V P" and m: "manager_ok L K m" "P (m_policies m)" "quiet k V m"
    and other: "\<forall>msg\<in>set ms. msg_VotingRound msg \<noteq> k" "k' \<noteq> k" and res: "Run_bitVotes L C m k' ms = Some m'"
  shows "quiet k V m'"
proof -
  define m1 where "m1 = foldl (\<lambda>m message. fst (OnBitVote L C m message)) m ms"
  have fold: "quiet k V m1 \<and> manager_ok L K m1"
    unfolding m1_def using m other(1)
  proof (induction ms arbitrary: m)
    case (Cons msg ms)
    have "quiet k V (fst (OnBitVote L C m msg)) \<and> m_policies (fst (OnBitVote L C m msg)) = m_policies m"
      by (rule OnBitVote_quiet [OF L Cons.prems(1-3)]) (use Cons.prems(4) in simp)
    with Cons.IH [OF OnBitVote_ok [OF L(1) Cons.prems(1)]] Cons.prems(2,4) show ?case by simp
  qed simp
  note d = res [unfolded Run_bitVotes_def m1_def [symmetric] Let_def]
  show ?thesis
  proof (cases "cy_Get L (m_Rounds m1) k'")
    case None
    with d fold show ?thesis by simp
  next
    case (Some ra)
    obtain r where r: "m_round m1 ra = Some r" "r_ID r = k'" using manager_okD(3) [OF conjunct2 [OF fold] Some] by blast
    obtain h r' err where c: "ComputeConsensusBitVote (m_heap m1) r = Some (h, r', err)"
      using d Some r(1) by (auto split: option.splits)
    have flags: "at_Consensus (h_atts h a) = at_Consensus (h_atts (m_heap m1) a)"
      if "ra2 \<noteq> ra" "m_round m1 ra2 = Some r2" "a \<in> set (r_Attestations r2)" for ra2 r2 a
    proof -
      have "a \<notin> set (r_Attestations r)" using manager_okD(2) [OF conjunct2 [OF fold] that(2) r(1) that(3)] that(1) by blast
      then show ?thesis by (simp add: ComputeConsensus_elsewhere [OF c])
    qed
    have q2: "quiet k V (m1\<lparr>m_heap := h, m_round := (m_round m1)(ra \<mapsto> r')\<rparr>)"
      by (rule quiet_replace [OF conjunct1 [OF fold] r(1)])
        (use ComputeConsensus_fields(1) [OF c] r(2) other(2) flags in auto)
    have "quiet k V (fst (retryUnsuccessfulChosen L (m1\<lparr>m_heap := h, m_round := (m_round m1)(ra \<mapsto> r')\<rparr>) r'))"
      by (rule quiet_same [OF q2]) (simp_all add: retryUnsuccessfulChosen_def case_prod_beta Let_def)
    with q2 show ?thesis using d Some r(1) c by (simp split: if_splits)
  qed
qed

lemma OnRequest_quiet:
  fixes m :: "('arg, 's, 'p, 'q) Manager"
  assumes L: "cyclic_ok L" "voters_fixed L k V P" and m: "manager_ok L K m" "P (m_policies m)" "quiet k V m"
    and res: "OnRequest L parse K C m log = Some (m', err)"
  shows "quiet k V m' \<and> m_policies m' = m_policies m"
proof (cases "AttestationFromDatabaseLog parse C log :: AttError + 'arg Attestation")
  case (Inl e)
  with res m(3) show ?thesis by (simp add: OnRequest_def)
next
  case (Inr att)
  let ?n = "m_next m"
  define m1 where "m1 = m\<lparr>m_heap := (m_heap m)\<lparr>h_atts := (h_atts (m_heap m))(?n := att)\<rparr>, m_next := Suc ?n\<rparr>"
  have ok1: "manager_ok L K m1" unfolding m1_def by (rule alloc_att_ok [OF m(1)])
  have q1: "quiet k V m1"
  proof (rule quiet_same [OF m(3)])
    fix ra r a
    assume "m_round m ra = Some r" "a \<in> set (r_Attestations r)"
    then have "a < ?n" using manager_okD(1) [OF m(1)] by (simp add: round_in_manager_def)
    then show "at_Consensus (h_atts (m_heap m1) a) = at_Consensus (h_atts (m_heap m) a)" by (simp add: m1_def)
  qed (simp add: m1_def)
  obtain m2 out where g: "GetOrCreateRound L m1 (at_RoundID att) = (m2, out)" by fastforce
  have "P (m_policies m1)" using m(2) by (simp add: m1_def)
  from GetOrCreate_quiet [OF L(2) this q1 g] have q2: "quiet k V m2" and p2: "m_policies m2 = m_policies m" by (simp_all add: m1_def)
  note ok2 = GetOrCreateRound_ok [OF L(1) ok1 g]
  show ?thesis
  proof (cases out)
    case (Inl e)
    then show ?thesis using res Inr g q2 p2 by (simp add: OnRequest_def m1_def Let_def)
  next
    case ra: (Inr ra)
    obtain r where r: "m_round m2 ra = Some r" using ok2(2) [OF ra] by blast
    obtain h r' added where add: "AddAttestation K (m_heap m2) r ?n = Some (h, r', added)"
      and m': "m' = fst (if added then AddToQueue L (m2\<lparr>m_heap := h, m_round := (m_round m2)(ra \<mapsto> r')\<rparr>) ?n
                         else (m2\<lparr>m_heap := h, m_round := (m_round m2)(ra \<mapsto> r')\<rparr>, None))"
      using res Inr g ra r unfolding OnRequest_def m1_def by (auto simp: Let_def split: option.splits)
    let ?m3 = "m2\<lparr>m_heap := h, m_round := (m_round m2)(ra \<mapsto> r')\<rparr>"
    have new: "\<not> at_Consensus (h_atts (m_heap m2) ?n)"
      using Inr unfolding ok2(4) by (auto simp: m1_def AttestationFromDatabaseLog_def split: option.splits sum.splits)
    have flag: "at_Consensus (h_atts h a) = at_Consensus (h_atts (m_heap m2) a)" for a
      by (rule AddAttestation_cases [OF add]) (auto simp: merge_att_def)
    have "quiet k V ?m3"
    proof (rule quiet_replace [OF q2 r])
      show "r_ID r' = r_ID r" by (rule AddAttestation_cases [OF add]) simp_all
      assume coll: "collecting (m_heap m2) r"
      show "collecting h r' \<and> r_voterSet r' = r_voterSet r"
        by (rule AddAttestation_cases [OF add]) (use coll new flag in \<open>auto simp: collecting_def\<close>)
    qed (rule flag)
    moreover have "quiet k V (fst (AddToQueue L ?m3 ?n))"
    proof (rule quiet_same [OF calculation AddToQueue_rounds])
      fix a
      show "at_Consensus (h_atts (m_heap (fst (AddToQueue L ?m3 ?n))) a) = at_Consensus (h_atts (m_heap ?m3) a)"
        using PrepareRequest_same [of "h_atts h ?n" "m_types m2"]
        by (auto simp: AddToQueue_def case_prod_beta Let_def same_request_def split: option.split)
    qed
    ultimately show ?thesis by (simp add: m' p2 AddToQueue_ledger(2))
  qed
qed

lemma Run_requests_quiet:
  assumes L: "cyclic_ok L" "voters_fixed L k V P"
  shows "manager_ok L K m \<Longrightarrow> P (m_policies m) \<Longrightarrow> quiet k V m \<Longrightarrow> Run_requests L parse K C m logs = Some m' \<Longrightarrow> quiet k V m'"
proof (induction logs arbitrary: m)
  case (Cons log logs)
  obtain m1 err where m1: "OnRequest L parse K C m log = Some (m1, err)" "Run_requests L parse K C m1 logs = Some m'"
    using Cons.prems(4) by (auto split: option.splits)
  have "quiet k V m1 \<and> m_policies m1 = m_policies m" by (rule OnRequest_quiet [OF L Cons.prems(1-3) m1(1)])
  then show ?case using Cons.IH [OF OnRequest_ok [OF L(1) Cons.prems(1) m1(1)] _ _ m1(2)] Cons.prems(2) by simp
qed simp

lemma policies_quiet: "quiet k V m \<Longrightarrow> quiet k V (m\<lparr>m_policies := p\<rparr>)"
  by (simp add: quiet_def)

lemma Run_signingPolicies_quiet: "quiet k V m \<Longrightarrow> quiet k V (Run_signingPolicies L m ds)"
proof -
  have "\<exists>p. foldl (\<lambda>m d. fst (OnSigningPolicy L m d)) m ds = m\<lparr>m_policies := p\<rparr>"
  proof (induction ds arbitrary: m)
    case (Cons d ds)
    have "\<exists>p. fst (OnSigningPolicy L m d) = m\<lparr>m_policies := p\<rparr>"
      by (auto simp: OnSigningPolicy_def Let_def intro: exI [of _ "m_policies m"] split: option.splits)
    then obtain p where "fst (OnSigningPolicy L m d) = m\<lparr>m_policies := p\<rparr>" ..
    with Cons.IH [of "m\<lparr>m_policies := p\<rparr>"] show ?case by simp
  next
    case Nil
    show ?case by (intro exI [of _ "m_policies m"]) simp
  qed
  then show "quiet k V m \<Longrightarrow> quiet k V (Run_signingPolicies L m ds)"
    by (auto simp: Run_signingPolicies_def Let_def policies_quiet)
qed

lemma MerkleTree_consensus: "MerkleTree Build h r = Some (h', r', res) \<Longrightarrow> r_ConsensusBitVote r' = r_ConsensusBitVote r"
  by (auto simp: MerkleTree_def Let_def split: sum.splits)

lemma MerkleRoot_consensus: "MerkleRoot Build Root h r = Some (h', r', res) \<Longrightarrow> r_ConsensusBitVote r' = r_ConsensusBitVote r"
  by (auto simp: MerkleRoot_def MerkleTreeCached_def Let_def split: option.splits sum.splits if_splits dest: MerkleTree_consensus)

lemma handler_step_quiet:
  assumes "handler_step L K C A M m m'" "manager_ok L K m" "quiet k V m"
  shows "quiet k V m'"
  using assms(1)
proof cases
  case (dequeued H a)
  have "same_request (h_atts (m_heap m) a) (fst (Handle H A K C (h_atts (m_heap m) a)))" by (rule Handle_same)
  then have "quiet k V (fst (handler H A K C m a))"
    by (intro quiet_same [OF assms(3)]) (auto simp: handler_def case_prod_beta Let_def same_request_def)
  then show ?thesis by (simp add: dequeued run_dequeued_def assms(3))
next
  case (submit2 BuildMessage protocolID k' addr out)
  show ?thesis
  proof (cases "cy_Get L (m_Rounds m) k'")
    case (Some ra)
    obtain r where r: "m_round m ra = Some r" using manager_okD(3) [OF assms(2) Some] by blast
    have "m' = m\<lparr>m_heap := m_heap m, m_round := (m_round m)(ra \<mapsto> sortAttestations (m_heap m) r)\<rparr>"
      using submit2 Some r by (auto simp: submit2Service_def BitVoteBytes_def Round_BitVote_def Let_def split: option.splits sum.splits)
    then show ?thesis using quiet_flags [OF assms(3) r, of "sortAttestations (m_heap m) r" "m_heap m"]
      by (simp add: frame) (simp add: sortAttestations_def)
  qed (use submit2 assms(3) in \<open>auto simp: submit2Service_def\<close>)
next
  case (submitSignatures BuildMessage protocolID k' response)
  show ?thesis
  proof (cases "cy_Get L (m_Rounds m) k'")
    case (Some ra)
    obtain r where r: "m_round m ra = Some r" using manager_okD(3) [OF assms(2) Some] by blast
    have "m' = m \<or> (\<exists>h r' x. MerkleRoot (mk_Build M) (mk_Root M) (m_heap m) r = Some (h, r', x) \<and>
        m' = m\<lparr>m_heap := h, m_round := (m_round m)(ra \<mapsto> r')\<rparr>)"
      using submitSignatures by (auto simp: submitSignaturesService_round [OF Some r] split: option.splits if_splits)
    then show ?thesis
    proof
      assume "\<exists>h r' x. MerkleRoot (mk_Build M) (mk_Root M) (m_heap m) r = Some (h, r', x) \<and>
        m' = m\<lparr>m_heap := h, m_round := (m_round m)(ra \<mapsto> r')\<rparr>"
      then obtain h r' x where root: "MerkleRoot (mk_Build M) (mk_Root M) (m_heap m) r = Some (h, r', x)"
        and m': "m' = m\<lparr>m_heap := h, m_round := (m_round m)(ra \<mapsto> r')\<rparr>" by blast
      show ?thesis unfolding m'
        by (rule quiet_flags [OF assms(3) r]) (simp_all add: MerkleRoot_frame [OF root] MerkleRoot_consensus [OF root])
    qed (simp add: assms(3))
  qed (use submitSignatures assms(3) in \<open>auto simp: submitSignaturesService_def\<close>)
next
  case (getAttestations k' res)
  show ?thesis
  proof (cases "cy_Get L (m_Rounds m) k'")
    case (Some ra)
    obtain r where r: "m_round m ra = Some r" using manager_okD(3) [OF assms(2) Some] by blast
    obtain h r' x where tree: "MerkleTree (mk_Build M) (m_heap m) r = Some (h, r', x)"
      and m': "m' = m\<lparr>m_heap := h, m_round := (m_round m)(ra \<mapsto> r')\<rparr>"
      using getAttestations Some r by (auto simp: GetAttestations_def Let_def split: option.splits sum.splits)
    show ?thesis unfolding m'
      by (rule quiet_flags [OF assms(3) r]) (simp_all add: MerkleTree_frame [OF tree] MerkleTree_consensus [OF tree])
  qed (use getAttestations assms(3) in \<open>auto simp: GetAttestations_def\<close>)
qed

section \<open>Runs\<close>

definition votes_elsewhere :: "u32 \<Rightarrow> PayloadRound list \<Rightarrow> bool" where
  "votes_elsewhere k vs \<longleftrightarrow> (\<forall>v\<in>set vs. pr_ID v \<noteq> k \<and> (\<forall>msg\<in>set (pr_Messages v). msg_VotingRound msg \<noteq> k))"

lemma run_quiet:
  fixes m :: "('arg, 's, 'p, 'q) Manager"
  assumes run: "pipes_run L parse K C A M (collector_started m d) es s"
    and L: "cyclic_ok L" "window_ok L W P" and ok: "manager_ok L K m" and last: "m_lastRoundCreated m \<in> insert 0 W"
    and start: "policies_start L P m (dp_Voters d)"
    and W: "logs_within parse C W (concat (got_requests es))" "votes_within W (got_bitVotes es)"
    and V: "voters_fixed L k V P" and quiet: "quiet k V m" and before: "votes_elsewhere k (got_bitVotes es)"
  shows "quiet k V (pp_manager s)"
  using run W before
proof (induction rule: pipes_run.induct)
  case start
  then show ?case using quiet by simp
next
  case (step es s e s')
  have W: "logs_within parse C W (concat (got_requests es))" "votes_within W (got_bitVotes es)" "votes_elsewhere k (got_bitVotes es)"
    using step.prems by (auto simp: logs_within_def votes_within_def votes_elsewhere_def split: event.splits)
  note q = step.IH [OF W]
  have ok': "manager_ok L K (pp_manager s)"
    using client_reach_ok [OF pipes_run_client [OF step.hyps(1)] L(1)] ok by simp
  have P: "P (m_policies (pp_manager s))" if "pp_started s"
    using run_ledger [OF step.hyps(1) L ok last start W(1,2)] that by (simp add: in_window_def)
  from step.hyps(2) show ?case
  proof cases
    case (recvInitial v vs m')
    obtain p where "m' = (pp_manager s)\<lparr>m_policies := p\<rparr>" using Run_initialPolicies_only [OF recvInitial(5)] by blast
    then show ?thesis using q recvInitial(2) by (simp add: policies_quiet)
  next
    case (recvBitVotes v vs m')
    then have "\<forall>msg\<in>set (pr_Messages v). msg_VotingRound msg \<noteq> k" "pr_ID v \<noteq> k"
      using step.prems(3) by (auto simp: votes_elsewhere_def)
    with Run_bitVotes_quiet [OF L(1) V ok' P q _ _ recvBitVotes(5)] recvBitVotes(2,3) show ?thesis by simp
  next
    case (recvRequests b rest m')
    with Run_requests_quiet [OF L(1) V ok' P q recvRequests(5)] show ?thesis by simp
  next
    case (handle m')
    with handler_step_quiet [OF handle(3) ok' q] show ?thesis by simp
  qed (use q in \<open>simp_all add: Run_signingPolicies_quiet\<close>)
qed

text \<open>The request logs of round \<open>k\<close>.\<close>

definition for_round ::
  "('m dbLog_scheme \<Rightarrow> (bytes \<times> int) option) \<Rightarrow> Timing \<Rightarrow> u32 \<Rightarrow> 'm dbLog_scheme \<Rightarrow> bool" where
  "for_round parse C k log \<longleftrightarrow> parse log \<noteq> None \<and> RoundIDForTS C (log_Timestamp log) = Inr k"

lemma ledger_for_round:
  "fold (log_add parse K C k) logs led = fold (log_add parse K C k) (filter (for_round parse C k) logs) led"
proof (induction logs arbitrary: led)
  case (Cons log logs)
  have "\<not> for_round parse C k log \<Longrightarrow> log_add parse K C k log led = led"
    by (auto simp: for_round_def log_add_def split: option.split)
  then show ?case by (simp add: Cons.IH)
qed simp

lemma log_add_nonempty: "led x \<noteq> None \<Longrightarrow> log_add parse K C k log led x \<noteq> None"
  by (auto simp: log_add_def spec_add_def split: option.split)

lemma ledger_nonempty:
  assumes "log \<in> set logs" "for_round parse C k log"
  obtains x where "fold (log_add parse K C k) logs led x \<noteq> None"
proof -
  have keep: "led x \<noteq> None \<Longrightarrow> fold (log_add parse K C k) logs led x \<noteq> None" for x logs led
    by (induction logs arbitrary: led) (simp_all add: log_add_nonempty del: not_None_eq)
  obtain logs1 logs2 where logs: "logs = logs1 @ log # logs2" using assms(1) by (auto simp: in_set_conv_decomp)
  obtain data fee where "parse log = Some (data, fee)" using assms(2) by (auto simp: for_round_def)
  then have "log_add parse K C k log (fold (log_add parse K C k) logs1 led) (K data) \<noteq> None"
    using assms(2) by (auto simp: for_round_def log_add_def spec_add_def split: option.split)
  then have "fold (log_add parse K C k) logs2 (log_add parse K C k log (fold (log_add parse K C k) logs1 led)) (K data) \<noteq> None"
    by (rule keep)
  then show thesis using that [of "K data"] by (simp add: logs)
qed

text \<open>A provider that has run from its start and has not received any bit vote of round \<open>k\<close>.\<close>

definition provider_at ::
  "('s, 'p, 'sp, 'q) lib \<Rightarrow> ('m dbLog_scheme \<Rightarrow> (bytes \<times> int) option) \<Rightarrow> (bytes \<Rightarrow> bytes) \<Rightarrow> Timing \<Rightarrow> ('arg, 'val) abi \<Rightarrow>
   merkle_lib \<Rightarrow> u32 \<Rightarrow> VoterSet \<Rightarrow> 'm dbLog_scheme event list \<Rightarrow> ('arg, 's, 'p, 'q, 'm dbLog_scheme) pipes \<Rightarrow> bool" where
  "provider_at L parse K C A M k V es s \<longleftrightarrow>
     (\<exists>rounds policies types queues h d W P.
        pipes_run L parse K C A M (collector_started (Manager_New rounds policies types queues h) d) es s \<and>
        cyclic_ok L \<and> cy_Get L rounds = (\<lambda>_. None) \<and> window_ok L W P \<and> k \<in> W \<and> voters_fixed L k V P \<and>
        policies_start L P (Manager_New rounds policies types queues h :: ('arg, 's, 'p, 'q) Manager) (dp_Voters d) \<and>
        logs_within parse C W (concat (got_requests es)) \<and> votes_within W (got_bitVotes es) \<and>
        votes_elsewhere k (got_bitVotes es))"

lemma provider_at_round:
  fixes s :: "('arg, 's, 'p, 'q, 'm dbLog_scheme) pipes"
  assumes p: "provider_at L parse K C A M k V es s" and log: "log \<in> set (concat (got_requests es))" "for_round parse C k log"
  obtains ra r where "manager_ok L K (pp_manager s)" "cy_Get L (m_Rounds (pp_manager s)) k = Some ra"
    "m_round (pp_manager s) ra = Some r" "collecting (m_heap (pp_manager s)) r" "r_voterSet r = V"
    "ledger L (pp_manager s) k = fold (log_add parse K C k) (concat (got_requests es)) Map.empty"
proof -
  obtain rounds policies types queues h d W P where
    run: "pipes_run L parse K C A M (collector_started (Manager_New rounds policies types queues h) d) es s"
    and L: "cyclic_ok L" "window_ok L W P" and empty: "cy_Get L rounds = (\<lambda>_. None)" and k: "k \<in> W" and V: "voters_fixed L k V P"
    and start: "policies_start L P (Manager_New rounds policies types queues h :: ('arg, 's, 'p, 'q) Manager) (dp_Voters d)"
    and within: "logs_within parse C W (concat (got_requests es))" "votes_within W (got_bitVotes es)"
    and before: "votes_elsewhere k (got_bitVotes es)"
    using p unfolding provider_at_def by blast
  let ?m = "Manager_New rounds policies types queues h"
  have ok: "manager_ok L K ?m" by (rule Manager_New_ok [OF empty])
  have last: "m_lastRoundCreated ?m \<in> insert 0 W" by (simp add: Manager_New_def)
  have q0: "quiet k V ?m" by (simp add: quiet_def Manager_New_def)
  have now: "manager_ok L K (pp_manager s)"
    using client_reach_ok [OF pipes_run_client [OF run] L(1)] ok by simp
  have "ledger L ?m k = Map.empty" by (simp add: ledger_def Manager_New_def empty)
  with run_ledger [OF run L ok last start within] k
  have led: "ledger L (pp_manager s) k = fold (log_add parse K C k) (concat (got_requests es)) Map.empty" by simp
  obtain x where "ledger L (pp_manager s) k x \<noteq> None" unfolding led by (rule ledger_nonempty [OF log])
  then obtain ra where ra: "cy_Get L (m_Rounds (pp_manager s)) k = Some ra" by (auto simp: ledger_def split: option.splits)
  with manager_okD(3) [OF now] obtain r where r: "m_round (pp_manager s) ra = Some r" "r_ID r = k" by blast
  have "quiet k V (pp_manager s)" by (rule run_quiet [OF run L ok last start within V q0 before])
  with r now ra led show thesis by (intro that) (auto dest: quietD)
qed

section \<open>Property\<close>


text \<open>Two providers that receive the logs of two requests in different orders and then a bit vote for the second one.\<close>

definition agree_lib :: "(u32 \<rightharpoonup> nat, VoterSet option, VoterSet, nat list) lib" where
  "agree_lib = sample_lib\<lparr>sp_Add := (\<lambda>p v. Some p)\<rparr>"

definition agree_parse :: "dbLog \<Rightarrow> (bytes \<times> int) option" where
  "agree_parse log = Some (if log_LogIndex log = 1 then [5] else [6], 20)"

abbreviation (input) agree_logs :: "dbLog list" where
  "agree_logs \<equiv> [sample_log, sample_log\<lparr>log_LogIndex := 2\<rparr>]"

abbreviation (input) agree_vote :: PayloadRound where
  "agree_vote \<equiv> \<lparr>pr_Messages = pair_votes, pr_ID = 3\<rparr>"

abbreviation (input) agree_data :: "dbLog list \<Rightarrow> dbLog DataPipes" where
  "agree_data logs \<equiv> \<lparr>dp_Requests = [logs], dp_BitVotes = [agree_vote], dp_Voters = [[sample_voters_data]]\<rparr>"

abbreviation (input) agree_events :: "dbLog list \<Rightarrow> dbLog event list" where
  "agree_events logs \<equiv> [Internal, GotVoters [sample_voters_data], Internal, GotRequests logs, Internal]"

lemma agree_lib_ok: "cyclic_ok agree_lib" "cy_Get agree_lib Map.empty = (\<lambda>_. None)"
    "window_ok agree_lib UNIV (\<lambda>p. p = Some sample_voters)" "voters_fixed agree_lib 3 sample_voters (\<lambda>p. p = Some sample_voters)"
  by (auto simp: cyclic_ok_def window_ok_def voters_fixed_def agree_lib_def sample_lib_def)

lemma agree_policies_start: "policies_start agree_lib (\<lambda>p. p = Some sample_voters) empty_manager ds"
proof -
  have "m_policies m1 = Some sample_voters \<Longrightarrow> Run_initialPolicies agree_lib m1 d = Some m2 \<Longrightarrow> m_policies m2 = Some sample_voters" for d m1 m2
  proof (induction d arbitrary: m1)
    case (Cons v d)
    obtain m' where m': "OnSigningPolicy agree_lib m1 v = (m', None)" "Run_initialPolicies agree_lib m' d = Some m2"
      using Cons.prems(2) by (auto split: prod.splits option.splits)
    then have "m_policies m' = Some sample_voters"
      using Cons.prems(1) by (auto simp: OnSigningPolicy_def Let_def agree_lib_def sample_lib_def split: option.splits)
    then show ?case by (rule Cons.IH [OF _ m'(2)])
  qed simp
  then show ?thesis by (auto simp: policies_start_def empty_manager_def Manager_New_def)
qed

lemma agree_run:
  obtains s s' where "provider_at agree_lib agree_parse id Chain_default sample_abi sample_merkle 3 sample_voters (agree_events logs) s"
    "pipes_step agree_lib agree_parse id Chain_default sample_abi sample_merkle s (GotBitVotes agree_vote) s'"
proof -
  let ?run = "pipes_run agree_lib agree_parse id Chain_default sample_abi sample_merkle (collector_started empty_manager (agree_data logs))"
  let ?s0 = "collector_started empty_manager (agree_data logs)"
  let ?s1 = "?s0\<lparr>pp_collector := (pp_collector ?s0)\<lparr>dp_Voters := []\<rparr>,
      pp_channels := (pp_channels ?s0)\<lparr>dp_Voters := dp_Voters (pp_channels ?s0) @ [[sample_voters_data]]\<rparr>\<rparr>"
  let ?s2 = "?s1\<lparr>pp_manager := empty_manager, pp_started := True, pp_channels := (pp_channels ?s1)\<lparr>dp_Voters := []\<rparr>\<rparr>"
  let ?s3 = "?s2\<lparr>pp_collector := (pp_collector ?s2)\<lparr>dp_Requests := []\<rparr>,
      pp_channels := (pp_channels ?s2)\<lparr>dp_Requests := dp_Requests (pp_channels ?s2) @ [logs]\<rparr>\<rparr>"
  have ok: "manager_ok agree_lib id empty_manager" unfolding empty_manager_def by (rule Manager_New_ok [OF agree_lib_ok(2)])
  have free: "unlocked empty_manager" by (simp add: unlocked_def empty_manager_def Manager_New_def)
  obtain m where m: "Run_requests agree_lib agree_parse id Chain_default empty_manager logs = Some m" "manager_ok agree_lib id m" "unlocked m"
    by (rule unlocked_Run_requests [OF agree_lib_ok(1) ok free])
  let ?s4 = "?s3\<lparr>pp_manager := m, pp_channels := (pp_channels ?s3)\<lparr>dp_Requests := []\<rparr>\<rparr>"
  let ?s5 = "?s4\<lparr>pp_collector := (pp_collector ?s4)\<lparr>dp_BitVotes := []\<rparr>,
      pp_channels := (pp_channels ?s4)\<lparr>dp_BitVotes := dp_BitVotes (pp_channels ?s4) @ [agree_vote]\<rparr>\<rparr>"
  have r1: "?run ([] @ [Internal]) ?s1"
    by (rule pipes_run.step [OF pipes_run.start pipes_step.sendVoters]) (simp_all add: signingPolicyBufferSize_def)
  have "Run_initialPolicies agree_lib empty_manager [sample_voters_data] = Some empty_manager"
    by (simp add: OnSigningPolicy_def VotersDataCheck_def agree_lib_def sample_lib_def empty_manager_def Manager_New_def)
  then have r2: "?run (([] @ [Internal]) @ [GotVoters [sample_voters_data]]) ?s2"
    by (intro pipes_run.step [OF r1 pipes_step.recvInitial]) simp_all
  have r3: "?run ((([] @ [Internal]) @ [GotVoters [sample_voters_data]]) @ [Internal]) ?s3"
    by (rule pipes_run.step [OF r2 pipes_step.sendRequests]) (simp_all add: requestsBufferSize_def)
  have r4: "?run (((([] @ [Internal]) @ [GotVoters [sample_voters_data]]) @ [Internal]) @ [GotRequests logs]) ?s4"
    by (rule pipes_run.step [OF r3 pipes_step.recvRequests]) (simp_all add: m(1))
  have r5: "?run ((((([] @ [Internal]) @ [GotVoters [sample_voters_data]]) @ [Internal]) @ [GotRequests logs]) @ [Internal]) ?s5"
    by (rule pipes_run.step [OF r4 pipes_step.sendBitVotes]) (simp_all add: bitVoteBufferSize_def)
  obtain m' where m': "Run_bitVotes agree_lib Chain_default m 3 pair_votes = Some m'" by (rule unlocked_Run_bitVotes [OF agree_lib_ok(1) m(2,3)])
  show thesis
  proof
    have within: "votes_elsewhere 3 (got_bitVotes (agree_events logs))" by (simp add: votes_elsewhere_def got_defs map_filter_simps)
    from r5 show "provider_at agree_lib agree_parse id Chain_default sample_abi sample_merkle 3 sample_voters (agree_events logs) ?s5"
      unfolding provider_at_def empty_manager_def
      using agree_lib_ok agree_policies_start [unfolded empty_manager_def] within within_UNIV UNIV_I by (fastforce simp only: append.simps)
    show "pipes_step agree_lib agree_parse id Chain_default sample_abi sample_merkle ?s5 (GotBitVotes agree_vote)
        (?s5\<lparr>pp_manager := m', pp_channels := (pp_channels ?s5)\<lparr>dp_BitVotes := []\<rparr>\<rparr>)"
      by (rule pipes_step.recvBitVotes) (simp_all add: m')
  qed
qed


end
