(* ===== verification/Routes.thy ===== *)
theory Routes
  imports Pipes
begin

text \<open>
  \<^verbatim>\<open>server/server.go\<close>: the routes and middlewares that \<^verbatim>\<open>New\<close> registers, and the controller that each route calls.
  The calls of \<^verbatim>\<open>restserver\<close>, \<^verbatim>\<open>gorilla/mux\<close> and \<^verbatim>\<open>cors\<close> are recorded as data; what these libraries do with them is
  a parameter \<open>dispatch\<close> with the law \<open>router_ok\<close>. The rounds that the controllers share with the manager are
  those of the manager that they act on.

  Shown here: every request that is served carries a configured key and is a step of the client, so it keeps the
  rounds consistent; and which requests are answered as malformed, whatever the route.
\<close>

section \<open>The configuration (\<^verbatim>\<open>config.go\<close>)\<close>

record RestServer =
  rs_Addr :: string
  rs_APIKeyName :: string
  rs_APIKeys :: "string list"
  rs_Title :: string
  rs_FSPTitle :: string
  rs_FSPSubpath :: string
  rs_DATitle :: string
  rs_DAPSubpath :: string
  rs_Version :: string
  rs_SwaggerPath :: string

section \<open>Routes\<close>

record FDCProtocolProviderController =
  pc_protocolID :: u8

definition newFDCProtocolProviderController :: "u8 \<Rightarrow> FDCProtocolProviderController" where
  "newFDCProtocolProviderController protocolID = \<lparr>pc_protocolID = protocolID\<rparr>"

text \<open>The methods that are registered, with the controller object that they belong to.\<close>

datatype controller =
  Submit1 FDCProtocolProviderController
| Submit2 FDCProtocolProviderController
| SubmitSignatures FDCProtocolProviderController
| GetRequest
| GetAttestation

text \<open>The arguments of \<^verbatim>\<open>GeneralRouteHandler\<close> and of \<^verbatim>\<open>AddRoute\<close>.\<close>

record route_handler =
  rh_Controller :: controller
  rh_Method :: string
  rh_StatusCode :: nat
  rh_Params :: "(string \<times> string) list"
  rh_Securities :: "string list"

record route =
  rt_Path :: string
  rt_Handler :: route_handler
  rt_Description :: string

abbreviation (input) MethodGet :: string where
  "MethodGet \<equiv> ''GET''"

abbreviation (input) StatusOK :: nat where
  "StatusOK \<equiv> 200"

definition GeneralRouteHandler ::
  "controller \<Rightarrow> string \<Rightarrow> nat \<Rightarrow> (string \<times> string) list \<Rightarrow> string list \<Rightarrow> route_handler" where
  "GeneralRouteHandler c httpMethod code params securities =
     \<lparr>rh_Controller = c, rh_Method = httpMethod, rh_StatusCode = code, rh_Params = params, rh_Securities = securities\<rparr>"

definition AddRoute :: "string \<Rightarrow> route_handler \<Rightarrow> string \<Rightarrow> route" where
  "AddRoute path h description = \<lparr>rt_Path = path, rt_Handler = h, rt_Description = description\<rparr>"

definition registerFDCProviderRoutes :: "u8 \<Rightarrow> string list \<Rightarrow> route list" where
  "registerFDCProviderRoutes protocolID securities =
     (let controller = newFDCProtocolProviderController protocolID;
          paramMap = [(''votingRoundID'', ''Voting round ID''), (''submitAddress'', ''Submit address'')];
          submit1Handler = GeneralRouteHandler (Submit1 controller) MethodGet StatusOK paramMap securities;
          submit2Handler = GeneralRouteHandler (Submit2 controller) MethodGet StatusOK paramMap securities;
          submitSignaturesHandler = GeneralRouteHandler (SubmitSignatures controller) MethodGet StatusOK paramMap securities
      in [AddRoute ''/submit1/{votingRoundID}/{submitAddress}'' submit1Handler ''Submit1'',
          AddRoute ''/submit2/{votingRoundID}/{submitAddress}'' submit2Handler ''Submit2'',
          AddRoute ''/submitSignatures/{votingRoundID}/{submitAddress}'' submitSignaturesHandler ''SubmitSignatures''])"

definition registerDARoutes :: "string list \<Rightarrow> route list" where
  "registerDARoutes securities =
     (let paramMap = [(''votingRoundID'', ''Voting round ID'')];
          getRequests = GeneralRouteHandler GetRequest MethodGet StatusOK paramMap securities;
          getAttestations = GeneralRouteHandler GetAttestation MethodGet StatusOK paramMap securities
      in [AddRoute ''/getRequests/{votingRoundID}'' getRequests ''GetRequests'',
          AddRoute ''/getAttestations/{votingRoundID}'' getAttestations ''GetAttestations''])"

section \<open>The server\<close>

record APIKeyAuthMiddleware =
  km_KeyName :: string
  km_Keys :: "string list"

record sub_router =
  sub_Prefix :: string
  sub_Title :: string
  sub_Routes :: "route list"
  sub_Middlewares :: "APIKeyAuthMiddleware list"

text \<open>Timeouts in seconds.\<close>

record rest_server =
  srv_Addr :: string
  srv_Open :: "(string \<times> string) list"
  srv_Title :: string
  srv_Version :: string
  srv_SwaggerBasePath :: string
  srv_SecuritySchemes :: APIKeyAuthMiddleware
  srv_SubRouters :: "sub_router list"
  srv_AllowedOrigins :: "string list"
  srv_ReadHeaderTimeout :: nat
  srv_WriteTimeout :: nat
  srv_ReadTimeout :: nat

definition Server_New :: "u8 \<Rightarrow> RestServer \<Rightarrow> rest_server" where
  "Server_New protocolID serverConfig =
     (let keyMiddleware = \<lparr>km_KeyName = rs_APIKeyName serverConfig, km_Keys = rs_APIKeys serverConfig\<rparr>;
          fspSubRouter = \<lparr>sub_Prefix = rs_FSPSubpath serverConfig, sub_Title = rs_FSPTitle serverConfig,
            sub_Routes = registerFDCProviderRoutes protocolID [rs_APIKeyName serverConfig], sub_Middlewares = [keyMiddleware]\<rparr>;
          daSubRouter = \<lparr>sub_Prefix = rs_DAPSubpath serverConfig, sub_Title = rs_DATitle serverConfig,
            sub_Routes = registerDARoutes [rs_APIKeyName serverConfig], sub_Middlewares = [keyMiddleware]\<rparr>
      in \<lparr>srv_Addr = rs_Addr serverConfig, srv_Open = [(''/health'', MethodGet)],
          srv_Title = rs_Title serverConfig, srv_Version = rs_Version serverConfig,
          srv_SwaggerBasePath = rs_SwaggerPath serverConfig, srv_SecuritySchemes = keyMiddleware,
          srv_SubRouters = [fspSubRouter, daSubRouter], srv_AllowedOrigins = [''*''],
          srv_ReadHeaderTimeout = 15, srv_WriteTimeout = 15, srv_ReadTimeout = 15\<rparr>)"

text \<open>What a registered method does with the parameters of a request; the builders of \<^verbatim>\<open>payload\<close> are a parameter.\<close>

record payload_lib =
  pl_BuildMessage :: "u8 \<Rightarrow> u32 \<Rightarrow> bytes \<Rightarrow> string"
  pl_BuildMessageForSigning :: "u8 \<Rightarrow> u32 \<Rightarrow> bool \<Rightarrow> bytes \<Rightarrow> string"

datatype answer =
  SubmitAnswer "HttpError + SubprotocolResponse"
| RequestsAnswer "HttpError + RequestsResponse"
| AttestationsAnswer "HttpError + AttestationResponse option"

definition run_controller ::
  "('s, 'p, 'sp, 'q) lib \<Rightarrow> merkle_lib \<Rightarrow> payload_lib \<Rightarrow> u64 \<Rightarrow> Timing \<Rightarrow> controller \<Rightarrow> ('arg, 's, 'p, 'q) Manager \<Rightarrow>
   (string \<rightharpoonup> string) \<Rightarrow> (('arg, 's, 'p, 'q) Manager \<times> answer) option" where
  "run_controller L M B now Chain c m params =
     (case c of
        Submit1 fc \<Rightarrow> map_option (map_prod id SubmitAnswer) (submit1Controller now Chain m params)
      | Submit2 fc \<Rightarrow>
          map_option (map_prod id SubmitAnswer) (submit2Controller L (pl_BuildMessage B) (pc_protocolID fc) now Chain m params)
      | SubmitSignatures fc \<Rightarrow>
          map_option (map_prod id SubmitAnswer)
            (submitSignaturesController L M (pl_BuildMessageForSigning B) (pc_protocolID fc) m params)
      | GetRequest \<Rightarrow> Some (m, RequestsAnswer (getRequestController L m params))
      | GetAttestation \<Rightarrow> map_option (map_prod id AttestationsAnswer) (getAttestationController L M m params))"

section \<open>What is assumed and shown of requests\<close>

text \<open>The variables of a path template: the names between braces.\<close>

fun path_vars_from :: "string option \<Rightarrow> string \<Rightarrow> string list" where
  "path_vars_from None [] = []"
| "path_vars_from (Some name) [] = []"
| "path_vars_from None (c # cs) = path_vars_from (if c = CHR ''{'' then Some [] else None) cs"
| "path_vars_from (Some name) (c # cs) =
     (if c = CHR ''}'' then name # path_vars_from None cs else path_vars_from (Some (name @ [c])) cs)"

definition path_vars :: "string \<Rightarrow> string list" where
  "path_vars template = path_vars_from None template"

text \<open>
  The law of the routers: a request that reaches a handler has matched a registered route, its parameters are the
  variables of the route's template, and every middleware of the sub router has admitted it.
\<close>

definition router_ok ::
  "(rest_server \<Rightarrow> 'req \<Rightarrow> (route_handler \<times> (string \<rightharpoonup> string)) option) \<Rightarrow> (APIKeyAuthMiddleware \<Rightarrow> 'req \<Rightarrow> bool) \<Rightarrow> bool" where
  "router_ok dispatch admits \<longleftrightarrow>
     (\<forall>srv req h params. dispatch srv req = Some (h, params) \<longrightarrow>
        (\<exists>sub\<in>set (srv_SubRouters srv). \<exists>rt\<in>set (sub_Routes sub).
           h = rt_Handler rt \<and> dom params = set (path_vars (rt_Path rt)) \<and> (\<forall>mw\<in>set (sub_Middlewares sub). admits mw req)))"

definition malformed :: "answer \<Rightarrow> bool" where
  "malformed a = (case a of SubmitAnswer (Inl e) \<Rightarrow> e = BadParams | RequestsAnswer (Inl e) \<Rightarrow> e = BadParams
     | AttestationsAnswer (Inl e) \<Rightarrow> e = BadParams | _ \<Rightarrow> False)"

definition key_of :: "RestServer \<Rightarrow> APIKeyAuthMiddleware" where
  "key_of cfg = \<lparr>km_KeyName = rs_APIKeyName cfg, km_Keys = rs_APIKeys cfg\<rparr>"

section \<open>Lemmas\<close>

lemma path_vars_provider [simp]:
  "path_vars ''/submit1/{votingRoundID}/{submitAddress}'' = [''votingRoundID'', ''submitAddress'']"
  "path_vars ''/submit2/{votingRoundID}/{submitAddress}'' = [''votingRoundID'', ''submitAddress'']"
  "path_vars ''/submitSignatures/{votingRoundID}/{submitAddress}'' = [''votingRoundID'', ''submitAddress'']"
  "path_vars ''/getRequests/{votingRoundID}'' = [''votingRoundID'']"
  "path_vars ''/getAttestations/{votingRoundID}'' = [''votingRoundID'']"
  by (simp_all add: path_vars_def)

lemmas register_defs = registerFDCProviderRoutes_def registerDARoutes_def newFDCProtocolProviderController_def
  GeneralRouteHandler_def AddRoute_def Let_def

text \<open>What is registered: for each controller, the parameters of its requests.\<close>

lemma dispatched:
  assumes "router_ok dispatch admits" "dispatch (Server_New protocolID cfg) req = Some (h, params)"
  obtains (provider) "rh_Controller h \<in> {Submit1 \<lparr>pc_protocolID = protocolID\<rparr>, Submit2 \<lparr>pc_protocolID = protocolID\<rparr>, SubmitSignatures \<lparr>pc_protocolID = protocolID\<rparr>}"
      "dom params = {''votingRoundID'', ''submitAddress''}" "rh_Method h = ''GET''" "admits (key_of cfg) req"
    | (availability) "rh_Controller h \<in> {GetRequest, GetAttestation}" "dom params = {''votingRoundID''}"
      "rh_Method h = ''GET''" "admits (key_of cfg) req"
proof -
  obtain sub rt where sub: "sub \<in> set (srv_SubRouters (Server_New protocolID cfg))" and rt: "rt \<in> set (sub_Routes sub)"
    and h: "h = rt_Handler rt" "dom params = set (path_vars (rt_Path rt))" and mw: "\<forall>mw\<in>set (sub_Middlewares sub). admits mw req"
    using assms(1) [unfolded router_ok_def, rule_format, OF assms(2)] by blast
  have mws: "sub_Middlewares sub = [key_of cfg]" using sub by (auto simp: Server_New_def Let_def key_of_def)
  then have key: "admits (key_of cfg) req" using mw by simp
  have "rt \<in> set (registerFDCProviderRoutes protocolID [rs_APIKeyName cfg]) \<or> rt \<in> set (registerDARoutes [rs_APIKeyName cfg])"
    using sub rt by (auto simp: Server_New_def Let_def)
  then show ?thesis
  proof
    assume "rt \<in> set (registerFDCProviderRoutes protocolID [rs_APIKeyName cfg])"
    then show ?thesis using h key by (intro provider) (auto simp: register_defs)
  next
    assume "rt \<in> set (registerDARoutes [rs_APIKeyName cfg])"
    then show ?thesis using h key by (intro availability) (auto simp: register_defs)
  qed
qed

lemma submitXController_step:
  assumes "submitXController now service timeLock m params = Some (m', res)"
  shows "m' = m \<or> (\<exists>k addr out. service m k addr = Some (m', out))"
  using assms by (auto simp: submitXController_def Let_def split: sum.splits if_splits option.splits prod.splits)

lemma run_controller_step:
  assumes "run_controller L M B now C c m params = Some (m', a)"
  shows "m' = m \<or> handler_step L K C A M m m'"
proof (cases c)
  case (Submit1 fc)
  with assms have "m' = m" by (auto simp: run_controller_def submit1_response)
  then show ?thesis by simp
next
  case (Submit2 fc)
  with assms obtain res where "submit2Controller L (pl_BuildMessage B) (pc_protocolID fc) now C m params = Some (m', res)"
    by (auto simp: run_controller_def)
  from submitXController_step [OF this [unfolded submit2Controller_def]] show ?thesis by (auto intro: handler_step.intros)
next
  case (SubmitSignatures fc)
  with assms show ?thesis
    by (auto simp: run_controller_def submitSignaturesController_def intro: handler_step.intros split: sum.splits)
next
  case GetAttestation
  with assms show ?thesis by (auto simp: run_controller_def getAttestationController_def intro: handler_step.intros
      split: sum.splits option.splits prod.splits DAResult.splits)
qed (use assms in \<open>simp add: run_controller_def\<close>)

lemma handler_step_ok: "handler_step L K C A M m m' \<Longrightarrow> manager_ok L K m \<Longrightarrow> manager_ok L K m'"
  by (induction rule: handler_step.induct) (auto intro: wf_keep)

text \<open>When a controller refuses its parameters.\<close>

lemma validateSubmitXParams_bad:
  assumes "dom params = {''votingRoundID'', ''submitAddress''}"
  shows "(\<exists>e. validateSubmitXParams params = Inl e) \<longleftrightarrow>
     ParseUint10 32 (the (params ''votingRoundID'')) = None \<or> \<not> validateEVMAddress (the (params ''submitAddress''))"
    "validateSubmitXParams params = Inl e \<Longrightarrow> e = BadParams"
proof -
  have "''votingRoundID'' \<in> dom params" "''submitAddress'' \<in> dom params" using assms by simp_all
  then obtain n a where "params ''votingRoundID'' = Some n" "params ''submitAddress'' = Some a" by blast
  then show "(\<exists>e. validateSubmitXParams params = Inl e) \<longleftrightarrow>
      ParseUint10 32 (the (params ''votingRoundID'')) = None \<or> \<not> validateEVMAddress (the (params ''submitAddress''))"
    "validateSubmitXParams params = Inl e \<Longrightarrow> e = BadParams"
    by (auto simp: validateSubmitXParams_def split: option.splits if_splits)
qed

lemma submitXController_bad:
  assumes "submitXController now service timeLock m params = Some (m', res)" "dom params = {''votingRoundID'', ''submitAddress''}"
  shows "res = Inl BadParams \<longleftrightarrow> (\<exists>e. validateSubmitXParams params = Inl e)" "res = Inl BadParams \<Longrightarrow> m' = m"
proof -
  have "res = Inl BadParams \<longleftrightarrow> (\<exists>e. validateSubmitXParams params = Inl e)" "res = Inl BadParams \<longrightarrow> m' = m"
    using assms(1)
    by (cases "validateSubmitXParams params"; use validateSubmitXParams_bad(2) [OF assms(2)] in
        \<open>force simp: submitXController_def Let_def split: if_splits option.splits sum.splits prod.splits\<close>)+
  then show "res = Inl BadParams \<longleftrightarrow> (\<exists>e. validateSubmitXParams params = Inl e)" "res = Inl BadParams \<Longrightarrow> m' = m" by blast+
qed

lemma submitSignaturesController_bad:
  assumes "submitSignaturesController L M BM pid m params = Some (m', res)" "dom params = {''votingRoundID'', ''submitAddress''}"
  shows "res = Inl BadParams \<longleftrightarrow> (\<exists>e. validateSubmitXParams params = Inl e)" "res = Inl BadParams \<Longrightarrow> m' = m"
proof -
  have "res = Inl BadParams \<longleftrightarrow> (\<exists>e. validateSubmitXParams params = Inl e)" "res = Inl BadParams \<longrightarrow> m' = m"
    using assms(1)
    by (cases "validateSubmitXParams params"; use validateSubmitXParams_bad(2) [OF assms(2)] in
        \<open>force simp: submitSignaturesController_def\<close>)+
  then show "res = Inl BadParams \<longleftrightarrow> (\<exists>e. validateSubmitXParams params = Inl e)" "res = Inl BadParams \<Longrightarrow> m' = m" by blast+
qed

lemma run_provider_bad:
  assumes "run_controller L M B now C c m params = Some (m', a)" "dom params = {''votingRoundID'', ''submitAddress''}"
    "c \<in> {Submit1 fc, Submit2 fc, SubmitSignatures fc}"
  shows "malformed a \<longleftrightarrow> ParseUint10 32 (the (params ''votingRoundID'')) = None \<or> \<not> validateEVMAddress (the (params ''submitAddress''))"
    "malformed a \<Longrightarrow> m' = m"
proof -
  note submit = submitXController_bad [OF _ assms(2)] and sign = submitSignaturesController_bad [OF _ assms(2)]
  have "\<exists>res. a = SubmitAnswer res \<and> (res = Inl BadParams \<longleftrightarrow> (\<exists>e. validateSubmitXParams params = Inl e)) \<and> (res = Inl BadParams \<longrightarrow> m' = m)"
  proof -
    consider "c = Submit1 fc" | "c = Submit2 fc" | "c = SubmitSignatures fc" using assms(3) by blast
    then show ?thesis
    proof cases
      case 1
      then obtain res where "submit1Controller now C m params = Some (m', res)" "a = SubmitAnswer res"
        using assms(1) by (cases "submit1Controller now C m params") (auto simp: run_controller_def)
      with submit [of now submit1Service "RoundStartTS C" m m' res] show ?thesis by (simp add: submit1Controller_def)
    next
      case 2
      then obtain res where "submit2Controller L (pl_BuildMessage B) (pc_protocolID fc) now C m params = Some (m', res)" "a = SubmitAnswer res"
        using assms(1)
        by (cases "submit2Controller L (pl_BuildMessage B) (pc_protocolID fc) now C m params") (auto simp: run_controller_def)
      with submit [of now "submit2Service L (pl_BuildMessage B) (pc_protocolID fc)" "ChooseStartTS C" m m' res]
      show ?thesis by (simp add: submit2Controller_def)
    next
      case 3
      then obtain res where "submitSignaturesController L M (pl_BuildMessageForSigning B) (pc_protocolID fc) m params = Some (m', res)"
          "a = SubmitAnswer res"
        using assms(1)
        by (cases "submitSignaturesController L M (pl_BuildMessageForSigning B) (pc_protocolID fc) m params") (auto simp: run_controller_def)
      with sign show ?thesis by blast
    qed
  qed
  then obtain res where a: "a = SubmitAnswer res"
    and "(res = Inl BadParams \<longleftrightarrow> (\<exists>e. validateSubmitXParams params = Inl e)) \<and> (res = Inl BadParams \<longrightarrow> m' = m)" by blast
  moreover have "malformed a \<longleftrightarrow> res = Inl BadParams" by (simp add: a malformed_def split: sum.split)
  ultimately show "malformed a \<longleftrightarrow> ParseUint10 32 (the (params ''votingRoundID'')) = None \<or> \<not> validateEVMAddress (the (params ''submitAddress''))"
    "malformed a \<Longrightarrow> m' = m"
    unfolding validateSubmitXParams_bad(1) [OF assms(2), symmetric] by simp_all
qed

lemma run_availability_bad:
  assumes "run_controller L M B now C c m params = Some (m', a)" "dom params = {''votingRoundID''}" "c \<in> {GetRequest, GetAttestation}"
  shows "malformed a \<longleftrightarrow> ParseUint10 32 (the (params ''votingRoundID'')) = None" "malformed a \<Longrightarrow> m' = m"
proof -
  have "''votingRoundID'' \<in> dom params" using assms(2) by simp
  then obtain n where "params ''votingRoundID'' = Some n" by blast
  then show "malformed a \<longleftrightarrow> ParseUint10 32 (the (params ''votingRoundID'')) = None" "malformed a \<Longrightarrow> m' = m"
    using assms(1,3) by (auto simp: run_controller_def getRequestController_def getAttestationController_def
        validateRoundIDParam_def malformed_def split: option.splits prod.splits DAResult.splits)
qed

text \<open>A router that serves the route \<open>j\<close> of the sub router \<open>i\<close> to a request with one of the keys.\<close>

definition sample_admits :: "APIKeyAuthMiddleware \<Rightarrow> string \<times> nat \<times> nat \<times> string list \<Rightarrow> bool" where
  "sample_admits mw req = (fst req \<in> set (km_Keys mw))"

definition sample_dispatch ::
  "rest_server \<Rightarrow> string \<times> nat \<times> nat \<times> string list \<Rightarrow> (route_handler \<times> (string \<rightharpoonup> string)) option" where
  "sample_dispatch srv req =
     (case req of (key, i, j, vals) \<Rightarrow>
        if i < length (srv_SubRouters srv) \<and> j < length (sub_Routes (srv_SubRouters srv ! i))
        then (let sub = srv_SubRouters srv ! i; rt = sub_Routes sub ! j in
              if list_all (\<lambda>mw. sample_admits mw req) (sub_Middlewares sub) \<and> length vals = length (path_vars (rt_Path rt))
              then Some (rt_Handler rt, map_of (zip (path_vars (rt_Path rt)) vals)) else None)
        else None)"

lemma sample_router_ok: "router_ok sample_dispatch sample_admits"
proof -
  have "\<exists>sub\<in>set (srv_SubRouters srv). \<exists>rt\<in>set (sub_Routes sub).
      h = rt_Handler rt \<and> dom params = set (path_vars (rt_Path rt)) \<and> (\<forall>mw\<in>set (sub_Middlewares sub). sample_admits mw req)"
    if "sample_dispatch srv req = Some (h, params)" for srv req h params
  proof -
    obtain key i j vals where req: "req = (key, i, j, vals)" by (cases req)
    let ?sub = "srv_SubRouters srv ! i"
    let ?rt = "sub_Routes ?sub ! j"
    have S: "i < length (srv_SubRouters srv)" "j < length (sub_Routes ?sub)" "h = rt_Handler ?rt"
      "params = map_of (zip (path_vars (rt_Path ?rt)) vals)" "length vals = length (path_vars (rt_Path ?rt))"
      "\<forall>mw\<in>set (sub_Middlewares ?sub). sample_admits mw req"
      using that by (simp_all add: req sample_dispatch_def Let_def list_all_iff split: if_splits)
    have "dom params = set (path_vars (rt_Path ?rt))" unfolding S(4) using S(5) by (simp add: dom_map_of_zip)
    moreover have "?sub \<in> set (srv_SubRouters srv)" "?rt \<in> set (sub_Routes ?sub)" using S(1,2) by simp_all
    ultimately show ?thesis using S(3,6) by blast
  qed
  then show ?thesis by (simp add: router_ok_def)
qed

abbreviation (input) sample_cfg :: RestServer where
  "sample_cfg \<equiv> \<lparr>rs_Addr = '':8008'', rs_APIKeyName = ''X-API-KEY'', rs_APIKeys = [''key''], rs_Title = [], rs_FSPTitle = [],
     rs_FSPSubpath = ''/fsp'', rs_DATitle = [], rs_DAPSubpath = ''/da'', rs_Version = [], rs_SwaggerPath = []\<rparr>"

abbreviation (input) sample_payloads :: payload_lib where
  "sample_payloads \<equiv> \<lparr>pl_BuildMessage = (\<lambda>p k b. hex_EncodeToString b), pl_BuildMessageForSigning = (\<lambda>p k r b. hex_EncodeToString b)\<rparr>"

lemma sample_served:
  "sample_dispatch (Server_New 200 sample_cfg) (''key'', 1, 1, [n]) =
     Some (\<lparr>rh_Controller = GetAttestation, rh_Method = ''GET'', rh_StatusCode = 200,
       rh_Params = [(''votingRoundID'', ''Voting round ID'')], rh_Securities = [''X-API-KEY'']\<rparr>, [''votingRoundID'' \<mapsto> n])"
  by (simp add: sample_dispatch_def sample_admits_def Server_New_def register_defs)

section \<open>Properties\<close>



text \<open>
  C26. Malformed requests: whatever route matches, a request has the parameters that its controller looks up. It is
  answered as malformed if and only if its round is not a decimal of 32 bits or, on a provider route, its address is
  not one of 20 bytes; and then nothing is changed.
\<close>

theorem malformed_requests:
  assumes "router_ok dispatch admits" "dispatch (Server_New protocolID cfg) req = Some (h, params)"
    and "run_controller L M B now C (rh_Controller h) m params = Some (m', a)"
  shows "(malformed a \<longleftrightarrow> ParseUint10 32 (the (params ''votingRoundID'')) = None \<or>
      rh_Controller h \<notin> {GetRequest, GetAttestation} \<and> \<not> validateEVMAddress (the (params ''submitAddress''))) \<and>
    (malformed a \<longrightarrow> m' = m)"
  using assms(1,2)
proof (cases rule: dispatched)
  case provider
  show ?thesis using run_provider_bad [OF assms(3) provider(2,1)] provider(1) by auto
next
  case availability
  show ?thesis using run_availability_bad [OF assms(3) availability(2,1)] availability(1) by auto
qed

theorem malformed_requests_witness:
  "run_controller sample_lib sample_merkle sample_payloads
      0 Chain_default GetAttestation empty_manager [''votingRoundID'' \<mapsto> ''x''] = Some (empty_manager, AttestationsAnswer (Inl BadParams)) \<and>
   ParseUint10 32 ''x'' = None"
proof -
  have run: "run_controller sample_lib sample_merkle sample_payloads 0 Chain_default GetAttestation empty_manager [''votingRoundID'' \<mapsto> ''x''] =
      Some (empty_manager, AttestationsAnswer (Inl BadParams))"
    by (simp add: run_controller_def getAttestationController_def validateRoundIDParam_def ParseUint10_def)
  have "malformed (AttestationsAnswer (Inl BadParams))" by (simp add: malformed_def)
  moreover have "malformed (AttestationsAnswer (Inl BadParams)) \<longleftrightarrow> ParseUint10 32 (the ([''votingRoundID'' \<mapsto> ''x''] ''votingRoundID'')) = None"
    using malformed_requests [OF sample_router_ok, OF sample_served [of "''x''"], of sample_lib sample_merkle sample_payloads 0 Chain_default empty_manager
        empty_manager "AttestationsAnswer (Inl BadParams)", unfolded route_handler.simps, OF run] by simp
  ultimately show ?thesis using run by simp
qed

end
