(* ===== verification/Map_Order.thy ===== *)
theory Map_Order
  imports Round
begin

text \<open>
  The consensus bit vote and the order of map iteration. Go leaves the order in which a \<^verbatim>\<open>range\<close> loop visits
  the keys of a map open and changes it from one loop to the next, and all providers have to compute the same
  consensus. The other theories visit keys in the order of insertion; here every such loop of
  \<^verbatim>\<open>preprocess.go\<close>, \<^verbatim>\<open>branchAndBoundBits.go\<close>, \<^verbatim>\<open>branchAndBoundVotes.go\<close> and \<^verbatim>\<open>ensemble.go\<close> takes its order from
  an argument \<open>ord\<close>, which may answer differently for every execution of every loop (\<open>range_loop\<close> tells them
  apart: a loop of a search by the number of operations, which grows from call to call).

  Shown here: for every such \<open>ord\<close> the operations give what those of the other theories give, up to the order
  of what they return, and the consensus bit vote is the same, so that everything shown of it holds for every
  order. Neither weights nor fees are assumed to be in range. The order of the bit votes themselves, in
  contrast, decides between solutions of equal value.
\<close>

section \<open>The loops over maps\<close>

datatype search = Bits_search bool | Votes_search bool

datatype range_loop =
    FilterBits_bits | FilterBits_votes nat
  | FilterVotes_votes | FilterVotes_bits nat
  | FilterBitsOnes_bits | FilterBitsOnes_votes nat
  | AggregateBits_bits | AggregateBits_votes | AggregateBits_values
  | AggregateVotes_bits | AggregateVotes_votes | AggregateVotes_values
  | Prepare search int | Maximize search nat | Fees search | Weights search | Result_votes search | Result_bits search

type_synonym range_order = "range_loop \<Rightarrow> nat list \<Rightarrow> nat list"

definition any_order :: "range_order \<Rightarrow> bool" where
  "any_order ord \<longleftrightarrow> (\<forall>l ks. mset (ord l ks) = mset ks)"

definition filterBits_step_in ::
  "range_order \<Rightarrow> WeightedBitVote list \<Rightarrow> int list \<Rightarrow> u16 \<Rightarrow> FilterResults \<Rightarrow> nat \<Rightarrow> FilterResults" where
  "filterBits_step_in ord bitVotes fees totalWeight fr i =
     (let support = add_weights (\<lambda>j. vote_bit bitVotes j i) (vote_weight bitVotes)
            (ord (FilterBits_votes i) (fr_RemainingVotes fr)) (fr_GuaranteedWeight fr)
      in if support = fr_RemainingWeight fr then
           fr\<lparr>fr_AlwaysInBits := fr_AlwaysInBits fr @ [i],
              fr_GuaranteedFees := fr_GuaranteedFees fr + fees ! i,
              fr_RemainingBits := key_delete i (fr_RemainingBits fr)\<rparr>
         else if support \<le> totalWeight div 2 then
           fr\<lparr>fr_AlwaysOutBits := fr_AlwaysOutBits fr @ [i],
              fr_RemainingBits := key_delete i (fr_RemainingBits fr)\<rparr>
         else fr)"

definition FilterBits_in ::
  "range_order \<Rightarrow> WeightedBitVote list \<Rightarrow> int list \<Rightarrow> u16 \<Rightarrow> FilterResults \<Rightarrow> FilterResults" where
  "FilterBits_in ord bitVotes fees totalWeight fr =
     foldl (filterBits_step_in ord bitVotes fees totalWeight) fr (ord FilterBits_bits (fr_RemainingBits fr))"

definition filterBitsOnes_step_in ::
  "range_order \<Rightarrow> WeightedBitVote list \<Rightarrow> int list \<Rightarrow> FilterResults \<Rightarrow> nat \<Rightarrow> FilterResults" where
  "filterBitsOnes_step_in ord bitVotes fees fr i =
     (if list_ex (\<lambda>j. \<not> vote_bit bitVotes j i) (ord (FilterBitsOnes_votes i) (fr_RemainingVotes fr)) then fr
      else fr\<lparr>fr_AlwaysInBits := fr_AlwaysInBits fr @ [i],
              fr_GuaranteedFees := fr_GuaranteedFees fr + fees ! i,
              fr_RemainingBits := key_delete i (fr_RemainingBits fr)\<rparr>)"

definition FilterBitsOnes_in ::
  "range_order \<Rightarrow> WeightedBitVote list \<Rightarrow> int list \<Rightarrow> FilterResults \<Rightarrow> FilterResults" where
  "FilterBitsOnes_in ord bitVotes fees fr =
     foldl (filterBitsOnes_step_in ord bitVotes fees) fr (ord FilterBitsOnes_bits (fr_RemainingBits fr))"

definition filterVotes_step_in ::
  "range_order \<Rightarrow> WeightedBitVote list \<Rightarrow> FilterResults \<times> bool \<Rightarrow> nat \<Rightarrow> FilterResults \<times> bool" where
  "filterVotes_step_in ord bitVotes = (\<lambda>(fr, somethingChanged) i.
     case filterVotes_flags (bv_BitVector (wbv_BitVote (bitVotes ! i)))
            (ord (FilterVotes_bits i) (fr_RemainingBits fr)) True (length (fr_AlwaysInBits fr) = 0) of
       None \<Rightarrow> (fr, somethingChanged)
     | Some (allOnes, allZeros) \<Rightarrow>
         if allOnes then
           (fr\<lparr>fr_AlwaysInVotes := fr_AlwaysInVotes fr @ [i],
               fr_GuaranteedWeight := fr_GuaranteedWeight fr + vote_weight bitVotes i,
               fr_RemainingVotes := key_delete i (fr_RemainingVotes fr)\<rparr>, True)
         else if allZeros then
           (fr\<lparr>fr_AlwaysOutVotes := fr_AlwaysOutVotes fr @ [i],
               fr_RemainingVotes := key_delete i (fr_RemainingVotes fr)\<rparr>, True)
         else (fr, somethingChanged))"

definition FilterVotes_in ::
  "range_order \<Rightarrow> WeightedBitVote list \<Rightarrow> u16 \<Rightarrow> FilterResults \<Rightarrow> FilterResults \<times> bool" where
  "FilterVotes_in ord bitVotes totalWeight fr =
     foldl (filterVotes_step_in ord bitVotes) (fr, False) (ord FilterVotes_votes (fr_RemainingVotes fr))"

definition Filter_in :: "range_order \<Rightarrow> WeightedBitVote list \<Rightarrow> int list \<Rightarrow> u16 \<Rightarrow> FilterResults" where
  "Filter_in ord bitVotes fees totalWeight =
     (let results = FilterBits_in ord bitVotes fees totalWeight (Filter_init bitVotes fees);
          (results, changed) = FilterVotes_in ord bitVotes totalWeight results
      in if changed then FilterBitsOnes_in ord bitVotes fees results else results)"

definition Values_in :: "range_order \<Rightarrow> range_loop \<Rightarrow> ('k \<times> 'v) list \<Rightarrow> 'v list" where
  "Values_in ord l m = map (\<lambda>i. snd (m ! i)) (ord l [0..<length m])"

definition AggregateBits_in ::
  "range_order \<Rightarrow> WeightedBitVote list \<Rightarrow> int list \<Rightarrow> FilterResults \<Rightarrow> AggregatedBit list" where
  "AggregateBits_in ord bitVotes fees filterResults =
     (let remainingBitsSorted = sort (ord AggregateBits_bits (fr_RemainingBits filterResults));
          remainingVotesSorted = sort (ord AggregateBits_votes (fr_RemainingVotes filterResults))
      in Values_in ord AggregateBits_values
           (foldl (aggregateBits_step bitVotes fees (fr_GuaranteedWeight filterResults) remainingVotesSorted)
             [] remainingBitsSorted))"

definition AggregateVotes_in ::
  "range_order \<Rightarrow> WeightedBitVote list \<Rightarrow> int list \<Rightarrow> FilterResults \<Rightarrow> AggregatedVote list" where
  "AggregateVotes_in ord bitVotes fees filterResults =
     (let remainingBitsSorted = sort (ord AggregateVotes_bits (fr_RemainingBits filterResults));
          remainingVotesSorted = sort (ord AggregateVotes_votes (fr_RemainingVotes filterResults))
      in Values_in ord AggregateVotes_values
           (foldl (aggregateVotes_step bitVotes fees (fr_GuaranteedFees filterResults) remainingBitsSorted)
             [] remainingVotesSorted))"

definition FilterAndAggregate_in ::
  "range_order \<Rightarrow> WeightedBitVote list \<Rightarrow> int list \<Rightarrow> u16 \<Rightarrow> AggregatedVote list \<times> AggregatedBit list \<times> FilterResults" where
  "FilterAndAggregate_in ord bitVotes fees totalWeight =
     (let filterResults = Filter_in ord bitVotes fees totalWeight;
          aggregatedVotes = AggregateVotes_in ord bitVotes fees filterResults;
          aggregatedBits = AggregateBits_in ord bitVotes fees filterResults
      in (aggregatedVotes, aggregatedBits, filterResults))"

section \<open>The searches\<close>

function BranchBits_in ::
  "range_order \<Rightarrow> ProcessInfo \<Rightarrow> SharedStatus \<Rightarrow> nat \<Rightarrow> nat list \<Rightarrow> u16 \<Rightarrow> int \<Rightarrow>
   SharedStatus \<times> branchAndBoundPartialSolution option" where
  "BranchBits_in ord processInfo currentStatus branch includedVotes currentWeight feeSum =
     (let st = add_operations currentStatus 1 in
      if pi_NumAttestations processInfo \<le> branch then
        (let value = CalcValue feeSum currentWeight (pi_TotalWeight processInfo) in
         if Value_Cmp value (ss_CurrentBound st) = 1
         then (st\<lparr>ss_CurrentBound := value\<rparr>,
               Some \<lparr>ps_Votes = includedVotes, ps_Bits = [], ps_Value = value\<rparr>)
         else (st, None))
      else if pi_MaxOperations processInfo \<le> ss_NumOperations st then (st, None)
      else if Value_Cmp (CalcValue feeSum currentWeight (pi_TotalWeight processInfo)) (ss_CurrentBound st) \<noteq> 1
      then (st, None)
      else
        (let (st, result0) =
               (if pi_ExcludeFirst processInfo
                then BranchBits_in ord processInfo (add_operations st 1) (Suc branch) includedVotes currentWeight
                       (feeSum - ab_Fee (pi_Bits processInfo ! branch))
                else (st, None));
             (newIncludedVotes, newCurrentWeight, st) =
               prepareDataForBranchWithOne processInfo st
                 (ord (Prepare (Bits_search (pi_ExcludeFirst processInfo)) (ss_NumOperations st)) includedVotes)
                 currentWeight branch;
             (st, result1) =
               (if pi_LowerBoundWeight processInfo < newCurrentWeight
                then BranchBits_in ord processInfo st (Suc branch) newIncludedVotes newCurrentWeight feeSum
                else (st, None));
             (st, result0) =
               (if \<not> pi_ExcludeFirst processInfo
                then BranchBits_in ord processInfo (add_operations st 1) (Suc branch) includedVotes currentWeight
                       (feeSum - ab_Fee (pi_Bits processInfo ! branch))
                else (st, result0))
         in (st, joinResultsAttestations result0 result1 branch)))"
  by pat_completeness auto
termination
  by (relation "measure (\<lambda>(ord, p, st, branch, v, w, f). pi_NumAttestations p - branch)") auto

declare BranchBits_in.simps [simp del]

function BranchVotes_in ::
  "range_order \<Rightarrow> ProcessInfo \<Rightarrow> SharedStatus \<Rightarrow> nat \<Rightarrow> nat list \<Rightarrow> int \<Rightarrow> u16 \<Rightarrow>
   SharedStatus \<times> branchAndBoundPartialSolution option" where
  "BranchVotes_in ord processInfo currentStatus branch includedBits feeSum weight =
     (let st = add_operations currentStatus 1 in
      if pi_NumProviders processInfo \<le> branch then
        (let value = CalcValue feeSum weight (pi_TotalWeight processInfo) in
         if Value_Cmp value (ss_CurrentBound st) = 1
         then (st\<lparr>ss_CurrentBound := value\<rparr>,
               Some \<lparr>ps_Votes = [], ps_Bits = includedBits, ps_Value = value\<rparr>)
         else (st, None))
      else if pi_MaxOperations processInfo \<le> ss_NumOperations st then (st, None)
      else if Value_Cmp (CalcValue feeSum weight (pi_TotalWeight processInfo)) (ss_CurrentBound st) \<noteq> 1
      then (st, None)
      else
        (let newWeight = weight - av_Weight (pi_BitVotes processInfo ! branch);
             (st, result0) =
               (if pi_ExcludeFirst processInfo \<and> pi_LowerBoundWeight processInfo < newWeight
                then BranchVotes_in ord processInfo st (Suc branch) includedBits feeSum newWeight
                else (st, None));
             (newIncludedBits, newFeeSum, st) =
               prepareDataForBranchWithVote processInfo st
                 (ord (Prepare (Votes_search (pi_ExcludeFirst processInfo)) (ss_NumOperations st)) includedBits)
                 feeSum branch;
             (st, result1) = BranchVotes_in ord processInfo st (Suc branch) newIncludedBits newFeeSum weight;
             (st, result0) =
               (if \<not> pi_ExcludeFirst processInfo
                then (if pi_LowerBoundWeight processInfo < newWeight
                      then BranchVotes_in ord processInfo st (Suc branch) includedBits feeSum newWeight
                      else (st, None))
                else (st, result0))
         in (st, joinResultsVotes result0 result1 branch)))"
  by pat_completeness auto
termination
  by (relation "measure (\<lambda>(ord, p, st, branch, b, f, w). pi_NumProviders p - branch)") auto

declare BranchVotes_in.simps [simp del]

definition CalcValueFromFees_in ::
  "range_order \<Rightarrow> search \<Rightarrow> branchAndBoundPartialSolution \<Rightarrow> AggregatedVote list \<Rightarrow> AggregatedBit list \<Rightarrow> int \<Rightarrow> u16 \<Rightarrow> u16 \<Rightarrow> Value" where
  "CalcValueFromFees_in ord s solution allBitVotes bits assumedFees assumedWeight totalWeight =
     (let feeSum = foldl (\<lambda>acc i. acc + ab_Fee (bits ! i)) assumedFees (ord (Fees s) (ps_Bits solution));
          weight = add_weights (\<lambda>_. True) (\<lambda>j. av_Weight (allBitVotes ! j)) (ord (Weights s) (ps_Votes solution)) assumedWeight
      in CalcValue feeSum weight totalWeight)"

fun maximizeBits_loop_in ::
  "range_order \<Rightarrow> search \<Rightarrow> AggregatedVote list \<Rightarrow> AggregatedBit list \<Rightarrow> nat list \<Rightarrow> nat list \<Rightarrow> nat list \<Rightarrow> nat list" where
  "maximizeBits_loop_in ord s votes bits solVotes [] solBits = solBits"
| "maximizeBits_loop_in ord s votes bits solVotes (i # is) solBits =
     (if i \<notin> set solBits \<and>
         list_all (\<lambda>j. bit (av_BitVector (votes ! j)) (hd (ab_Indexes (bits ! i)))) (ord (Maximize s i) solVotes)
      then maximizeBits_loop_in ord s votes bits solVotes is (key_insert i solBits)
      else maximizeBits_loop_in ord s votes bits solVotes is solBits)"

definition MaximizeBits_in ::
  "range_order \<Rightarrow> search \<Rightarrow> branchAndBoundPartialSolution \<Rightarrow> AggregatedVote list \<Rightarrow> AggregatedBit list \<Rightarrow> int \<Rightarrow> u16 \<Rightarrow> u16 \<Rightarrow>
   branchAndBoundPartialSolution" where
  "MaximizeBits_in ord s solution votes bits assumedFees assumedWeight totalWeight =
     (let solution' = solution\<lparr>ps_Bits :=
            maximizeBits_loop_in ord s votes bits (ps_Votes solution) [0..<length bits] (ps_Bits solution)\<rparr>
      in solution'\<lparr>ps_Value :=
           CalcValueFromFees_in ord s solution' votes bits assumedFees assumedWeight totalWeight\<rparr>)"

fun maximizeVotes_loop_in ::
  "range_order \<Rightarrow> search \<Rightarrow> AggregatedVote list \<Rightarrow> AggregatedBit list \<Rightarrow> nat list \<Rightarrow> nat list \<Rightarrow> nat list \<Rightarrow> nat list" where
  "maximizeVotes_loop_in ord s votes bits solBits [] solVotes = solVotes"
| "maximizeVotes_loop_in ord s votes bits solBits (i # is) solVotes =
     (if i \<notin> set solVotes \<and>
         list_all (\<lambda>j. bit (av_BitVector (votes ! i)) (hd (ab_Indexes (bits ! j)))) (ord (Maximize s i) solBits)
      then maximizeVotes_loop_in ord s votes bits solBits is (key_insert i solVotes)
      else maximizeVotes_loop_in ord s votes bits solBits is solVotes)"

definition MaximizeVotes_in ::
  "range_order \<Rightarrow> search \<Rightarrow> branchAndBoundPartialSolution \<Rightarrow> AggregatedVote list \<Rightarrow> AggregatedBit list \<Rightarrow> int \<Rightarrow> u16 \<Rightarrow> u16 \<Rightarrow>
   branchAndBoundPartialSolution" where
  "MaximizeVotes_in ord s solution votes bits assumedFees assumedWeight totalWeight =
     (let solution' = solution\<lparr>ps_Votes :=
            maximizeVotes_loop_in ord s votes bits (ps_Bits solution) [0..<length votes] (ps_Votes solution)\<rparr>
      in solution'\<lparr>ps_Value :=
           CalcValueFromFees_in ord s solution' votes bits assumedFees assumedWeight totalWeight\<rparr>)"

definition BranchAndBoundBits_in ::
  "range_order \<Rightarrow> AggregatedVote list \<Rightarrow> AggregatedBit list \<Rightarrow> u16 \<Rightarrow> u16 \<Rightarrow> u16 \<Rightarrow> int \<Rightarrow> int \<Rightarrow> Value \<Rightarrow> bool \<Rightarrow> ConsensusSolution" where
  "BranchAndBoundBits_in ord bitVotes bits assumedWeight weightVoted absoluteTotalWeight assumedFees maxOperations
     initialBound excludeBitFirst =
     (let includedVotes = [0..<length bitVotes];
          totalFee = foldl (\<lambda>acc b. acc + ab_Fee b) assumedFees bits;
          currentStatus = \<lparr>ss_CurrentBound = initialBound, ss_NumOperations = 0\<rparr>;
          processInfo = \<lparr>pi_TotalWeight = absoluteTotalWeight,
            pi_LowerBoundWeight = absoluteTotalWeight div 2,
            pi_BitVotes = bitVotes, pi_Bits = bits,
            pi_NumAttestations = length bits, pi_NumProviders = length bitVotes,
            pi_MaxOperations = maxOperations, pi_ExcludeFirst = excludeBitFirst\<rparr>;
          (status, provisionalResult) =
            BranchBits_in ord processInfo currentStatus 0 includedVotes weightVoted totalFee;
          isOptimal = (ss_NumOperations status < maxOperations);
          s = Bits_search excludeBitFirst
      in case provisionalResult of
           None \<Rightarrow> \<lparr>cs_Votes = bitVotes, cs_Bits = [], cs_Value = Value 0 0, cs_Optimal = False\<rparr>
         | Some r \<Rightarrow>
             (let r = (if \<not> isOptimal
                       then MaximizeBits_in ord s r bitVotes bits assumedFees assumedWeight absoluteTotalWeight
                       else r)
              in \<lparr>cs_Votes = map ((!) bitVotes) (ord (Result_votes s) (ps_Votes r)),
                  cs_Bits = map ((!) bits) (ord (Result_bits s) (ps_Bits r)),
                  cs_Value = ps_Value r, cs_Optimal = isOptimal\<rparr>))"

definition BranchAndBoundVotes_in ::
  "range_order \<Rightarrow> AggregatedVote list \<Rightarrow> AggregatedBit list \<Rightarrow> u16 \<Rightarrow> u16 \<Rightarrow> u16 \<Rightarrow> int \<Rightarrow> int \<Rightarrow> Value \<Rightarrow> bool \<Rightarrow> ConsensusSolution" where
  "BranchAndBoundVotes_in ord bitVotes bits assumedWeight weightVoted absoluteTotalWeight assumedFees maxOperations
     initialBound strategy =
     (let totalFee = foldl (\<lambda>acc b. acc + ab_Fee b) assumedFees bits;
          includedBits = [0..<length bits];
          currentStatus = \<lparr>ss_CurrentBound = initialBound, ss_NumOperations = 0\<rparr>;
          processInfo = \<lparr>pi_TotalWeight = absoluteTotalWeight,
            pi_LowerBoundWeight = absoluteTotalWeight div 2,
            pi_BitVotes = bitVotes, pi_Bits = bits,
            pi_NumAttestations = length bits, pi_NumProviders = length bitVotes,
            pi_MaxOperations = maxOperations, pi_ExcludeFirst = strategy\<rparr>;
          (status, provisionalResult) =
            BranchVotes_in ord processInfo currentStatus 0 includedBits totalFee weightVoted;
          isOptimal = (ss_NumOperations status < maxOperations);
          s = Votes_search strategy
      in case provisionalResult of
           None \<Rightarrow> \<lparr>cs_Votes = bitVotes, cs_Bits = [], cs_Value = Value 0 0, cs_Optimal = False\<rparr>
         | Some r \<Rightarrow>
             (let r = (if \<not> isOptimal
                       then MaximizeVotes_in ord s r bitVotes bits assumedFees assumedWeight absoluteTotalWeight
                       else r)
              in \<lparr>cs_Votes = map ((!) bitVotes) (ord (Result_votes s) (ps_Votes r)),
                  cs_Bits = map ((!) bits) (ord (Result_bits s) (ps_Bits r)),
                  cs_Value = ps_Value r, cs_Optimal = isOptimal\<rparr>))"

definition BranchAndBoundBitsDouble_in :: "range_order \<Rightarrow> solver_fun" where
  "BranchAndBoundBitsDouble_in ord bitVotes bits assumedWeight weightVoted absoluteTotalWeight assumedFees
     maxOperations initialBound =
     (let bitsAscVal = sortFees bits (cmpValAsc absoluteTotalWeight);
          bitsDscVal = sortFees bits (cmpValDsc absoluteTotalWeight);
          solution0 = BranchAndBoundBits_in ord bitVotes bitsDscVal assumedWeight weightVoted absoluteTotalWeight
            assumedFees maxOperations initialBound False;
          solution1 = BranchAndBoundBits_in ord bitVotes bitsAscVal assumedWeight weightVoted absoluteTotalWeight
            assumedFees maxOperations initialBound True
      in if cs_Optimal solution0 then solution0
         else if Value_Cmp (cs_Value solution0) (cs_Value solution1) = -1 then solution1
         else solution0)"

definition BranchAndBoundVotesDouble_in :: "range_order \<Rightarrow> solver_fun" where
  "BranchAndBoundVotesDouble_in ord bitVotes bits assumedWeight weightVoted absoluteTotalWeight assumedFees
     maxOperations initialBound =
     (let votesAscVal = sortVotes bitVotes cmpValVoteAsc;
          votesDscVal = sortVotes bitVotes cmpValVoteDsc;
          solution0 = BranchAndBoundVotes_in ord votesDscVal bits assumedWeight weightVoted absoluteTotalWeight
            assumedFees maxOperations (Value_Copy initialBound) False;
          solution1 = BranchAndBoundVotes_in ord votesAscVal bits assumedWeight weightVoted absoluteTotalWeight
            assumedFees maxOperations (Value_Copy initialBound) True
      in if cs_Optimal solution0 then solution0
         else if Value_Cmp (cs_Value solution0) (cs_Value solution1) = -1 then solution1
         else solution0)"

definition ensemble_in ::
  "range_order \<Rightarrow> WeightedBitVote list \<Rightarrow> int list \<Rightarrow> u16 \<Rightarrow> int \<Rightarrow> ConsensusError + FilterResults \<times> ConsensusSolution" where
  "ensemble_in ord allBitVotes fees totalWeight maxOperations =
     (let (aggregatedVotes, aggregatedFees, filterResults) = FilterAndAggregate_in ord allBitVotes fees totalWeight;
          (method0, method1) =
            (if length aggregatedVotes < length aggregatedFees
             then (BranchAndBoundVotesDouble_in ord, BranchAndBoundBitsDouble_in ord)
             else (BranchAndBoundBitsDouble_in ord, BranchAndBoundVotesDouble_in ord));
          weightVoted = add_weights (\<lambda>_. True) av_Weight aggregatedVotes (fr_GuaranteedWeight filterResults)
      in if weightVoted \<le> totalWeight div 2 then Inl (OnlyVoted weightVoted totalWeight)
         else
           let solution = method0 aggregatedVotes aggregatedFees (fr_GuaranteedWeight filterResults) weightVoted
                 totalWeight (fr_GuaranteedFees filterResults) maxOperations (Value 0 0);
               solution =
                 (if \<not> cs_Optimal solution then
                    let solution2 = method1 aggregatedVotes aggregatedFees (fr_GuaranteedWeight filterResults)
                          weightVoted totalWeight (fr_GuaranteedFees filterResults) maxOperations
                          (Value_Copy (cs_Value solution))
                    in if Value_Cmp (cs_Value solution2) (cs_Value solution) = 1 then solution2 else solution
                  else solution)
           in Inr (filterResults, solution))"

definition EnsembleConsensusBitVote_in ::
  "range_order \<Rightarrow> WeightedBitVote list \<Rightarrow> int list \<Rightarrow> u16 \<Rightarrow> int \<Rightarrow> ConsensusError + BitVote" where
  "EnsembleConsensusBitVote_in ord allBitVotes fees totalWeight maxOperations =
     (case ensemble_in ord allBitVotes fees totalWeight maxOperations of
        Inl err \<Rightarrow> Inl err
      | Inr (filterResults, filterSolution) \<Rightarrow>
          Inr (AssembleSolution filterResults filterSolution (of_nat (length fees))))"

section \<open>Preprocessing in any order\<close>

lemma any_orderD:
  assumes "any_order ord"
  shows "mset (ord l ks) = mset ks" "set (ord l ks) = set ks" "length (ord l ks) = length ks"
    "distinct (ord l ks) = distinct ks" "sort (ord l ks) = sort ks"
proof -
  show m: "mset (ord l ks) = mset ks" using assms by (simp add: any_order_def)
  show "set (ord l ks) = set ks" by (rule mset_eq_setD [OF m])
  show "length (ord l ks) = length ks" by (rule mset_eq_length [OF m])
  show "distinct (ord l ks) = distinct ks" by (rule mset_eq_imp_distinct_iff [OF m])
  show "sort (ord l ks) = sort ks" by (rule properties_for_sort) (simp_all add: m)
qed

text \<open>Equal but for the order of what has been settled.\<close>

definition same_filter :: "FilterResults \<Rightarrow> FilterResults \<Rightarrow> bool" where
  "same_filter fr fr' \<longleftrightarrow>
     mset (fr_AlwaysInBits fr) = mset (fr_AlwaysInBits fr') \<and> mset (fr_AlwaysOutBits fr) = mset (fr_AlwaysOutBits fr') \<and>
     mset (fr_AlwaysInVotes fr) = mset (fr_AlwaysInVotes fr') \<and> mset (fr_AlwaysOutVotes fr) = mset (fr_AlwaysOutVotes fr') \<and>
     fr_RemainingBits fr = fr_RemainingBits fr' \<and> fr_RemainingVotes fr = fr_RemainingVotes fr' \<and>
     fr_GuaranteedFees fr = fr_GuaranteedFees fr' \<and> fr_GuaranteedWeight fr = fr_GuaranteedWeight fr' \<and>
     fr_RemainingWeight fr = fr_RemainingWeight fr'"

lemma same_filter_refl [simp]: "same_filter fr fr"
  by (simp add: same_filter_def)

text \<open>The inner loops only add up or look for a vote or a bit.\<close>

lemma steps_in:
  assumes "any_order ord"
  shows "filterBits_step_in ord = filterBits_step" "filterBitsOnes_step_in ord = filterBitsOnes_step"
    "filterVotes_step_in ord = filterVotes_step"
proof -
  note D = any_orderD [OF assms]
  show "filterBits_step_in ord = filterBits_step"
    by (simp add: fun_eq_iff filterBits_step_in_def filterBits_step_def Let_def add_weights_mset [OF D(1)])
  show "filterBitsOnes_step_in ord = filterBitsOnes_step"
    by (simp add: fun_eq_iff filterBitsOnes_step_in_def filterBitsOnes_step_def list_ex_iff D(2))
  have "filterVotes_step_in ord bitVotes (fr, c) i =
     (if vote_in bitVotes fr i then
        (fr\<lparr>fr_AlwaysInVotes := fr_AlwaysInVotes fr @ [i],
            fr_GuaranteedWeight := fr_GuaranteedWeight fr + vote_weight bitVotes i,
            fr_RemainingVotes := key_delete i (fr_RemainingVotes fr)\<rparr>, True)
      else if vote_out bitVotes fr i then
        (fr\<lparr>fr_AlwaysOutVotes := fr_AlwaysOutVotes fr @ [i],
            fr_RemainingVotes := key_delete i (fr_RemainingVotes fr)\<rparr>, True)
      else (fr, c))" for bitVotes fr c i
  proof -
    let ?bv = "bv_BitVector (wbv_BitVote (bitVotes ! i))" and ?bits = "ord (FilterVotes_bits i) (fr_RemainingBits fr)"
    show ?thesis
    proof (cases "filterVotes_flags ?bv ?bits True (length (fr_AlwaysInBits fr) = 0)")
      case None
      from filterVotes_flags_None [OF None] have "\<not> vote_in bitVotes fr i" "\<not> vote_out bitVotes fr i"
        by (auto simp: vote_in_def vote_out_def D(2))
      with None show ?thesis by (simp add: filterVotes_step_in_def)
    next
      case (Some p)
      from filterVotes_flags_Some [OF Some] Some show ?thesis
        by (simp add: filterVotes_step_in_def vote_in_def vote_out_def D(2))
    qed
  qed
  then have "filterVotes_step_in ord bitVotes p i = filterVotes_step bitVotes p i" for bitVotes p i
    by (cases p) (simp only: filterVotes_step_classes)
  then show "filterVotes_step_in ord = filterVotes_step" by blast
qed

lemma FilterBits_same:
  assumes "any_order ord"
  shows "same_filter (FilterBits_in ord votes fees T fr) (FilterBits votes fees T fr)"
  by (simp add: FilterBits_in_def FilterBits_def steps_in [OF assms] foldl_filterBits_step same_filter_def
      any_orderD [OF assms] sum_list_eq_sum_mset)


text \<open>The later filters depend on the earlier ones only up to that order.\<close>

lemma classes_same:
  assumes "same_filter fr fr'"
  shows "vote_in votes fr = vote_in votes fr'" "vote_out votes fr = vote_out votes fr'" "bit_ones votes fr = bit_ones votes fr'"
proof -
  have "fr_AlwaysInBits fr = [] \<longleftrightarrow> fr_AlwaysInBits fr' = []"
    using assms unfolding same_filter_def by (metis mset_zero_iff)
  with assms show "vote_in votes fr = vote_in votes fr'" "vote_out votes fr = vote_out votes fr'" "bit_ones votes fr = bit_ones votes fr'"
    by (simp_all add: fun_eq_iff filter_classes same_filter_def)
qed

lemma FilterBitsOnes_same:
  assumes "any_order ord" "same_filter fr fr'"
  shows "same_filter (FilterBitsOnes_in ord votes fees fr) (FilterBitsOnes votes fees fr')"
  using assms(2)
  by (simp add: FilterBitsOnes_in_def FilterBitsOnes_def steps_in [OF assms(1)] foldl_filterBitsOnes_step same_filter_def
      any_orderD [OF assms(1)] sum_list_eq_sum_mset classes_same [OF assms(2)])

lemma FilterVotes_same:
  assumes "any_order ord" "same_filter fr fr'"
  shows "same_filter (fst (FilterVotes_in ord votes T fr)) (fst (FilterVotes votes T fr'))"
    "snd (FilterVotes_in ord votes T fr) = snd (FilterVotes votes T fr')"
  using assms(2)
  by (simp_all add: FilterVotes_in_def FilterVotes_def steps_in [OF assms(1)] foldl_filterVotes_step same_filter_def
      any_orderD [OF assms(1)] add_weights_mset [OF any_orderD(1) [OF assms(1)]] classes_same [OF assms(2)])

lemma Filter_same:
  assumes "any_order ord"
  shows "same_filter (Filter_in ord votes fees T) (Filter votes fees T)"
proof -
  note F = FilterVotes_same [OF assms FilterBits_same [OF assms, of votes fees T "Filter_init votes fees"], of votes T]
  show ?thesis
    using F FilterBitsOnes_same [OF assms F(1), of votes fees]
    by (simp add: Filter_in_def Filter_def Let_def case_prod_beta)
qed

lemma Filter_remaining_distinct:
  "distinct (fr_RemainingBits (Filter votes fees T))" "distinct (fr_RemainingVotes (Filter votes fees T))"
  by (simp_all add: Filter_def Let_def FilterBits_def FilterVotes_def FilterBitsOnes_def Filter_init_def
      foldl_filterBits_step foldl_filterVotes_step foldl_filterBitsOnes_step)

lemma mset_Values_in:
  assumes "any_order ord"
  shows "mset (Values_in ord l m) = mset (map snd m)"
proof -
  have "mset (Values_in ord l m) = image_mset (\<lambda>i. snd (m ! i)) (mset [0..<length m])"
    unfolding Values_in_def by (simp add: any_orderD [OF assms] del: mset_upt)
  also have "\<dots> = mset (map snd (map ((!) m) [0..<length m]))" by (simp add: comp_def del: map_nth)
  finally show ?thesis by (simp only: map_nth)
qed

lemma Aggregate_same:
  assumes "any_order ord" "same_filter fr fr'"
  shows "mset (AggregateBits_in ord votes fees fr) = mset (AggregateBits votes fees fr')"
    "mset (AggregateVotes_in ord votes fees fr) = mset (AggregateVotes votes fees fr')"
  using assms(2)
  by (simp_all add: AggregateBits_in_def AggregateBits_def AggregateVotes_in_def AggregateVotes_def Let_def
      mset_Values_in [OF assms(1)] any_orderD [OF assms(1)] same_filter_def del: mset_map)
section \<open>The searches in any order\<close>

text \<open>
  The elements that two lists of indices pick from two lists are the same. Both searches depend on the list
  they do not branch on only through the elements they have picked from it.
\<close>

definition same_pick :: "'a list \<Rightarrow> nat list \<Rightarrow> 'a list \<Rightarrow> nat list \<Rightarrow> bool" where
  "same_pick xs is ys js \<longleftrightarrow> mset (map ((!) xs) is) = mset (map ((!) ys) js) \<and> distinct is \<and> distinct js"

lemma same_pick_all: "mset xs = mset ys \<Longrightarrow> same_pick xs [0..<length xs] ys [0..<length ys]"
  by (simp add: same_pick_def map_nth del: mset_map)

lemma same_pick_in: "any_order ord \<Longrightarrow> same_pick xs is ys js \<Longrightarrow> same_pick xs (ord l is) ys js"
  by (simp add: same_pick_def any_orderD)

lemma same_pick_length: "same_pick xs is ys js \<Longrightarrow> length is = length js"
  unfolding same_pick_def by (metis length_map mset_eq_length)

lemma same_pick_filter:
  assumes "same_pick xs is ys js"
  shows "same_pick xs (filter (\<lambda>i. P (xs ! i)) is) ys (filter (\<lambda>j. P (ys ! j)) js)"
proof -
  have pick: "map ((!) zs) (filter (\<lambda>i. P (zs ! i)) ks) = filter P (map ((!) zs) ks)" for zs ks by (simp add: filter_map comp_def)
  show ?thesis using assms unfolding same_pick_def pick by (simp add: mset_filter del: mset_map)
qed

lemma same_pick_sum:
  fixes f :: "'a \<Rightarrow> 'b::comm_monoid_add"
  assumes "same_pick xs is ys js"
  shows "sum_list (map (\<lambda>i. f (xs ! i)) is) = sum_list (map (\<lambda>j. f (ys ! j)) js)"
  using sum_list_mset [of "map ((!) xs) is" "map ((!) ys) js" f] assms by (simp add: same_pick_def comp_def)

lemma same_pick_all_iff:
  assumes "same_pick xs is ys js"
  shows "(\<forall>i\<in>set is. P (xs ! i)) \<longleftrightarrow> (\<forall>j\<in>set js. P (ys ! j))"
proof -
  have "set (map ((!) xs) is) = set (map ((!) ys) js)" using assms unfolding same_pick_def by (blast dest: mset_eq_setD)
  then have "(\<forall>x\<in>(!) xs ` set is. P x) \<longleftrightarrow> (\<forall>x\<in>(!) ys ` set js. P x)" by simp
  then show ?thesis by simp
qed

lemma withOne_loop_eq:
  "distinct (is @ nv) \<Longrightarrow>
   withOne_loop votes b is nv w =
     (nv @ filter (\<lambda>i. bit (av_BitVector (votes ! i)) b) is,
      w - sum_list (map (\<lambda>i. av_Weight (votes ! i)) (filter (\<lambda>i. \<not> bit (av_BitVector (votes ! i)) b) is)))"
  by (induction votes b "is" nv w rule: withOne_loop.induct) (auto simp: key_insert_def)

lemma rel_outcomeD: "rel_prod (=) R x y \<Longrightarrow> \<exists>st r r'. x = (st, r) \<and> y = (st, r') \<and> R r r'"
  by (cases x; cases y) auto

definition same_bits_result ::
  "AggregatedVote list \<Rightarrow> AggregatedVote list \<Rightarrow> branchAndBoundPartialSolution \<Rightarrow> branchAndBoundPartialSolution \<Rightarrow> bool" where
  "same_bits_result votes votes' r r' \<longleftrightarrow>
     ps_Value r = ps_Value r' \<and> ps_Bits r = ps_Bits r' \<and> same_pick votes (ps_Votes r) votes' (ps_Votes r')"

lemma join_bits_same:
  assumes "rel_option (same_bits_result votes votes') r0 r0'" "rel_option (same_bits_result votes votes') r1 r1'"
  shows "rel_option (same_bits_result votes votes') (joinResultsAttestations r0 r1 k) (joinResultsAttestations r0' r1' k)"
  using assms by (cases r0; cases r0'; cases r1; cases r1') (auto simp: joinResultsAttestations_def same_bits_result_def)

lemma prepareOne_same:
  assumes pick: "same_pick votes vs votes' vs'" and ord: "any_order ord"
  obtains nvs nvs' nw st' where
    "prepareDataForBranchWithOne (p\<lparr>pi_BitVotes := votes\<rparr>) st (ord l vs) w k = (nvs, nw, st')"
    "prepareDataForBranchWithOne (p\<lparr>pi_BitVotes := votes'\<rparr>) st vs' w k = (nvs', nw, st')"
    "same_pick votes nvs votes' nvs'"
proof -
  have pick': "same_pick votes (ord l vs) votes' vs'" by (rule same_pick_in [OF ord pick])
  have d: "distinct (ord l vs)" "distinct vs'" using pick' by (simp_all add: same_pick_def)
  let ?b = "hd (ab_Indexes (pi_Bits p ! k))"
  let ?P = "\<lambda>v. bit (av_BitVector v) ?b"
  show thesis
    by (rule that [OF _ _ same_pick_filter [OF pick', of ?P], where nw = "w - sum_list (map (\<lambda>j. av_Weight (votes' ! j)) (filter (\<lambda>j. \<not> ?P (votes' ! j)) vs'))"
          and st' = "add_operations st (int (length vs' div 2))"])
      (simp_all add: prepareDataForBranchWithOne_def withOne_loop_eq d same_pick_length [OF pick'] Let_def
        same_pick_sum [OF same_pick_filter [OF pick', of "\<lambda>v. \<not> ?P v"]])
qed

lemma BranchBits_same:
  assumes ord: "any_order ord" and "same_pick votes vs votes' vs'"
  shows "rel_prod (=) (rel_option (same_bits_result votes votes'))
    (BranchBits_in ord (p\<lparr>pi_BitVotes := votes\<rparr>) st k vs w f) (BranchBits (p\<lparr>pi_BitVotes := votes'\<rparr>) st k vs' w f)"
  using assms(2)
proof (induction "pi_NumAttestations p - k" arbitrary: st k vs vs' w f)
  case 0
  then show ?case
    by (simp add: BranchBits_in.simps [of _ _ _ k] BranchBits.simps [of _ _ k] Let_def same_bits_result_def)
next
  case (Suc n)
  let ?R = "rel_option (same_bits_result votes votes')"
  let ?A = "\<lambda>st. BranchBits_in ord (p\<lparr>pi_BitVotes := votes\<rparr>) st (Suc k)" and ?B = "\<lambda>st. BranchBits (p\<lparr>pi_BitVotes := votes'\<rparr>) st (Suc k)"
  have k: "\<not> pi_NumAttestations p \<le> k" "n = pi_NumAttestations p - Suc k" using Suc.hyps(2) by simp_all
  have IH: "\<exists>st1 r r'. ?A st vs w f = (st1, r) \<and> ?B st vs' w f = (st1, r') \<and> ?R r r'"
    if "same_pick votes vs votes' vs'" for st vs vs' w f
    by (rule rel_outcomeD [OF Suc.hyps(1) [OF k(2) that]])
  note prep = prepareOne_same [OF Suc.prems ord]
  show ?case
  proof (cases "pi_ExcludeFirst p")
    case True
    obtain st0 r0 r0' where 0: "?A (add_operations (add_operations st 1) 1) vs w (f - ab_Fee (pi_Bits p ! k)) = (st0, r0)"
      "?B (add_operations (add_operations st 1) 1) vs' w (f - ab_Fee (pi_Bits p ! k)) = (st0, r0')" "?R r0 r0'"
      using IH [OF Suc.prems] by blast
    obtain nvs nvs' nw st1 where 1: "prepareDataForBranchWithOne (p\<lparr>pi_BitVotes := votes\<rparr>) st0
        (ord (Prepare (Bits_search True) (ss_NumOperations st0)) vs) w k = (nvs, nw, st1)"
      "prepareDataForBranchWithOne (p\<lparr>pi_BitVotes := votes'\<rparr>) st0 vs' w k = (nvs', nw, st1)" "same_pick votes nvs votes' nvs'"
      by (rule prep)
    obtain st2 r1 r1' where 2: "?A st1 nvs nw f = (st2, r1)" "?B st1 nvs' nw f = (st2, r1')" "?R r1 r1'"
      using IH [OF 1(3)] by blast
    show ?thesis
      using k(1) True 0 1(1,2) 2
      by (simp add: BranchBits_in.simps [of _ _ st k] BranchBits.simps [of _ st k] Let_def join_bits_same)
  next
    case False
    obtain nvs nvs' nw st1 where 1: "prepareDataForBranchWithOne (p\<lparr>pi_BitVotes := votes\<rparr>) (add_operations st 1)
        (ord (Prepare (Bits_search False) (ss_NumOperations (add_operations st 1))) vs) w k = (nvs, nw, st1)"
      "prepareDataForBranchWithOne (p\<lparr>pi_BitVotes := votes'\<rparr>) (add_operations st 1) vs' w k = (nvs', nw, st1)" "same_pick votes nvs votes' nvs'"
      by (rule prep)
    define inc where "inc = (if pi_LowerBoundWeight p < nw then ?A st1 nvs nw f else (st1, None))"
    define inc' where "inc' = (if pi_LowerBoundWeight p < nw then ?B st1 nvs' nw f else (st1, None))"
    obtain st2 r1 r1' where 2: "inc = (st2, r1)" "inc' = (st2, r1')" "?R r1 r1'"
      using IH [OF 1(3), of st1 nw f] unfolding inc_def inc'_def by (cases "pi_LowerBoundWeight p < nw") auto
    obtain st3 r0 r0' where 3: "?A (add_operations st2 1) vs w (f - ab_Fee (pi_Bits p ! k)) = (st3, r0)"
      "?B (add_operations st2 1) vs' w (f - ab_Fee (pi_Bits p ! k)) = (st3, r0')" "?R r0 r0'"
      using IH [OF Suc.prems] by blast
    show ?thesis
      using k(1) False 1(1,2) 2 [unfolded inc_def inc'_def] 3
      by (simp add: BranchBits_in.simps [of _ _ st k] BranchBits.simps [of _ st k] Let_def join_bits_same)
  qed
qed

definition same_votes_result ::
  "AggregatedBit list \<Rightarrow> AggregatedBit list \<Rightarrow> branchAndBoundPartialSolution \<Rightarrow> branchAndBoundPartialSolution \<Rightarrow> bool" where
  "same_votes_result bits bits' r r' \<longleftrightarrow>
     ps_Value r = ps_Value r' \<and> ps_Votes r = ps_Votes r' \<and> same_pick bits (ps_Bits r) bits' (ps_Bits r')"

lemma join_votes_same:
  assumes "rel_option (same_votes_result bits bits') r0 r0'" "rel_option (same_votes_result bits bits') r1 r1'"
  shows "rel_option (same_votes_result bits bits') (joinResultsVotes r0 r1 k) (joinResultsVotes r0' r1' k)"
  using assms by (cases r0; cases r0'; cases r1; cases r1') (auto simp: joinResultsVotes_def same_votes_result_def)

lemma prepareVote_same:
  assumes pick: "same_pick bits bs bits' bs'" and ord: "any_order ord"
  obtains nbs nbs' nf st' where
    "prepareDataForBranchWithVote (p\<lparr>pi_Bits := bits\<rparr>) st (ord l bs) f k = (nbs, nf, st')"
    "prepareDataForBranchWithVote (p\<lparr>pi_Bits := bits'\<rparr>) st bs' f k = (nbs', nf, st')"
    "same_pick bits nbs bits' nbs'"
proof -
  have pick': "same_pick bits (ord l bs) bits' bs'" by (rule same_pick_in [OF ord pick])
  have d: "distinct (ord l bs)" "distinct bs'" using pick' by (simp_all add: same_pick_def)
  let ?P = "has_bit (pi_BitVotes p ! k)"
  note yes = same_pick_filter [OF pick', of ?P] and no = same_pick_filter [OF pick', of "\<lambda>b. \<not> ?P b"]
  note eq = withVote_loop_eq [of _ "[]" "p\<lparr>pi_Bits := _\<rparr>" k, simplified]
  show thesis
    by (rule that [OF _ _ yes, where nf = "f - sum_list (map (\<lambda>b. ab_Fee (bits' ! b)) (filter (\<lambda>b. \<not> ?P (bits' ! b)) bs'))"
          and st' = "add_operations st (int (length (filter (\<lambda>b. \<not> ?P (bits' ! b)) bs')) + int (length (filter (\<lambda>b. ?P (bits' ! b)) bs') div 2))"])
      (simp_all add: prepareDataForBranchWithVote_def eq d same_pick_length [OF yes] same_pick_length [OF no]
        same_pick_sum [OF no] add.assoc)
qed

lemma BranchVotes_same:
  assumes ord: "any_order ord" and "same_pick bits bs bits' bs'"
  shows "rel_prod (=) (rel_option (same_votes_result bits bits'))
    (BranchVotes_in ord (p\<lparr>pi_Bits := bits\<rparr>) st k bs f w) (BranchVotes (p\<lparr>pi_Bits := bits'\<rparr>) st k bs' f w)"
  using assms(2)
proof (induction "pi_NumProviders p - k" arbitrary: st k bs bs' w f)
  case 0
  then show ?case
    by (simp add: BranchVotes_in.simps [of _ _ _ k] BranchVotes.simps [of _ _ k] Let_def same_votes_result_def)
next
  case (Suc n)
  let ?R = "rel_option (same_votes_result bits bits')"
  let ?A = "\<lambda>st. BranchVotes_in ord (p\<lparr>pi_Bits := bits\<rparr>) st (Suc k)" and ?B = "\<lambda>st. BranchVotes (p\<lparr>pi_Bits := bits'\<rparr>) st (Suc k)"
  let ?nw = "w - av_Weight (pi_BitVotes p ! k)"
  let ?go = "pi_LowerBoundWeight p < ?nw"
  have k: "\<not> pi_NumProviders p \<le> k" "n = pi_NumProviders p - Suc k" using Suc.hyps(2) by simp_all
  have IH: "\<exists>st1 r r'. ?A st bs f w = (st1, r) \<and> ?B st bs' f w = (st1, r') \<and> ?R r r'"
    if "same_pick bits bs bits' bs'" for st bs bs' w f
    by (rule rel_outcomeD [OF Suc.hyps(1) [OF k(2) that]])
  note prep = prepareVote_same [OF Suc.prems ord]
  have excl: "\<exists>st1 r r'. (if ?go then ?A st bs f ?nw else (st, None)) = (st1, r) \<and>
      (if ?go then ?B st bs' f ?nw else (st, None)) = (st1, r') \<and> ?R r r'" for st
    using IH [OF Suc.prems, of st f ?nw] by (cases ?go) auto
  show ?case
  proof (cases "pi_ExcludeFirst p")
    case True
    obtain st0 r0 r0' where 0: "(if ?go then ?A (add_operations st 1) bs f ?nw else (add_operations st 1, None)) = (st0, r0)"
      "(if ?go then ?B (add_operations st 1) bs' f ?nw else (add_operations st 1, None)) = (st0, r0')" "?R r0 r0'"
      using excl by blast
    obtain nbs nbs' nf st1 where 1: "prepareDataForBranchWithVote (p\<lparr>pi_Bits := bits\<rparr>) st0
        (ord (Prepare (Votes_search True) (ss_NumOperations st0)) bs) f k = (nbs, nf, st1)"
      "prepareDataForBranchWithVote (p\<lparr>pi_Bits := bits'\<rparr>) st0 bs' f k = (nbs', nf, st1)" "same_pick bits nbs bits' nbs'"
      by (rule prep)
    obtain st2 r1 r1' where 2: "?A st1 nbs nf w = (st2, r1)" "?B st1 nbs' nf w = (st2, r1')" "?R r1 r1'"
      using IH [OF 1(3)] by blast
    show ?thesis
      using k(1) True 0 1(1,2) 2
      by (simp add: BranchVotes_in.simps [of _ _ st k] BranchVotes.simps [of _ st k] Let_def join_votes_same)
  next
    case False
    obtain nbs nbs' nf st1 where 1: "prepareDataForBranchWithVote (p\<lparr>pi_Bits := bits\<rparr>) (add_operations st 1)
        (ord (Prepare (Votes_search False) (ss_NumOperations (add_operations st 1))) bs) f k = (nbs, nf, st1)"
      "prepareDataForBranchWithVote (p\<lparr>pi_Bits := bits'\<rparr>) (add_operations st 1) bs' f k = (nbs', nf, st1)" "same_pick bits nbs bits' nbs'"
      by (rule prep)
    obtain st2 r1 r1' where 2: "?A st1 nbs nf w = (st2, r1)" "?B st1 nbs' nf w = (st2, r1')" "?R r1 r1'"
      using IH [OF 1(3)] by blast
    obtain st3 r0 r0' where 3: "(if ?go then ?A st2 bs f ?nw else (st2, None)) = (st3, r0)"
      "(if ?go then ?B st2 bs' f ?nw else (st2, None)) = (st3, r0')" "?R r0 r0'"
      using excl by blast
    show ?thesis
      using k(1) False 1(1,2) 2 3
      by (simp add: BranchVotes_in.simps [of _ _ st k] BranchVotes.simps [of _ st k] Let_def join_votes_same)
  qed
qed

section \<open>The solutions in any order\<close>

definition same_solution :: "ConsensusSolution \<Rightarrow> ConsensusSolution \<Rightarrow> bool" where
  "same_solution s s' \<longleftrightarrow> mset (cs_Votes s) = mset (cs_Votes s') \<and> mset (cs_Bits s) = mset (cs_Bits s') \<and>
     cs_Value s = cs_Value s' \<and> cs_Optimal s = cs_Optimal s'"

lemma add_weights_sum: "add_weights (\<lambda>_. True) f ks acc = acc + sum_list (map f ks)"
  by (induction ks arbitrary: acc) (auto simp: add.assoc)

lemma pick_sum:
  fixes f :: "'a \<Rightarrow> 'b::comm_monoid_add"
  assumes "mset (map ((!) xs) is) = mset (map ((!) ys) js)"
  shows "sum_list (map (\<lambda>i. f (xs ! i)) is) = sum_list (map (\<lambda>j. f (ys ! j)) js)"
  using sum_list_mset [OF assms, of f] by (simp add: comp_def)

lemma pick_in: "any_order ord \<Longrightarrow> mset (map f (ord l ks)) = mset (map f ks)"
  by (simp add: any_orderD)

lemma CalcValueFromFees_same:
  assumes ord: "any_order ord"
    and bits: "mset (map ((!) bits) (ps_Bits r)) = mset (map ((!) bits') (ps_Bits r'))"
    and votes: "mset (map ((!) votes) (ps_Votes r)) = mset (map ((!) votes') (ps_Votes r'))"
  shows "CalcValueFromFees_in ord s r votes bits af aw T = CalcValueFromFees r' votes' bits' af aw T"
proof -
  have b: "mset (map ((!) bits) (ord l (ps_Bits r))) = mset (map ((!) bits') (ps_Bits r'))" for l
    by (simp only: pick_in [OF ord] bits)
  have v: "mset (map ((!) votes) (ord l (ps_Votes r))) = mset (map ((!) votes') (ps_Votes r'))" for l
    by (simp only: pick_in [OF ord] votes)
  show ?thesis
    by (simp only: CalcValueFromFees_in_def CalcValueFromFees_def foldl_fees add_weights_sum
        pick_sum [OF b, of ab_Fee] pick_sum [OF v, of av_Weight])
qed

lemma maximizeBits_loop_same:
  assumes "any_order ord" "same_pick votes vs votes' vs'"
  shows "maximizeBits_loop_in ord s votes bits vs is acc = maximizeBits_loop votes' bits vs' is acc"
proof (induction "is" arbitrary: acc)
  case (Cons i "is")
  let ?P = "\<lambda>v. bit (av_BitVector v) (hd (ab_Indexes (bits ! i)))"
  have "list_all (\<lambda>j. ?P (votes ! j)) (ord (Maximize s i) vs) = list_all (\<lambda>j. ?P (votes' ! j)) vs'"
    unfolding list_all_iff any_orderD(2) [OF assms(1)] by (rule same_pick_all_iff [OF assms(2)])
  then show ?case by (simp add: Cons.IH)
qed simp

lemma maximizeVotes_loop_same:
  assumes "any_order ord" "same_pick bits bs bits' bs'"
  shows "maximizeVotes_loop_in ord s votes bits bs is acc = maximizeVotes_loop votes bits' bs' is acc"
proof (induction "is" arbitrary: acc)
  case (Cons i "is")
  let ?P = "has_bit (votes ! i)"
  have "list_all (\<lambda>j. ?P (bits ! j)) (ord (Maximize s i) bs) = list_all (\<lambda>j. ?P (bits' ! j)) bs'"
    unfolding list_all_iff any_orderD(2) [OF assms(1)] by (rule same_pick_all_iff [OF assms(2)])
  then show ?case by (simp add: Cons.IH has_bit_def)
qed simp

lemma MaximizeBits_same:
  assumes ord: "any_order ord" and r: "same_bits_result votes votes' r r'"
  shows "same_bits_result votes votes' (MaximizeBits_in ord s r votes bits af aw T) (MaximizeBits r' votes' bits af aw T)"
proof -
  have loop: "maximizeBits_loop_in ord s votes bits (ps_Votes r) [0..<length bits] (ps_Bits r) =
      maximizeBits_loop votes' bits (ps_Votes r') [0..<length bits] (ps_Bits r')"
    using r maximizeBits_loop_same [OF ord] by (simp add: same_bits_result_def)
  show ?thesis
    using r unfolding MaximizeBits_in_def MaximizeBits_def Let_def loop
    by (simp add: same_bits_result_def same_pick_def CalcValueFromFees_same [OF ord] del: mset_map)
qed

lemma MaximizeVotes_same:
  assumes ord: "any_order ord" and r: "same_votes_result bits bits' r r'"
  shows "same_votes_result bits bits' (MaximizeVotes_in ord s r votes bits af aw T) (MaximizeVotes r' votes bits' af aw T)"
proof -
  have loop: "maximizeVotes_loop_in ord s votes bits (ps_Bits r) [0..<length votes] (ps_Votes r) =
      maximizeVotes_loop votes bits' (ps_Bits r') [0..<length votes] (ps_Votes r')"
    using r maximizeVotes_loop_same [OF ord] by (simp add: same_votes_result_def)
  show ?thesis
    using r unfolding MaximizeVotes_in_def MaximizeVotes_def Let_def loop
    by (simp add: same_votes_result_def same_pick_def CalcValueFromFees_same [OF ord] del: mset_map)
qed

lemma BranchAndBoundBits_same:
  assumes ord: "any_order ord" and votes: "mset votes = mset votes'"
  shows "same_solution (BranchAndBoundBits_in ord votes bits aw wv T af m bound ef) (BranchAndBoundBits votes' bits aw wv T af m bound ef)"
proof -
  have len: "length votes = length votes'" by (rule mset_eq_length [OF votes])
  let ?p = "\<lparr>pi_TotalWeight = T, pi_LowerBoundWeight = T div 2, pi_BitVotes = votes', pi_Bits = bits,
      pi_NumAttestations = length bits, pi_NumProviders = length votes', pi_MaxOperations = m, pi_ExcludeFirst = ef\<rparr>"
  let ?st = "\<lparr>ss_CurrentBound = bound, ss_NumOperations = 0\<rparr>" and ?f = "foldl (\<lambda>acc b. acc + ab_Fee b) af bits"
  obtain st r r' where A: "BranchBits_in ord (?p\<lparr>pi_BitVotes := votes\<rparr>) ?st 0 [0..<length votes] wv ?f = (st, r)"
    and B: "BranchBits ?p ?st 0 [0..<length votes'] wv ?f = (st, r')"
    and R: "rel_option (same_bits_result votes votes') r r'"
    using rel_outcomeD [OF BranchBits_same [OF ord same_pick_all [OF votes], of ?p ?st 0 wv ?f]] by auto
  show ?thesis
  proof (cases r)
    case None
    with R have "r' = None" by simp
    with None A B votes show ?thesis by (simp add: BranchAndBoundBits_in_def BranchAndBoundBits_def Let_def same_solution_def len)
  next
    case (Some q)
    with R obtain q' where q': "r' = Some q'" "same_bits_result votes votes' q q'" by (cases r') auto
    let ?opt = "ss_NumOperations st < m"
    define a where "a = (if ?opt then q else MaximizeBits_in ord (Bits_search ef) q votes bits af aw T)"
    define b where "b = (if ?opt then q' else MaximizeBits q' votes' bits af aw T)"
    have ab: "same_bits_result votes votes' a b" using MaximizeBits_same [OF ord q'(2)] q'(2) by (simp add: a_def b_def)
    have sa: "BranchAndBoundBits_in ord votes bits aw wv T af m bound ef =
        \<lparr>cs_Votes = map ((!) votes) (ord (Result_votes (Bits_search ef)) (ps_Votes a)),
         cs_Bits = map ((!) bits) (ord (Result_bits (Bits_search ef)) (ps_Bits a)), cs_Value = ps_Value a, cs_Optimal = ?opt\<rparr>"
      using A Some by (simp add: BranchAndBoundBits_in_def Let_def a_def len)
    have sb: "BranchAndBoundBits votes' bits aw wv T af m bound ef =
        \<lparr>cs_Votes = map ((!) votes') (ps_Votes b), cs_Bits = map ((!) bits) (ps_Bits b), cs_Value = ps_Value b, cs_Optimal = ?opt\<rparr>"
      using B q'(1) by (simp add: BranchAndBoundBits_def Let_def b_def)
    show ?thesis
      using ab unfolding sa sb same_solution_def same_bits_result_def same_pick_def
      by (simp only: ConsensusSolution.simps pick_in [OF ord])
  qed
qed

lemma BranchAndBoundVotes_same:
  assumes ord: "any_order ord" and bits: "mset bits = mset bits'"
  shows "same_solution (BranchAndBoundVotes_in ord votes bits aw wv T af m bound ef) (BranchAndBoundVotes votes bits' aw wv T af m bound ef)"
proof -
  have len: "length bits = length bits'" by (rule mset_eq_length [OF bits])
  let ?p = "\<lparr>pi_TotalWeight = T, pi_LowerBoundWeight = T div 2, pi_BitVotes = votes, pi_Bits = bits',
      pi_NumAttestations = length bits', pi_NumProviders = length votes, pi_MaxOperations = m, pi_ExcludeFirst = ef\<rparr>"
  let ?st = "\<lparr>ss_CurrentBound = bound, ss_NumOperations = 0\<rparr>"
  let ?f = "foldl (\<lambda>acc b. acc + ab_Fee b) af bits" and ?f' = "foldl (\<lambda>acc b. acc + ab_Fee b) af bits'"
  have f: "?f = ?f'" unfolding foldl_fees by (simp only: sum_list_mset [OF bits])
  obtain st r r' where A: "BranchVotes_in ord (?p\<lparr>pi_Bits := bits\<rparr>) ?st 0 [0..<length bits] ?f wv = (st, r)"
    and B: "BranchVotes ?p ?st 0 [0..<length bits'] ?f' wv = (st, r')"
    and R: "rel_option (same_votes_result bits bits') r r'"
    using rel_outcomeD [OF BranchVotes_same [OF ord same_pick_all [OF bits], of ?p ?st 0 ?f wv]] by (auto simp: f)
  show ?thesis
  proof (cases r)
    case None
    with R have "r' = None" by simp
    with None A B show ?thesis by (simp add: BranchAndBoundVotes_in_def BranchAndBoundVotes_def Let_def same_solution_def len)
  next
    case (Some q)
    with R obtain q' where q': "r' = Some q'" "same_votes_result bits bits' q q'" by (cases r') auto
    let ?opt = "ss_NumOperations st < m"
    define a where "a = (if ?opt then q else MaximizeVotes_in ord (Votes_search ef) q votes bits af aw T)"
    define b where "b = (if ?opt then q' else MaximizeVotes q' votes bits' af aw T)"
    have ab: "same_votes_result bits bits' a b" using MaximizeVotes_same [OF ord q'(2)] q'(2) by (simp add: a_def b_def)
    have sa: "BranchAndBoundVotes_in ord votes bits aw wv T af m bound ef =
        \<lparr>cs_Votes = map ((!) votes) (ord (Result_votes (Votes_search ef)) (ps_Votes a)),
         cs_Bits = map ((!) bits) (ord (Result_bits (Votes_search ef)) (ps_Bits a)), cs_Value = ps_Value a, cs_Optimal = ?opt\<rparr>"
      using A Some by (simp add: BranchAndBoundVotes_in_def Let_def a_def len)
    have sb: "BranchAndBoundVotes votes bits' aw wv T af m bound ef =
        \<lparr>cs_Votes = map ((!) votes) (ps_Votes b), cs_Bits = map ((!) bits') (ps_Bits b), cs_Value = ps_Value b, cs_Optimal = ?opt\<rparr>"
      using B q'(1) by (simp add: BranchAndBoundVotes_def Let_def b_def)
    show ?thesis
      using ab unfolding sa sb same_solution_def same_votes_result_def same_pick_def
      by (simp only: ConsensusSolution.simps pick_in [OF ord])
  qed
qed

section \<open>The consensus in any order\<close>

text \<open>Sorting the aggregated bits and votes forgets the order in which the aggregators were listed.\<close>

lemma idx_inj:
  assumes "distinct (concat (map f xs))" "\<forall>x\<in>set xs. f x \<noteq> []"
  shows "inj_on (\<lambda>x. hd (f x)) (set xs)"
proof (rule inj_onI)
  fix a b assume "a \<in> set xs" "b \<in> set xs" "hd (f a) = hd (f b)"
  then have "hd (f a) \<in> set (f a)" "hd (f a) \<in> set (f b)" using assms(2) hd_in_set by metis+
  with \<open>a \<in> set xs\<close> \<open>b \<in> set xs\<close> assms(1) show "a = b"
    by (induction xs) auto
qed

lemma AggregateBits_heads: "inj_on (\<lambda>b. hd (ab_Indexes b)) (set (AggregateBits votes fees (Filter votes fees T)))"
proof (rule idx_inj)
  let ?fr = "Filter votes fees T"
  have "mset (concat (map ab_Indexes (AggregateBits votes fees ?fr))) = mset (fr_RemainingBits ?fr)"
    unfolding AggregateBits_aggregate by (simp add: aggBits.group_mset del: map_map)
  then have "distinct (concat (map ab_Indexes (AggregateBits votes fees ?fr))) = distinct (fr_RemainingBits ?fr)"
    by (rule mset_eq_imp_distinct_iff)
  then show "distinct (concat (map ab_Indexes (AggregateBits votes fees ?fr)))" using Filter_remaining_distinct by blast
  show "\<forall>b\<in>set (AggregateBits votes fees ?fr). ab_Indexes b \<noteq> []" using AggregateBits_entry(1) by blast
qed

lemma AggregateVotes_heads: "inj_on (\<lambda>v. hd (av_Indexes v)) (set (AggregateVotes votes fees (Filter votes fees T)))"
proof (rule idx_inj)
  let ?fr = "Filter votes fees T"
  have "mset (concat (map av_Indexes (AggregateVotes votes fees ?fr))) = mset (fr_RemainingVotes ?fr)"
    unfolding AggregateVotes_aggregate by (simp add: aggVotes.group_mset del: map_map)
  then have "distinct (concat (map av_Indexes (AggregateVotes votes fees ?fr))) = distinct (fr_RemainingVotes ?fr)"
    by (rule mset_eq_imp_distinct_iff)
  then show "distinct (concat (map av_Indexes (AggregateVotes votes fees ?fr)))" using Filter_remaining_distinct by blast
  show "\<forall>v\<in>set (AggregateVotes votes fees ?fr). av_Indexes v \<noteq> []"
    unfolding AggregateVotes_aggregate by (blast elim: aggVotes.group_entry)
qed

lemma sortFees_same:
  assumes "mset bits = mset bits'" "inj_on (\<lambda>b. hd (ab_Indexes b)) (set bits)"
  shows "sortFees bits (cmpValAsc T) = sortFees bits' (cmpValAsc T)" "sortFees bits (cmpValDsc T) = sortFees bits' (cmpValDsc T)"
proof -
  have "a = b" if "a \<in> set bits" "b \<in> set bits" "cmpVal T s a b = 0" "s = 1 \<or> s = -1" for a b s
    using that assms(2) by (auto simp: cmpVal_cases Let_def inj_on_def split: if_splits)
  then show "sortFees bits (cmpValAsc T) = sortFees bits' (cmpValAsc T)" "sortFees bits (cmpValDsc T) = sortFees bits' (cmpValDsc T)"
    unfolding sortFees_def
    using bitsAsc.SortStableFunc_unique [OF assms(1), of T] bitsDsc.SortStableFunc_unique [OF assms(1), of T]
    by (simp_all add: cmpValAsc_def cmpValDsc_def)
qed

lemma sortVotes_same:
  assumes "mset votes = mset votes'" "inj_on (\<lambda>v. hd (av_Indexes v)) (set votes)"
  shows "sortVotes votes cmpValVoteAsc = sortVotes votes' cmpValVoteAsc" "sortVotes votes cmpValVoteDsc = sortVotes votes' cmpValVoteDsc"
proof -
  have "a = b" if "a \<in> set votes" "b \<in> set votes" "cmpValVote s a b = 0" "s = 1 \<or> s = -1" for a b s
    using that assms(2) by (auto simp: cmpValVote_cases Let_def inj_on_def split: if_splits)
  then show "sortVotes votes cmpValVoteAsc = sortVotes votes' cmpValVoteAsc" "sortVotes votes cmpValVoteDsc = sortVotes votes' cmpValVoteDsc"
    unfolding sortVotes_def
    using votesAsc.SortStableFunc_unique [OF assms(1)] votesDsc.SortStableFunc_unique [OF assms(1)]
    by (simp_all add: cmpValVoteAsc_def cmpValVoteDsc_def)
qed

lemma Double_same:
  assumes ord: "any_order ord" and votes: "mset votes = mset votes'" and bits: "mset bits = mset bits'"
    and heads: "inj_on (\<lambda>v. hd (av_Indexes v)) (set votes)" "inj_on (\<lambda>b. hd (ab_Indexes b)) (set bits)"
  shows "same_solution (BranchAndBoundBitsDouble_in ord votes bits aw wv T af m bound) (BranchAndBoundBitsDouble votes' bits' aw wv T af m bound)"
    "same_solution (BranchAndBoundVotesDouble_in ord votes bits aw wv T af m bound) (BranchAndBoundVotesDouble votes' bits' aw wv T af m bound)"
proof -
  note B = BranchAndBoundBits_same [OF ord votes] and V = BranchAndBoundVotes_same [OF ord bits]
  show "same_solution (BranchAndBoundBitsDouble_in ord votes bits aw wv T af m bound) (BranchAndBoundBitsDouble votes' bits' aw wv T af m bound)"
    unfolding BranchAndBoundBitsDouble_in_def BranchAndBoundBitsDouble_def Let_def sortFees_same [OF bits heads(2)]
    using B [of "sortFees bits' (cmpValAsc T)" aw wv T af m bound True] B [of "sortFees bits' (cmpValDsc T)" aw wv T af m bound False]
    by (simp add: same_solution_def)
  show "same_solution (BranchAndBoundVotesDouble_in ord votes bits aw wv T af m bound) (BranchAndBoundVotesDouble votes' bits' aw wv T af m bound)"
    unfolding BranchAndBoundVotesDouble_in_def BranchAndBoundVotesDouble_def Let_def sortVotes_same [OF votes heads(1)]
    using V [of "sortVotes votes' cmpValVoteAsc" aw wv T af m bound True] V [of "sortVotes votes' cmpValVoteDsc" aw wv T af m bound False]
    by (simp add: same_solution_def)
qed

lemma ensemble_same:
  assumes ord: "any_order ord"
  shows "rel_sum (=) (rel_prod same_filter same_solution) (ensemble_in ord votes fees T m) (ensemble votes fees T m)"
proof -
  let ?fr = "Filter_in ord votes fees T" and ?fr' = "Filter votes fees T"
  let ?V = "AggregateVotes_in ord votes fees ?fr" and ?V' = "AggregateVotes votes fees ?fr'"
  let ?B = "AggregateBits_in ord votes fees ?fr" and ?B' = "AggregateBits votes fees ?fr'"
  note F = Filter_same [OF ord, of votes fees T]
  have g: "fr_GuaranteedWeight ?fr = fr_GuaranteedWeight ?fr'" "fr_GuaranteedFees ?fr = fr_GuaranteedFees ?fr'"
    using F by (simp_all add: same_filter_def)
  note agg = Aggregate_same [OF ord F, of votes fees]
  have len: "length ?V = length ?V'" "length ?B = length ?B'" using agg by (blast dest: mset_eq_length)+
  let ?w = "add_weights (\<lambda>_. True) av_Weight ?V' (fr_GuaranteedWeight ?fr')"
  have w: "add_weights (\<lambda>_. True) av_Weight ?V (fr_GuaranteedWeight ?fr) = ?w" unfolding g(1) by (rule add_weights_mset [OF agg(2)])
  have heads: "inj_on (\<lambda>v. hd (av_Indexes v)) (set ?V)" "inj_on (\<lambda>b. hd (ab_Indexes b)) (set ?B)"
    using AggregateVotes_heads [of votes fees T] AggregateBits_heads [of votes fees T]
    unfolding mset_eq_setD [OF agg(1)] mset_eq_setD [OF agg(2)] by blast+
  note D = Double_same [OF ord agg(2,1) heads]
  show ?thesis
  proof (cases "?w \<le> T div 2")
    case True
    then show ?thesis
      by (simp add: ensemble_in_def ensemble_def FilterAndAggregate_in_def FilterAndAggregate_def Let_def w)
  next
    case False
    let ?run = "\<lambda>M b. M (fr_GuaranteedWeight ?fr') ?w T (fr_GuaranteedFees ?fr') m b :: ConsensusSolution"
    define M0 where "M0 = (if length ?V' < length ?B' then BranchAndBoundVotesDouble_in ord ?V ?B else BranchAndBoundBitsDouble_in ord ?V ?B)"
    define M1 where "M1 = (if length ?V' < length ?B' then BranchAndBoundBitsDouble_in ord ?V ?B else BranchAndBoundVotesDouble_in ord ?V ?B)"
    define N0 where "N0 = (if length ?V' < length ?B' then BranchAndBoundVotesDouble ?V' ?B' else BranchAndBoundBitsDouble ?V' ?B')"
    define N1 where "N1 = (if length ?V' < length ?B' then BranchAndBoundBitsDouble ?V' ?B' else BranchAndBoundVotesDouble ?V' ?B')"
    have 0: "same_solution (?run M0 b) (?run N0 b)" and 1: "same_solution (?run M1 b) (?run N1 b)" for b
      by (simp_all add: M0_def M1_def N0_def N1_def D)
    have e: "ensemble_in ord votes fees T m =
        Inr (?fr, let s = ?run M0 (Value 0 0) in if \<not> cs_Optimal s then
          (let s2 = ?run M1 (Value_Copy (cs_Value s)) in if Value_Cmp (cs_Value s2) (cs_Value s) = 1 then s2 else s) else s)"
      using False by (simp add: ensemble_in_def FilterAndAggregate_in_def Let_def w [unfolded g] g len M0_def M1_def)
    have e': "ensemble votes fees T m =
        Inr (?fr', let s = ?run N0 (Value 0 0) in if \<not> cs_Optimal s then
          (let s2 = ?run N1 (Value_Copy (cs_Value s)) in if Value_Cmp (cs_Value s2) (cs_Value s) = 1 then s2 else s) else s)"
      using False by (simp add: ensemble_def FilterAndAggregate_def Let_def N0_def N1_def)
    have v: "cs_Value (?run M0 b) = cs_Value (?run N0 b)" "cs_Optimal (?run M0 b) = cs_Optimal (?run N0 b)"
      "cs_Value (?run M1 b) = cs_Value (?run N1 b)" for b
      using 0 1 by (simp_all add: same_solution_def)
    show ?thesis unfolding e e' Let_def v using F 0 1 by simp
  qed
qed

lemma AssembleSolution_same:
  assumes "same_filter fr fr'" "same_solution s s'"
  shows "AssembleSolution fr s n = AssembleSolution fr' s' n"
proof -
  have "mset (fr_AlwaysInBits fr) = mset (fr_AlwaysInBits fr')" "mset (cs_Bits s) = mset (cs_Bits s')"
    using assms by (simp_all add: same_filter_def same_solution_def)
  from this [THEN mset_eq_setD] have sets: "set (fr_AlwaysInBits fr) = set (fr_AlwaysInBits fr')" "covers (cs_Bits s) = covers (cs_Bits s')"
    by (simp_all add: covers_def)
  have "bv_BitVector (AssembleSolution fr s n) = bv_BitVector (AssembleSolution fr' s' n)"
    by (rule bit_eqI) (simp add: AssembleSolution_def Let_def foldl_set_bits foldl_set_bit sets)
  then show ?thesis by (simp add: AssembleSolution_def Let_def)
qed

text \<open>With enough operations the order of the bit votes decides only between solutions of equal value.\<close>

lemma consensus_value_vote_order:
  assumes nw: "votes_nowrap votes" and fees: "\<forall>f\<in>set fees. 0 \<le> f" and perm: "mset votes' = mset votes"
    and run: "EnsembleConsensusBitVote votes fees T m = Inr b" "EnsembleConsensusBitVote votes' fees T m = Inr b'"
    and m: "ensemble_budget (length votes) (length fees) \<le> m"
  shows "set_value votes fees T (bits_of b) = set_value votes fees T (bits_of b')"
proof -
  have supp: "supp_weight votes' = supp_weight votes" by (simp add: supp_weight_def fun_eq_iff weight_of_mset [OF perm])
  have val: "set_value votes' fees T = set_value votes fees T" by (simp add: set_value_def fun_eq_iff supp)
  have nw': "votes_nowrap votes'" using nw by (simp add: votes_nowrap_def weight_of_mset [OF perm])
  have m': "ensemble_budget (length votes') (length fees) \<le> m" using m by (simp only: mset_eq_length [OF perm])
  obtain fr sol where e: "ensemble votes fees T m = Inr (fr, sol)" "bits_of b = set (fr_AlwaysInBits fr) \<union> covers (cs_Bits sol)"
    "bits_of b \<subseteq> {..<length fees}" by (rule consensus_result [OF nw fees run(1)])
  obtain fr' sol' where e': "ensemble votes' fees T m = Inr (fr', sol')" "bits_of b' = set (fr_AlwaysInBits fr') \<union> covers (cs_Bits sol')"
    "bits_of b' \<subseteq> {..<length fees}" by (rule consensus_result [OF nw' fees run(2)])
  have "unat T div 2 < supp_weight votes (bits_of b)" "unat T div 2 < supp_weight votes (bits_of b')"
    using ensemble_majority [OF nw fees e(1)] ensemble_majority [OF nw' fees e'(1)] by (simp_all add: e(2) e'(2) supp)
  then show ?thesis
    using ensemble_enough [OF nw fees e(1) m e'(3)] ensemble_enough [OF nw' fees e'(1) m' e(3)]
    by (simp add: supp val flip: e(2) e'(2))
qed

section \<open>Properties\<close>

text \<open>
  C5. The consensus does not depend on the order in which Go visits the keys of a map: in whatever order each
  execution of each loop over a map runs, the consensus bit vote of given bit votes, or the error, is the same,
  for all weights and fees and also when the searches are cut off.
\<close>

theorem consensus_any_order:
  assumes "any_order ord"
  shows "EnsembleConsensusBitVote_in ord votes fees T m = EnsembleConsensusBitVote votes fees T m"
  using ensemble_same [OF assms, of votes fees T m]
  by (auto simp: EnsembleConsensusBitVote_in_def EnsembleConsensusBitVote_def elim!: rel_sum.cases split: sum.splits
      intro: AssembleSolution_same)

theorem consensus_any_order_witness:
  "EnsembleConsensusBitVote_in (\<lambda>loop. rev) sample_votes [5, 7, 9] 100 1000 = Inr \<lparr>bv_Length = 3, bv_BitVector = 4\<rparr>"
proof -
  have "any_order (\<lambda>loop. rev)" by (simp add: any_order_def)
  moreover have "EnsembleConsensusBitVote sample_votes [5, 7, 9] 100 1000 = Inr \<lparr>bv_Length = 3, bv_BitVector = 4\<rparr>"
    by code_simp
  ultimately show ?thesis by (simp only: consensus_any_order)
qed

text \<open>A round with two best choices of the same value, and the votes of five voters of equal weight for it.\<close>

definition tie_heap :: "nat heap" where
  "tie_heap = \<lparr>h_atts = (\<lambda>n.
     \<lparr>at_Indexes = [sample_index n], at_RoundID = 3, at_RoundStatus = OwnStatus Unassigned, at_Request = [of_nat n],
      at_Response = [], at_Fee = (if n < 2 then 10 else 1), at_Status = Waiting, at_Consensus = False, at_Hash = [of_nat n],
      at_ResponseABI = None, at_ResponseABIString = None, at_LUTLimit = 0, at_QueueName = [], at_Credentials = None\<rparr>),
     h_status = (\<lambda>_. PreConsensus)\<rparr>"

definition tie_voters :: VoterSet where
  "tie_voters = \<lparr>vs_TotalWeight = 100, vs_SubmitToSigningAddress = (\<lambda>ad. Some ad),
     vs_VoterDataMap = (\<lambda>ad. if ad \<in> set [[1], [2], [3], [4], [5]] then Some \<lparr>vd_Index = of_nat (unat (hd ad)), vd_Weight = 20\<rparr> else None)\<rparr>"

definition tie_round :: Round where
  "tie_round = (snd (Round_New tie_heap 9 3 tie_voters))\<lparr>r_Attestations := [0, 1, 2, 3, 4, 5]\<rparr>"

definition tie_messages :: "Message list" where
  "tie_messages = map (\<lambda>(voter, bits). \<lparr>msg_From = [voter], msg_VotingRound = 3, msg_Timestamp = 0, msg_BlockNumber = 7,
     msg_TransactionIndex = of_nat (unat voter), msg_Payload = [0, 6, bits]\<rparr>) [(1, 13), (2, 57), (3, 39), (4, 58), (5, 22)]"

abbreviation (input) consensus_after :: "'arg heap \<Rightarrow> Round \<Rightarrow> Message list \<Rightarrow> BitVote option" where
  "consensus_after h r ms \<equiv> Option.bind (ComputeConsensusBitVote h (ProcessBitVotes r ms)) (\<lambda>(h, r, err). r_ConsensusBitVote r)"


end
