(* ===== verification/Startup.thy ===== *)
theory Startup
  imports Listeners Routes
begin

text \<open>
  The start of the program: reading the configuration files (\<^verbatim>\<open>client/config/read.go\<close>) and the sequence of
  \<^verbatim>\<open>main/main.go\<close> up to the start of the goroutines. Reading a file, decoding TOML, the environment variables
  and connecting to the database are parameters; \<^verbatim>\<open>path.Join\<close> and \<^verbatim>\<open>strconv.FormatUint\<close> are written out.

  Shown here: the system configuration read is the one of the user's chain and protocol; and a client that
  has started has usable timing, the parsed attestation types, a database in sync, a server and a collector of the
  same protocol, and a manager that every run keeps consistent.
\<close>

section \<open>Paths and numbers of the standard library\<close>

fun FormatUint10 :: "nat \<Rightarrow> string" where
  "FormatUint10 n = (if n < 10 then [char_of (48 + n)] else FormatUint10 (n div 10) @ [char_of (48 + n mod 10)])"

declare FormatUint10.simps [simp del]

text \<open>The elements between the slashes.\<close>

fun split_slash :: "string \<Rightarrow> string list" where
  "split_slash [] = [[]]"
| "split_slash (c # cs) =
     (if c = CHR ''/'' then [] # split_slash cs
      else (case split_slash cs of e # es \<Rightarrow> (c # e) # es | [] \<Rightarrow> [[c]]))"

text \<open>
  \<^verbatim>\<open>path.Clean\<close>: empty elements and \<open>.\<close> are dropped, \<open>..\<close> removes the element before it, or is kept at the
  beginning of a relative path and dropped at the beginning of a rooted one.
\<close>

definition clean_step :: "bool \<Rightarrow> string list \<Rightarrow> string \<Rightarrow> string list" where
  "clean_step rooted out e =
     (if e = [] \<or> e = ''.'' then out
      else if e = ''..'' then
        (if out \<noteq> [] \<and> last out \<noteq> ''..'' then butlast out else if rooted then out else out @ [e])
      else out @ [e])"

fun join_slash :: "string list \<Rightarrow> string" where
  "join_slash [] = []"
| "join_slash [e] = e"
| "join_slash (e # es) = e @ ''/'' @ join_slash es"

definition path_Clean :: "string \<Rightarrow> string" where
  "path_Clean p =
     (let rooted = (p \<noteq> [] \<and> hd p = CHR ''/'');
          out = foldl (clean_step rooted) [] (split_slash p);
          res = (if rooted then ''/'' else []) @ join_slash out
      in if res = [] then ''.'' else res)"

definition path_Join :: "string list \<Rightarrow> string" where
  "path_Join es = (let es = filter (\<lambda>e. e \<noteq> []) es in if es = [] then [] else path_Clean (join_slash es))"

section \<open>Reading the configuration (\<^verbatim>\<open>read.go\<close>)\<close>

record ('params, 'db) UserRaw =
  ur_AttestationTypeConfig :: "(bytes \<times> AttestationTypeUnparsed) list"
  ur_Chain :: string
  ur_ProtocolID :: u8
  ur_DB :: 'db
  ur_RestServer :: RestServer
  ur_Queues :: "(string \<times> 'params) list"

record System =
  sys_Addresses :: Addresses
  sys_Timing :: Timing

datatype ReadError = FailedReading string | FailedUnmarshaling string | FailedEnv

definition readToml :: "(string \<Rightarrow> 'file option) \<Rightarrow> ('file \<Rightarrow> 'c option) \<Rightarrow> string \<Rightarrow> ReadError + 'c" where
  "readToml ReadFile Unmarshal filePath =
     (case ReadFile filePath of
        None \<Rightarrow> Inl (FailedReading filePath)
      | Some file \<Rightarrow>
          (case Unmarshal file of
             None \<Rightarrow> Inl (FailedUnmarshaling filePath)
           | Some config \<Rightarrow> Inr config))"

definition ReadSystem ::
  "(string \<Rightarrow> 'file option) \<Rightarrow> ('file \<Rightarrow> System option) \<Rightarrow> string \<Rightarrow> string \<Rightarrow> u8 \<Rightarrow> ReadError + System" where
  "ReadSystem ReadFile Unmarshal directory chain protocolID =
     (let chain = chain @ ''.toml'';
          protocolStr = FormatUint10 (unat protocolID);
          filePath = path_Join [directory, protocolStr, chain]
      in readToml ReadFile Unmarshal filePath)"

definition Read ::
  "(string \<Rightarrow> 'file option) \<Rightarrow> ('file \<Rightarrow> ('params, 'db) UserRaw option) \<Rightarrow> ('file \<Rightarrow> System option) \<Rightarrow> ('db \<Rightarrow> 'db option) \<Rightarrow>
   string \<Rightarrow> string \<Rightarrow> ReadError + ('params, 'db) UserRaw \<times> System" where
  "Read ReadFile UnmarshalUser UnmarshalSystem env userFilePath systemDirectoryPath =
     (case readToml ReadFile UnmarshalUser userFilePath of
        Inl err \<Rightarrow> Inl err
      | Inr userConfigRaw \<Rightarrow>
          (case ReadSystem ReadFile UnmarshalSystem systemDirectoryPath (ur_Chain userConfigRaw) (ur_ProtocolID userConfigRaw) of
             Inl err \<Rightarrow> Inl err
           | Inr systemConfig \<Rightarrow>
               (case env (ur_DB userConfigRaw) of
                  None \<Rightarrow> Inl FailedEnv
                | Some db \<Rightarrow> Inr (userConfigRaw\<lparr>ur_DB := db\<rparr>, systemConfig))))"

section \<open>The start (\<^verbatim>\<open>main.go\<close>)\<close>

text \<open>
  \<^verbatim>\<open>collector.New\<close> panics when the database cannot be connected, \<^verbatim>\<open>WaitForDBToSync\<close> when it does not get in
  sync; \<open>observe\<close> are the delays that the connected database shows. \<open>Waiting\<close> is a start for which they are not
  enough.
\<close>

datatype StartPanic = BadConfig ReadError | BadTypes ConfigError | NoDatabase | NotInSync | Waiting

text \<open>What the goroutines of the collector, the manager and the server are started with.\<close>

record ('arg, 's, 'p, 'q, 'conn) started =
  st_Chain :: Timing
  st_col :: "'conn Collector"
  st_mngr :: "('arg, 's, 'p, 'q) Manager"
  st_srv :: rest_server

definition main_start ::
  "(ReadError + ('params, 'db) UserRaw \<times> System) \<Rightarrow> (string \<Rightarrow> nat list option) \<Rightarrow> (nat list \<Rightarrow> 'arg option) \<Rightarrow>
   ('db \<Rightarrow> 'conn option) \<Rightarrow> ('conn \<Rightarrow> int option list) \<Rightarrow> ('params \<Rightarrow> string \<Rightarrow> 'q) \<Rightarrow> 's \<Rightarrow> 'p \<Rightarrow> 'arg heap \<Rightarrow>
   StartPanic + ('arg, 's, 'p, 'q, 'conn) started" where
  "main_start configs ReadFile UnmarshalJSON Connect observe priority_New rounds policies h =
     (case configs of
        Inl err \<Rightarrow> Inl (BadConfig err)
      | Inr (userConfigRaw, systemConfig) \<Rightarrow>
          (let Chain = Timing_Set Chain_default (sys_Timing systemConfig) in
           case ParseAttestationTypes ReadFile UnmarshalJSON (ur_AttestationTypeConfig userConfigRaw) of
             Inl err \<Rightarrow> Inl (BadTypes err)
           | Inr attestationTypeConfig \<Rightarrow>
               (case Collector_New Connect (ur_ProtocolID userConfigRaw) (ur_DB userConfigRaw) (sys_Addresses systemConfig) of
                  None \<Rightarrow> Inl NoDatabase
                | Some col \<Rightarrow>
                    (case fst (WaitForDBToSync (observe (col_DB col))) of
                       None \<Rightarrow> Inl Waiting
                     | Some SyncPanic \<Rightarrow> Inl NotInSync
                     | Some InSync \<Rightarrow>
                         Inr \<lparr>st_Chain = Chain, st_col = col,
                           st_mngr = Manager_New rounds policies attestationTypeConfig
                             (buildQueues (ur_Queues userConfigRaw) priority_New) h,
                           st_srv = Server_New (ur_ProtocolID userConfigRaw) (ur_RestServer userConfigRaw)\<rparr>))))"

section \<open>Lemmas\<close>

text \<open>A name that is a path element of its own: not empty, no slash, not \<open>.\<close> or \<open>..\<close>.\<close>

definition plain_element :: "string \<Rightarrow> bool" where
  "plain_element e \<longleftrightarrow> e \<noteq> [] \<and> CHR ''/'' \<notin> set e \<and> e \<noteq> ''.'' \<and> e \<noteq> ''..''"

lemma split_slash_ne [simp]: "split_slash s \<noteq> []"
  by (induction s rule: split_slash.induct) (auto split: list.splits)

lemma split_slash_plain: "CHR ''/'' \<notin> set e \<Longrightarrow> split_slash e = [e]"
  by (induction e rule: split_slash.induct) auto

lemma split_slash_append: "CHR ''/'' \<notin> set e \<Longrightarrow> split_slash (e @ ''/'' @ s) = e # split_slash s"
  by (induction e rule: split_slash.induct) auto

lemma split_join_slash: "es \<noteq> [] \<Longrightarrow> \<forall>e\<in>set es. CHR ''/'' \<notin> set e \<Longrightarrow> split_slash (join_slash es) = es"
  by (induction es rule: join_slash.induct) (auto simp: split_slash_plain split_slash_append [simplified])

lemma clean_plain: "\<forall>e\<in>set es. plain_element e \<Longrightarrow> foldl (clean_step r) out es = out @ es"
  by (induction es arbitrary: out) (auto simp: clean_step_def plain_element_def)

lemma path_Join_plain:
  assumes "es \<noteq> []" "\<forall>e\<in>set es. plain_element e"
  shows "path_Join es = join_slash es"
proof -
  have f: "filter (\<lambda>e. e \<noteq> []) es = es" using assms(2) by (auto simp: plain_element_def)
  have s: "split_slash (join_slash es) = es" using assms by (intro split_join_slash) (auto simp: plain_element_def)
  obtain e es' where es: "es = e # es'" using assms(1) by (cases es) auto
  have plain: "e \<noteq> []" "CHR ''/'' \<notin> set e" using assms(2) by (simp_all add: es plain_element_def)
  have e: "e \<noteq> []" "hd e \<noteq> CHR ''/''" using plain hd_in_set [OF plain(1)] by metis+
  then have hd: "join_slash es \<noteq> []" "hd (join_slash es) \<noteq> CHR ''/''" by (cases es'; simp add: es)+
  then have r: "(join_slash es \<noteq> [] \<and> hd (join_slash es) = CHR ''/'') = False" by simp
  have fold: "foldl (clean_step False) [] es = es" using clean_plain [OF assms(2), of False "[]"] by simp
  have "path_Clean (join_slash es) = join_slash es"
    unfolding path_Clean_def Let_def r s fold using hd(1) by simp
  then show ?thesis unfolding path_Join_def f Let_def using assms(1) by simp
qed

lemma FormatUint10_digits: "c \<in> set (FormatUint10 n) \<Longrightarrow> \<exists>d<10. c = char_of (48 + d :: nat)"
proof (induction n rule: FormatUint10.induct)
  case (1 n)
  show ?case
  proof (cases "n < 10")
    case True
    with "1.prems" have "c = char_of (48 + n)" by (simp add: FormatUint10.simps [of n])
    with True show ?thesis by blast
  next
    case False
    then consider "c \<in> set (FormatUint10 (n div 10))" | "c = char_of (48 + n mod 10)"
      using "1.prems" by (auto simp: FormatUint10.simps [of n])
    then show ?thesis
    proof cases
      case 1
      then show ?thesis by (rule "1.IH" [OF False])
    next
      case 2
      moreover have "n mod 10 < 10" by simp
      ultimately show ?thesis by blast
    qed
  qed
qed

lemma FormatUint10_ne [simp]: "FormatUint10 n \<noteq> []"
  by (simp add: FormatUint10.simps [of n])

lemma FormatUint10_plain: "plain_element (FormatUint10 n)"
proof -
  have digit: "c \<noteq> CHR ''/'' \<and> c \<noteq> CHR ''.''" if c: "c \<in> set (FormatUint10 n)" for c
  proof -
    obtain d :: nat where "d < 10" "c = char_of (48 + d)" using FormatUint10_digits [OF c] by blast
    then have "of_char c = 48 + d" by simp
    moreover have "of_char (CHR ''/'') = (47 :: nat)" "of_char (CHR ''.'') = (46 :: nat)" by simp_all
    ultimately show ?thesis by auto
  qed
  then have "CHR ''/'' \<notin> set (FormatUint10 n)" "CHR ''.'' \<notin> set (FormatUint10 n)" by blast+
  then show ?thesis by (auto simp: plain_element_def)
qed

lemma join_slash_append: "ds \<noteq> [] \<Longrightarrow> es \<noteq> [] \<Longrightarrow> join_slash (ds @ es) = join_slash ds @ ''/'' @ join_slash es"
  by (induction ds rule: join_slash.induct) (auto simp: neq_Nil_conv)

lemma path_Join_prefix:
  assumes "ds \<noteq> []" "\<forall>e\<in>set (ds @ es). plain_element e"
  shows "path_Join (join_slash ds # es) = join_slash (ds @ es)"
proof -
  obtain d ds' where ds: "ds = d # ds'" using assms(1) by (cases ds) auto
  have "d \<noteq> []" using assms(2) by (simp add: ds plain_element_def)
  then have "join_slash ds \<noteq> []" by (cases ds') (simp_all add: ds)
  then have "path_Join (join_slash ds # es) = path_Join (ds @ es)"
    using assms by (cases es) (auto simp: path_Join_def plain_element_def filter_empty_conv join_slash_append)
  also have "\<dots> = join_slash (ds @ es)" using assms by (intro path_Join_plain) auto
  finally show ?thesis .
qed

lemma ReadSystem_path:
  assumes "ds \<noteq> []" "\<forall>d\<in>set ds. plain_element d" "CHR ''/'' \<notin> set chain"
  shows "ReadSystem ReadFile Unmarshal (join_slash ds) chain protocolID =
    readToml ReadFile Unmarshal (join_slash ds @ ''/'' @ FormatUint10 (unat protocolID) @ ''/'' @ chain @ ''.toml'')"
proof -
  have "plain_element (chain @ ''.toml'')" using assms(3) by (auto simp: plain_element_def append_eq_Cons_conv)
  then have "path_Join (join_slash ds # [FormatUint10 (unat protocolID), chain @ ''.toml'']) =
      join_slash (ds @ [FormatUint10 (unat protocolID), chain @ ''.toml''])"
    using assms(1,2) FormatUint10_plain by (intro path_Join_prefix) auto
  then show ?thesis using assms(1) by (simp add: ReadSystem_def join_slash_append)
qed

lemma main_start_Inr:
  assumes "main_start configs ReadFile UnmarshalJSON Connect observe pn rounds policies h = Inr st"
  obtains user system types conn where "configs = Inr (user, system)" "st_Chain st = Timing_Set Chain_default (sys_Timing system)"
    "ParseAttestationTypes ReadFile UnmarshalJSON (ur_AttestationTypeConfig user) = Inr types"
    "Connect (ur_DB user) = Some conn" "fst (WaitForDBToSync (observe conn)) = Some InSync"
    "Collector_New Connect (ur_ProtocolID user) (ur_DB user) (sys_Addresses system) = Some (st_col st)" "col_DB (st_col st) = conn"
    "st_mngr st = Manager_New rounds policies types (buildQueues (ur_Queues user) pn) h"
    "st_srv st = Server_New (ur_ProtocolID user) (ur_RestServer user)"
  using assms that
  by (auto simp: main_start_def Collector_New_def Let_def split: sum.splits option.splits SyncResult.splits)

lemma main_start_durations:
  assumes "main_start configs ReadFile UnmarshalJSON Connect observe pn rounds policies h = Inr st"
  shows "CollectDurationSec (st_Chain st) \<noteq> 0" "ChooseDurationSec (st_Chain st) \<noteq> 0"
proof -
  obtain system :: System where C: "st_Chain st = Timing_Set Chain_default (sys_Timing system)" by (rule main_start_Inr [OF assms]) blast
  show "CollectDurationSec (st_Chain st) \<noteq> 0" "ChooseDurationSec (st_Chain st) \<noteq> 0"
    unfolding C by (rule Timing_Set_durations; simp add: Chain_default_def)+
qed

text \<open>
  From the start on, whatever the database shows to the collector, every run of the collector, the channels, the
  manager, the workers and the handlers keeps the manager consistent.
\<close>

lemma started_run_ok:
  assumes start: "main_start configs ReadFile UnmarshalJSON Connect observe pn rounds policies h = Inr st"
    and L: "cyclic_ok L" "cy_Get L rounds = (\<lambda>_. None)"
    and run: "pipes_run L parse K (st_Chain st) A M (collector_started (st_mngr st) d) es s"
  shows "manager_ok L K (pp_manager s)"
proof -
  obtain types queues where m: "st_mngr st = Manager_New rounds policies types queues h"
    by (rule main_start_Inr [OF start]) blast
  have "manager_ok L K (st_mngr st)" unfolding m by (rule Manager_New_ok [OF L(2)])
  then show ?thesis using processes_refine_client [OF run L(1)] by simp
qed

section \<open>Properties\<close>

text \<open>
  C35. A client that has started is well formed: its collect and choose durations are not zero, so that no
  round computation divides by zero, its attestation types are the parsed ones, the database was in sync, the
  collector reads the bit votes of the protocol that the server answers for, from the configured contract, and
  the manager is consistent with an empty storage of rounds.
\<close>

theorem started_client_ok:
  assumes start: "main_start configs ReadFile UnmarshalJSON Connect observe pn rounds policies h = Inr st"
    and L: "cy_Get L rounds = (\<lambda>_. None)"
  shows "manager_ok L K (st_mngr st) \<and> ChooseDurationSec (st_Chain st) \<noteq> 0 \<and>
    (\<forall>t. RoundIDForTS (st_Chain st) t \<noteq> Inl DivideByZero \<and> NextChooseEnd (st_Chain st) t \<noteq> Inl DivideByZero) \<and>
    (\<exists>user system. configs = Inr (user, system) \<and>
       st_srv st = Server_New (col_ProtocolID (st_col st)) (ur_RestServer user) \<and>
       col_SubmitContractAddress (st_col st) = ads_SubmitContract (sys_Addresses system) \<and>
       Connect (ur_DB user) = Some (col_DB (st_col st)) \<and> (\<exists>d. Some d \<in> set (observe (col_DB (st_col st))) \<and> d \<le> 15 * 10 ^ 9) \<and>
       ParseAttestationTypes ReadFile UnmarshalJSON (ur_AttestationTypeConfig user) = Inr (m_types (st_mngr st)))"
  using start
proof (rule main_start_Inr)
  fix user system types conn
  assume U: "configs = Inr (user, system)" "ParseAttestationTypes ReadFile UnmarshalJSON (ur_AttestationTypeConfig user) = Inr types"
    and sync: "Connect (ur_DB user) = Some conn" "fst (WaitForDBToSync (observe conn)) = Some InSync" "col_DB (st_col st) = conn"
    and col: "Collector_New Connect (ur_ProtocolID user) (ur_DB user) (sys_Addresses system) = Some (st_col st)"
    and m: "st_mngr st = Manager_New rounds policies types (buildQueues (ur_Queues user) pn) h"
    and srv: "st_srv st = Server_New (ur_ProtocolID user) (ur_RestServer user)"
  note dur = main_start_durations [OF start]
  then have div: "\<forall>t. RoundIDForTS (st_Chain st) t \<noteq> Inl DivideByZero \<and> NextChooseEnd (st_Chain st) t \<noteq> Inl DivideByZero"
    by (simp add: RoundIDForTS_def NextChooseEnd_def Let_def)
  have ok: "manager_ok L K (st_mngr st)" unfolding m by (rule Manager_New_ok [OF L])
  have "\<exists>d. Some d \<in> set (observe conn) \<and> d \<le> 15 * 10 ^ 9"
    using waitForDB_loop_sync [OF sync(2) [unfolded WaitForDBToSync_def]] by simp
  moreover have "col_ProtocolID (st_col st) = ur_ProtocolID user"
    "col_SubmitContractAddress (st_col st) = ads_SubmitContract (sys_Addresses system)"
    using col by (auto simp: Collector_New_def split: option.splits dest!: sym [of _ "st_col st"])
  moreover have "m_types (st_mngr st) = types" by (simp add: m Manager_New_def)
  ultimately show ?thesis
    using ok div dur(2) U srv sync(1,3) by (intro conjI exI [of _ user] exI [of _ system]) simp_all
qed

abbreviation (input) sample_user :: "(unit, unit) UserRaw" where
  "sample_user \<equiv> \<lparr>ur_AttestationTypeConfig = [], ur_Chain = ''coston'', ur_ProtocolID = 200, ur_DB = (), ur_RestServer = sample_cfg,
     ur_Queues = []\<rparr>"

abbreviation (input) sample_system :: System where
  "sample_system \<equiv> \<lparr>sys_Addresses = \<lparr>ads_SubmitContract = [1], ads_RelayContract = [2], ads_FdcContract = [3], ads_VoterRegistryContract = [4]\<rparr>,
     sys_Timing = \<lparr>T0 = 0, T0RewardDelay = 0, RewardEpochLength = 0, CollectDurationSec = 0, ChooseDurationSec = 30\<rparr>\<rparr>"

theorem started_client_ok_witness:
  "\<exists>st. main_start (Inr (sample_user, sample_system)) (\<lambda>path. None) (\<lambda>file. None :: nat option) (\<lambda>db. Some db) (\<lambda>conn. [Some 0]) (\<lambda>p k. [])
      Map.empty (Some sample_voters) sample_heap = Inr st \<and> manager_ok sample_lib id (st_mngr st) \<and> ChooseDurationSec (st_Chain st) \<noteq> 0"
proof -
  let ?start = "main_start (Inr (sample_user, sample_system)) (\<lambda>path. None) (\<lambda>file. None :: nat option) (\<lambda>db. Some db) (\<lambda>conn. [Some 0])
      (\<lambda>p k. [] :: nat list) (Map.empty :: u32 \<rightharpoonup> nat) (Some sample_voters) sample_heap"
  have "fst (WaitForDBToSync [Some 0]) = Some InSync" by (simp add: WaitForDBToSync_def numeral_eq_Suc)
  then obtain st where start: "?start = Inr st"
    by (simp add: main_start_def Collector_New_def ParseAttestationTypes_def)
  have "cy_Get sample_lib Map.empty = (\<lambda>_. None)" by (simp add: sample_lib_def)
  from started_client_ok [OF start this, of id] start show ?thesis by blast
qed

end
