(* ===== verification/Shutdown.thy ===== *)
theory Shutdown
  imports Startup
begin

text \<open>
  The end of the program: what \<^verbatim>\<open>main/main.go\<close> does after the goroutines have been started, with \<^verbatim>\<open>Run\<close> and
  \<^verbatim>\<open>Shutdown\<close> of \<^verbatim>\<open>server.go\<close> and the shutdown that the manager schedules when it rejects a signing policy.
  Time is in seconds of Unix time and a run is a list of events with the times at which they happen; when a
  sleep ends and which of two ready cases of \<^verbatim>\<open>select\<close> is taken is open.

  Shown here: the context that keeps the goroutines alive is cancelled only two minutes after a signal, or when
  a signing policy has been rejected, and then not before the choose phases of all rounds before the first one of
  that policy are over; the server is closed only after the context; and after a signal the program can
  always end.
\<close>

section \<open>The process\<close>

datatype main_phase = Selecting | Sleeping int | Cancelling | ShuttingDown | Returned | Panicked

datatype http_state = Listening | Closed

record main_proc =
  mp_phase :: main_phase
  mp_cancelled :: bool
  mp_http :: http_state

datatype main_event = Interrupted | Woken | ContextDone | Cancelled | ServerShutdown | PolicyTimer | ServerFailed

definition main_started :: main_proc where
  "main_started = \<lparr>mp_phase = Selecting, mp_cancelled = False, mp_http = Listening\<rparr>"

definition shutdownDelay :: int where
  "shutdownDelay = 2 * 60"

text \<open>
  \<^verbatim>\<open>Run\<close> of the server: an error of \<^verbatim>\<open>ListenAndServe\<close> that is not \<^verbatim>\<open>ErrServerClosed\<close> is a panic, which ends the
  program.
\<close>

datatype listen_result = ListenNil | ErrServerClosed | ListenError

definition Server_Run :: "listen_result \<Rightarrow> bool" where
  "Server_Run err = (err = ListenNil \<or> err = ErrServerClosed)"

text \<open>\<^verbatim>\<open>Shutdown\<close> of the server returns also when the connections have not been closed in time.\<close>

definition Server_Shutdown :: "bool \<Rightarrow> http_state \<times> string" where
  "Server_Shutdown failed =
     (Closed, if failed then ''server shutdown failed'' else ''Server gracefully stopped'')"

text \<open>
  One event at time \<open>t\<close>; \<open>deadlines\<close> are the times of \<^verbatim>\<open>policy_shutdowns\<close>, converted to \<^verbatim>\<open>int64\<close> for \<^verbatim>\<open>time.Unix\<close>.
\<close>

inductive main_step :: "u64 list \<Rightarrow> int \<Rightarrow> main_event \<Rightarrow> main_proc \<Rightarrow> main_proc \<Rightarrow> bool" for deadlines where
  interrupted: "mp_phase p = Selecting \<Longrightarrow>
    main_step deadlines t Interrupted p (p\<lparr>mp_phase := Sleeping (t + shutdownDelay)\<rparr>)"
| woken: "mp_phase p = Sleeping u \<Longrightarrow> u \<le> t \<Longrightarrow> main_step deadlines t Woken p (p\<lparr>mp_phase := Cancelling\<rparr>)"
| contextDone: "mp_phase p = Selecting \<Longrightarrow> mp_cancelled p \<Longrightarrow>
    main_step deadlines t ContextDone p (p\<lparr>mp_phase := Cancelling\<rparr>)"
| cancelled: "mp_phase p = Cancelling \<Longrightarrow>
    main_step deadlines t Cancelled p (p\<lparr>mp_phase := ShuttingDown, mp_cancelled := True\<rparr>)"
| serverShutdown: "mp_phase p = ShuttingDown \<Longrightarrow>
    main_step deadlines t ServerShutdown p (p\<lparr>mp_phase := Returned, mp_http := fst (Server_Shutdown failed)\<rparr>)"
| policyTimer: "d \<in> set deadlines \<Longrightarrow> sint d \<le> t \<Longrightarrow> mp_phase p \<noteq> Returned \<Longrightarrow> mp_phase p \<noteq> Panicked \<Longrightarrow>
    main_step deadlines t PolicyTimer p (p\<lparr>mp_cancelled := True\<rparr>)"
| serverFailed: "mp_http p = Listening \<Longrightarrow> \<not> Server_Run err \<Longrightarrow>
    main_step deadlines t ServerFailed p (p\<lparr>mp_phase := Panicked\<rparr>)"

inductive main_run :: "u64 list \<Rightarrow> (int \<times> main_event) list \<Rightarrow> main_proc \<Rightarrow> bool" for deadlines where
  start: "main_run deadlines [] main_started"
| step: "main_run deadlines es p \<Longrightarrow> (es \<noteq> [] \<Longrightarrow> fst (last es) \<le> t) \<Longrightarrow> main_step deadlines t e p p' \<Longrightarrow>
    main_run deadlines (es @ [(t, e)]) p'"

section \<open>Lemmas\<close>

text \<open>Why the context may be cancelled.\<close>

definition two_minutes_after_signal :: "(int \<times> main_event) list \<Rightarrow> bool" where
  "two_minutes_after_signal es \<longleftrightarrow> (\<exists>s u. (s, Interrupted) \<in> set es \<and> (u, Woken) \<in> set es \<and> s + shutdownDelay \<le> u)"

definition deadline_reached :: "u64 list \<Rightarrow> (int \<times> main_event) list \<Rightarrow> bool" where
  "deadline_reached deadlines es \<longleftrightarrow> (\<exists>d\<in>set deadlines. \<exists>t. (t, PolicyTimer) \<in> set es \<and> sint d \<le> t)"

lemma reasons_more:
  "two_minutes_after_signal es \<Longrightarrow> two_minutes_after_signal (es @ es')"
  "deadline_reached ds es \<Longrightarrow> deadline_reached ds (es @ es')"
  by (auto simp: two_minutes_after_signal_def deadline_reached_def)

lemma main_run_invariant:
  assumes "main_run ds es p"
  shows "(mp_cancelled p \<longrightarrow> two_minutes_after_signal es \<or> deadline_reached ds es) \<and>
    (mp_phase p = Cancelling \<longrightarrow> two_minutes_after_signal es \<or> deadline_reached ds es) \<and>
    (\<forall>u. mp_phase p = Sleeping u \<longrightarrow> (u - shutdownDelay, Interrupted) \<in> set es) \<and>
    (mp_phase p = ShuttingDown \<longrightarrow> mp_cancelled p) \<and> (mp_http p = Closed \<longrightarrow> mp_phase p = Returned) \<and>
    (mp_phase p = Returned \<longrightarrow> mp_http p = Closed \<and> mp_cancelled p)"
  using assms
proof (induction rule: main_run.induct)
  case start
  then show ?case by (simp add: main_started_def)
next
  case (step es p t e p')
  note more = reasons_more(1) [of es "[(t, e)]"] reasons_more(2) [of ds es "[(t, e)]"]
  from step.hyps(3) show ?case
  proof cases
    case interrupted
    then show ?thesis using step.IH more by auto
  next
    case (woken u)
    then have "(u - shutdownDelay, Interrupted) \<in> set es" using step.IH by blast
    then have "two_minutes_after_signal (es @ [(t, e)])"
      unfolding two_minutes_after_signal_def using woken(1,4) by (intro exI [of _ "u - shutdownDelay"] exI [of _ t]) simp
    then show ?thesis using step.IH woken more by auto
  next
    case contextDone
    then show ?thesis using step.IH more by auto
  next
    case cancelled
    then show ?thesis using step.IH more by auto
  next
    case (serverShutdown failed)
    then show ?thesis using step.IH more by (auto simp: Server_Shutdown_def)
  next
    case (policyTimer d)
    then have "deadline_reached ds (es @ [(t, e)])" by (auto simp: deadline_reached_def)
    then show ?thesis using step.IH policyTimer by auto
  next
    case (serverFailed err)
    then show ?thesis using step.IH more by auto
  qed
qed

text \<open>The scheduled shutdowns are those of rejected policies, one round after the first round of the policy has started.\<close>

lemma policy_shutdowns_rejected:
  fixes m :: "('arg, 's, 'p, 'q) Manager"
  shows "t \<in> set (policy_shutdowns L C m ds) \<Longrightarrow>
   \<exists>d (m' :: ('arg, 's, 'p, 'q) Manager). d \<in> set ds \<and> snd (OnSigningPolicy L m' d) \<noteq> None \<and> t = RoundStartTS C (pol_StartVotingRoundId (vdt_Policy d) + 1)"
proof (induction ds arbitrary: m)
  case (Cons d ds)
  show ?case
  proof (cases "OnSigningPolicy L m d")
    case (Pair m' err)
    show ?thesis
    proof (cases err)
      case None
      then have "t \<in> set (policy_shutdowns L C m' ds)" using Cons.prems Pair by simp
      from Cons.IH [OF this] show ?thesis by auto
    next
      case (Some e)
      with Cons.prems Pair consider "t = RoundStartTS C (pol_StartVotingRoundId (vdt_Policy d) + 1)" | "t \<in> set (policy_shutdowns L C m' ds)"
        by auto
      then show ?thesis
      proof cases
        case 1
        have "snd (OnSigningPolicy L m d) \<noteq> None" using Pair Some by simp
        with 1 show ?thesis by (intro exI [of _ d] exI [of _ m]) (simp del: not_None_eq)
      next
        case 2
        from Cons.IH [OF this] show ?thesis by auto
      qed
    qed
  qed
qed simp

text \<open>Steps without the times of the events before.\<close>

lemma main_run_snoc:
  assumes "main_run ds es p" "es \<noteq> []" "fst (last es) \<le> t" "main_step ds t e p p'"
  shows "main_run ds (es @ [(t, e)]) p'"
  by (rule main_run.step [OF assms(1) _ assms(4)]) (rule assms(3))

text \<open>After a signal the program leaves the \<^verbatim>\<open>select\<close> for good, and from then on it can return.\<close>

lemma signal_leaves_select:
  "main_run ds es p \<Longrightarrow> (t, Interrupted) \<in> set es \<Longrightarrow> mp_phase p \<noteq> Selecting"
proof (induction rule: main_run.induct)
  case (step es p u e p')
  from step.hyps(3) step.IH step.prems show ?case by cases auto
qed simp

lemma can_return_cancelling:
  assumes "main_run ds es p" "es \<noteq> []" "mp_phase p = Cancelling \<or> mp_phase p = ShuttingDown"
  shows "\<exists>es' p'. main_run ds (es @ es') p' \<and> mp_phase p' = Returned"
proof -
  let ?t = "fst (last es)"
  have down: "\<exists>es' p'. main_run ds (fs @ es') p' \<and> mp_phase p' = Returned"
    if "main_run ds fs q" "fs \<noteq> []" "mp_phase q = ShuttingDown" for fs q
    using main_run_snoc [OF that(1,2) order_refl main_step.serverShutdown [OF that(3), of _ _ False]] by fastforce
  from assms(3) show ?thesis
  proof
    assume "mp_phase p = Cancelling"
    then have step: "main_run ds (es @ [(?t, Cancelled)]) (p\<lparr>mp_phase := ShuttingDown, mp_cancelled := True\<rparr>)"
      by (intro main_run_snoc [OF assms(1,2) order_refl] main_step.cancelled)
    from down [OF step] show ?thesis by fastforce
  qed (rule down [OF assms(1,2)])
qed

lemma can_return:
  assumes run: "main_run ds es p" and signal: "(t, Interrupted) \<in> set es" and alive: "mp_phase p \<noteq> Panicked"
  shows "\<exists>es' p'. main_run ds (es @ es') p' \<and> mp_phase p' = Returned"
proof -
  have ne: "es \<noteq> []" using signal by auto
  show ?thesis
  proof (cases "mp_phase p")
    case Selecting
    with signal_leaves_select [OF run signal] show ?thesis by simp
  next
    case (Sleeping u)
    then have step: "main_run ds (es @ [(max u (fst (last es)), Woken)]) (p\<lparr>mp_phase := Cancelling\<rparr>)"
      by (intro main_run_snoc [OF run ne max.cobounded2] main_step.woken [OF _ max.cobounded1])
    from can_return_cancelling [OF step] show ?thesis by fastforce
  next
    case Returned
    then show ?thesis using run by (intro exI [of _ "[]"] exI [of _ p]) simp
  qed (use can_return_cancelling [OF run ne] alive in auto)
qed

section \<open>Property\<close>

text \<open>
  C36. The client waits before it goes down: in every run of the process, when the context of its goroutines has been
  cancelled, either a signal came at least two minutes before, or the deadline of a rejected signing policy has
  been reached, and then the choose phase of every round before the first round of that policy is over. The
  server is closed only after the context has been cancelled. And once a signal has come, the run can be
  continued until the program has returned, unless the server has failed.
\<close>

theorem shutdown_waits:
  fixes m :: "('arg, 's, 'p, 'q) Manager"
  assumes run: "main_run (policy_shutdowns L C m policies) es p"
    and C: "chain_ok C" "unat (ChooseDurationSec C) \<le> unat (CollectDurationSec C)"
      "unat (T0 C) + 2 ^ 32 * unat (CollectDurationSec C) < 2 ^ 63"
    and starts: "\<And>d. d \<in> set policies \<Longrightarrow> unat (pol_StartVotingRoundId (vdt_Policy d)) < 2 ^ 32 - 1"
  shows "(mp_cancelled p \<longrightarrow>
      (\<exists>s u. (s, Interrupted) \<in> set es \<and> (u, Woken) \<in> set es \<and> s + 120 \<le> u) \<or>
      (\<exists>d\<in>set policies. \<exists>m' :: ('arg, 's, 'p, 'q) Manager. snd (OnSigningPolicy L m' d) \<noteq> None \<and>
         (\<exists>t. (t, PolicyTimer) \<in> set es \<and>
            (\<forall>n < unat (pol_StartVotingRoundId (vdt_Policy d)). int (choose_end C n) \<le> t)))) \<and>
    (mp_http p = Closed \<longrightarrow> mp_cancelled p) \<and>
    ((\<exists>t. (t, Interrupted) \<in> set es) \<longrightarrow> mp_phase p \<noteq> Panicked \<longrightarrow>
       (\<exists>es' p'. main_run (policy_shutdowns L C m policies) (es @ es') p' \<and> mp_phase p' = Returned))"
proof (intro conjI impI)
  let ?ds = "policy_shutdowns L C m policies"
  note inv = main_run_invariant [OF run]
  show "mp_http p = Closed \<Longrightarrow> mp_cancelled p" using inv by blast
  assume "mp_cancelled p"
  with inv consider "two_minutes_after_signal es" | "deadline_reached ?ds es" by blast
  then show "(\<exists>s u. (s, Interrupted) \<in> set es \<and> (u, Woken) \<in> set es \<and> s + 120 \<le> u) \<or>
      (\<exists>d\<in>set policies. \<exists>m' :: ('arg, 's, 'p, 'q) Manager. snd (OnSigningPolicy L m' d) \<noteq> None \<and>
         (\<exists>t. (t, PolicyTimer) \<in> set es \<and>
            (\<forall>n < unat (pol_StartVotingRoundId (vdt_Policy d)). int (choose_end C n) \<le> t)))"
  proof cases
    case 1
    then show ?thesis by (auto simp: two_minutes_after_signal_def shutdownDelay_def)
  next
    case 2
    then obtain x t where x: "x \<in> set ?ds" "(t, PolicyTimer) \<in> set es" "sint x \<le> t" by (auto simp: deadline_reached_def)
    obtain d and m' :: "('arg, 's, 'p, 'q) Manager" where d: "d \<in> set policies" "snd (OnSigningPolicy L m' d) \<noteq> None"
      "x = RoundStartTS C (pol_StartVotingRoundId (vdt_Policy d) + 1)" using policy_shutdowns_rejected [OF x(1)] by blast
    let ?k = "unat (pol_StartVotingRoundId (vdt_Policy d))"
    have k: "unat (pol_StartVotingRoundId (vdt_Policy d) + 1) = Suc ?k" using starts [OF d(1)] by (subst unat_plus_nowrap) simp_all
    have start: "unat x = round_start C (Suc ?k)" unfolding d(3) unat_RoundStartTS [OF C(1)] k ..
    have before: "choose_end C n \<le> round_start C (Suc ?k)" if "n < ?k" for n
    proof -
      have "Suc (Suc n) * unat (CollectDurationSec C) \<le> Suc ?k * unat (CollectDurationSec C)"
        using that by (intro mult_le_mono1) simp
      then show ?thesis using C(2) by simp
    qed
    have "Suc ?k * unat (CollectDurationSec C) \<le> 2 ^ 32 * unat (CollectDurationSec C)"
      using starts [OF d(1)] by (intro mult_le_mono1) simp
    then have "unat x < 2 ^ 63" unfolding start using C(3) by linarith
    then have "int (round_start C (Suc ?k)) \<le> t" using x(3) by (simp only: sint_small start)
    then have "\<forall>n<?k. int (choose_end C n) \<le> t" using before by (meson of_nat_mono order_trans)
    with x(2) d(1,2) show ?thesis by blast
  qed
next
  let ?ds = "policy_shutdowns L C m policies"
  assume signal: "\<exists>t. (t, Interrupted) \<in> set es" and alive: "mp_phase p \<noteq> Panicked"
  show "\<exists>es' p'. main_run ?ds (es @ es') p' \<and> mp_phase p' = Returned"
    using can_return [OF run] signal alive by blast
qed

text \<open>A policy whose voter has no submit address is rejected, and the timer fires at its deadline.\<close>

abbreviation (input) rejected_policy :: VotersData where
  "rejected_policy \<equiv> \<lparr>vdt_Policy = \<lparr>pol_Voters = [[9]], pol_RewardEpochId = 1, pol_StartVotingRoundId = 5\<rparr>, vdt_SubmitToSigningAddress = []\<rparr>"

theorem shutdown_waits_witness:
  "\<exists>p. main_run (policy_shutdowns sample_lib Chain_default sample_manager [rejected_policy]) [(1658430495, PolicyTimer)] p \<and>
     mp_cancelled p \<and> (\<forall>n<5. int (choose_end Chain_default n) \<le> 1658430495)"
proof -
  let ?ds = "policy_shutdowns sample_lib Chain_default sample_manager [rejected_policy]"
  have "snd (OnSigningPolicy sample_lib sample_manager rejected_policy) \<noteq> None"
    by (simp add: OnSigningPolicy_def VotersDataCheck_def Invert_def)
  then have "?ds = [RoundStartTS Chain_default 6]" by (auto split: prod.splits option.splits)
  moreover have "RoundStartTS Chain_default 6 = 1658430495" by (simp add: RoundStartTS_def Chain_default_def)
  ultimately have ds: "?ds = [1658430495]" by simp
  have time: "sint (1658430495 :: u64) = 1658430495" using sint_small [of 1658430495] by simp
  have step: "main_run ?ds ([] @ [(1658430495, PolicyTimer)]) (main_started\<lparr>mp_cancelled := True\<rparr>)"
    unfolding ds
  proof (rule main_run.step [OF main_run.start _ main_step.policyTimer])
    show "sint (1658430495 :: u64) \<le> 1658430495" by (rule eq_refl [OF time])
  qed (simp_all add: main_started_def)
  have "\<exists>t. (t, PolicyTimer) \<in> set ([] @ [(1658430495, PolicyTimer)]) \<and> (\<forall>n<5. int (choose_end Chain_default n) \<le> t)"
    using shutdown_waits [OF step chain_ok_default] by (simp add: Chain_default_def)
  then show ?thesis using step by (intro exI [of _ "main_started\<lparr>mp_cancelled := True\<rparr>"]) auto
qed

end
