(* ===== verification/Locks.thy ===== *)
theory Locks
  imports Client
begin

text \<open>
  The mutexes of the client. A \<^verbatim>\<open>Round\<close>, an \<^verbatim>\<open>Attestation\<close> and a \<^verbatim>\<open>RoundStatusMutex\<close> each embed a
  \<^verbatim>\<open>sync.RWMutex\<close>; the operations of \<^verbatim>\<open>round.go\<close>, \<^verbatim>\<open>attestation.go\<close>, \<^verbatim>\<open>manager.go\<close> and \<^verbatim>\<open>daServices.go\<close> that
  the goroutines run take several of them at a time. Here an operation is the sequence of its calls to
  \<^verbatim>\<open>Lock\<close>, \<^verbatim>\<open>Unlock\<close>, \<^verbatim>\<open>RLock\<close> and \<^verbatim>\<open>RUnlock\<close> (the deferred ones at its end, last first) and of its accesses
  to shared memory, and the goroutines are threads that run sequences of operations over the mutexes of the
  Go library, in which a waiting writer keeps later readers out.

  Shown: all operations but the one that leaves a read lock behind acquire locks in one order (a round, then
  its attestations in canonical order, then its status), so no interleaving of any number of threads
  deadlocks, and every run ends with all operations returned; and no two of them race on the outcome of an
  attestation or on the status of a round. Examples show that the conditions are needed: the read lock left by
  \<^verbatim>\<open>MerkleTreeCached\<close>; two readers of all attestations in different orders with two handlers that wait for the
  write locks; and the fees and positions of attestations, which no common mutex guards and on which operations race.

  An operation is fixed by what it finds (the attestations of the round when it runs, whether the request is
  known, where a loop returns early), and every choice of these is covered. The order of attestations is the
  one of a heap, in which positions do not change; the mutexes inside the priority queues belong to a library and are
  not modelled.
\<close>

section \<open>Mutexes and threads\<close>

text \<open>A round is named by the address of its status, which it does not share.\<close>

datatype lock_name = RoundLock nat | AttLock nat | StatusLock nat

text \<open>
  Shared memory: what the resolution of an attestation and the consensus write (status, flag, response and hash);
  its fee, positions and pointer to the status; the value of a status; the fields of a round; its bit votes.
\<close>

datatype cell = Outcome nat | LogFields nat | StatusValue nat | RoundFields nat | VoteFields nat

text \<open>\<open>Access c True\<close> writes, \<open>Access c False\<close> reads.\<close>

datatype lock_act = Lock lock_name | Unlock lock_name | RLock lock_name | RUnlock lock_name | Access cell bool

record lthread =
  lt_reads :: "lock_name list"
  lt_writes :: "lock_name list"
  lt_waits :: "lock_name option"
  lt_prog :: "lock_act list"

text \<open>
  \<^verbatim>\<open>sync.RWMutex\<close>: \<^verbatim>\<open>Lock\<close> first announces a writer, when there is no other, and returns when the readers have
  left; \<^verbatim>\<open>RLock\<close> waits while a writer holds the mutex or has announced itself.
\<close>

definition no_writer :: "lock_name \<Rightarrow> lthread list \<Rightarrow> bool" where
  "no_writer l ts \<longleftrightarrow> (\<forall>t\<in>set ts. l \<notin> set (lt_writes t) \<and> lt_waits t \<noteq> Some l)"

definition no_reader :: "lock_name \<Rightarrow> lthread list \<Rightarrow> bool" where
  "no_reader l ts \<longleftrightarrow> (\<forall>t\<in>set ts. l \<notin> set (lt_reads t))"

inductive lock_step :: "lthread list \<Rightarrow> lthread list \<Rightarrow> bool" where
  announce: "i < length ts \<Longrightarrow> lt_prog (ts ! i) = Lock l # p \<Longrightarrow> lt_waits (ts ! i) = None \<Longrightarrow> no_writer l ts \<Longrightarrow>
    lock_step ts (ts[i := (ts ! i)\<lparr>lt_waits := Some l\<rparr>])"
| lock: "i < length ts \<Longrightarrow> lt_prog (ts ! i) = Lock l # p \<Longrightarrow> lt_waits (ts ! i) = Some l \<Longrightarrow> no_reader l ts \<Longrightarrow>
    lock_step ts (ts[i := (ts ! i)\<lparr>lt_waits := None, lt_writes := l # lt_writes (ts ! i), lt_prog := p\<rparr>])"
| rlock: "i < length ts \<Longrightarrow> lt_prog (ts ! i) = RLock l # p \<Longrightarrow> no_writer l ts \<Longrightarrow>
    lock_step ts (ts[i := (ts ! i)\<lparr>lt_reads := l # lt_reads (ts ! i), lt_prog := p\<rparr>])"
| unlock: "i < length ts \<Longrightarrow> lt_prog (ts ! i) = Unlock l # p \<Longrightarrow> l \<in> set (lt_writes (ts ! i)) \<Longrightarrow>
    lock_step ts (ts[i := (ts ! i)\<lparr>lt_writes := remove1 l (lt_writes (ts ! i)), lt_prog := p\<rparr>])"
| runlock: "i < length ts \<Longrightarrow> lt_prog (ts ! i) = RUnlock l # p \<Longrightarrow> l \<in> set (lt_reads (ts ! i)) \<Longrightarrow>
    lock_step ts (ts[i := (ts ! i)\<lparr>lt_reads := remove1 l (lt_reads (ts ! i)), lt_prog := p\<rparr>])"
| access: "i < length ts \<Longrightarrow> lt_prog (ts ! i) = Access c w # p \<Longrightarrow>
    lock_step ts (ts[i := (ts ! i)\<lparr>lt_prog := p\<rparr>])"

abbreviation lock_run :: "lthread list \<Rightarrow> lthread list \<Rightarrow> bool" where
  "lock_run \<equiv> lock_step\<^sup>*\<^sup>*"

definition finished :: "lthread list \<Rightarrow> bool" where
  "finished ts \<longleftrightarrow> (\<forall>t\<in>set ts. lt_prog t = [])"

definition lthread_of :: "lock_act list \<Rightarrow> lthread" where
  "lthread_of p = \<lparr>lt_reads = [], lt_writes = [], lt_waits = None, lt_prog = p\<rparr>"

section \<open>The operations\<close>

text \<open>What is read of an attestation under its lock.\<close>

definition outcome :: "nat \<Rightarrow> lock_act list" where
  "outcome a = [Access (Outcome a) False]"

definition outcome_and_log :: "nat \<Rightarrow> lock_act list" where
  "outcome_and_log a = [Access (Outcome a) False, Access (LogFields a) False]"

text \<open>Reading each attestation in turn, and writing each in turn.\<close>

definition read_each :: "(nat \<Rightarrow> lock_act list) \<Rightarrow> nat list \<Rightarrow> lock_act list" where
  "read_each acc as = concat (map (\<lambda>a. [RLock (AttLock a)] @ acc a @ [RUnlock (AttLock a)]) as)"

definition write_each :: "nat list \<Rightarrow> lock_act list" where
  "write_each as = concat (map (\<lambda>a. [Lock (AttLock a), Access (Outcome a) True, Unlock (AttLock a)]) as)"

text \<open>Read locks on all attestations visited, released when the function returns.\<close>

definition read_all :: "(nat \<Rightarrow> lock_act list) \<Rightarrow> nat list \<Rightarrow> lock_act list" where
  "read_all acc as = concat (map (\<lambda>a. [RLock (AttLock a)] @ acc a) as)"

definition release_all :: "nat list \<Rightarrow> lock_act list" where
  "release_all as = rev (map (\<lambda>a. RUnlock (AttLock a)) as)"

text \<open>The attestations visited by a loop that returns early at the position \<open>stop\<close>.\<close>

definition visited :: "nat option \<Rightarrow> nat list \<Rightarrow> nat list" where
  "visited stop as = (case stop of None \<Rightarrow> as | Some k \<Rightarrow> take (Suc k) as)"

text \<open>\<^verbatim>\<open>AddAttestation\<close> of the attestation \<open>new\<close>; \<open>old\<close> is the one of the same request, if there is one.\<close>

definition AddAttestation_locks :: "Round \<Rightarrow> nat \<Rightarrow> nat option \<Rightarrow> lock_act list" where
  "AddAttestation_locks r new old = [Lock (RoundLock (r_Status r)), Access (RoundFields (r_Status r)) False] @
     (case old of
        Some att \<Rightarrow> [Access (LogFields att) True]
      | None \<Rightarrow> [Access (RoundFields (r_Status r)) True, Access (LogFields new) True]) @
     [Unlock (RoundLock (r_Status r))]"

definition sortAttestations_locks :: "Round \<Rightarrow> lock_act list" where
  "sortAttestations_locks r = map (\<lambda>a. Access (LogFields a) False) (r_Attestations r) @ [Access (RoundFields (r_Status r)) True]"

definition BitVoteFromAttestations_locks :: "nat list \<Rightarrow> lock_act list" where
  "BitVoteFromAttestations_locks as = (if length as > 65535 then [] else read_each outcome as)"

definition Round_BitVote_locks :: "'arg heap \<Rightarrow> Round \<Rightarrow> lock_act list" where
  "Round_BitVote_locks h r = [Lock (RoundLock (r_Status r))] @ sortAttestations_locks r @
     BitVoteFromAttestations_locks (r_Attestations (sortAttestations h r)) @ [Unlock (RoundLock (r_Status r))]"

definition setConsensusStatus_locks :: "nat list \<Rightarrow> BitVote \<Rightarrow> lock_act list" where
  "setConsensusStatus_locks as consensus = (if big_BitLen (bv_BitVector consensus) > length as then [] else write_each as)"

text \<open>\<^verbatim>\<open>ComputeConsensusBitVote\<close>, with the result of \<^verbatim>\<open>EnsembleConsensusBitVote\<close> (\<open>None\<close> for an error).\<close>

definition ComputeConsensusBitVote_locks :: "'arg heap \<Rightarrow> Round \<Rightarrow> BitVote option \<Rightarrow> lock_act list" where
  "ComputeConsensusBitVote_locks h r result = [Lock (RoundLock (r_Status r))] @ sortAttestations_locks r @
     map (\<lambda>a. Access (LogFields a) False) (r_Attestations (sortAttestations h r)) @ [Access (VoteFields (r_Status r)) False] @
     (case result of None \<Rightarrow> []
      | Some consensus \<Rightarrow> [Access (RoundFields (r_Status r)) True,
            Lock (StatusLock (r_Status r)), Access (StatusValue (r_Status r)) True, Unlock (StatusLock (r_Status r))] @
          setConsensusStatus_locks (r_Attestations (sortAttestations h r)) consensus) @
     [Access (RoundFields (r_Status r)) True, Unlock (RoundLock (r_Status r))]"

definition GetConsensusBitVote_locks :: "Round \<Rightarrow> lock_act list" where
  "GetConsensusBitVote_locks r = [Access (RoundFields (r_Status r)) False]"

definition ProcessBitVote_locks :: "Round \<Rightarrow> lock_act list" where
  "ProcessBitVote_locks r = [Access (RoundFields (r_Status r)) False, Access (VoteFields (r_Status r)) True]"

text \<open>\<^verbatim>\<open>MerkleTree\<close>; \<open>stop\<close> is the position of the first chosen attestation that is not confirmed.\<close>

definition MerkleTree_locks :: "Round \<Rightarrow> nat option \<Rightarrow> lock_act list" where
  "MerkleTree_locks r stop = [Lock (RoundLock (r_Status r)), Access (RoundFields (r_Status r)) False] @
     read_all outcome (visited stop (r_Attestations r)) @
     (if stop = None then [Access (RoundFields (r_Status r)) True,
        Lock (StatusLock (r_Status r)), Access (StatusValue (r_Status r)) True, Unlock (StatusLock (r_Status r))] else []) @
     release_all (visited stop (r_Attestations r)) @ [Unlock (RoundLock (r_Status r))]"

text \<open>\<^verbatim>\<open>MerkleTreeCached\<close>: with a tree in the cache it returns without \<^verbatim>\<open>RUnlock\<close>.\<close>

definition MerkleTreeCached_locks :: "Round \<Rightarrow> nat option \<Rightarrow> lock_act list" where
  "MerkleTreeCached_locks r stop = [RLock (RoundLock (r_Status r)), Access (RoundFields (r_Status r)) False] @
     (if r_merkleTree r \<noteq> [] then [] else [RUnlock (RoundLock (r_Status r))] @ MerkleTree_locks r stop)"

definition Discard_locks :: "Round \<Rightarrow> nat \<Rightarrow> lock_act list" where
  "Discard_locks r a = [RLock (AttLock a), Access (LogFields a) False, RLock (StatusLock (r_Status r)), Access (Outcome a) False,
     Access (StatusValue (r_Status r)) False, RUnlock (StatusLock (r_Status r)), RUnlock (AttLock a)]"

definition Handle_locks :: "nat \<Rightarrow> lock_act list" where
  "Handle_locks a = [Lock (AttLock a), Access (Outcome a) True, Unlock (AttLock a)]"

definition PrepareRequest_locks :: "nat \<Rightarrow> lock_act list" where
  "PrepareRequest_locks a = [Lock (AttLock a), Access (Outcome a) True, Unlock (AttLock a)]"

text \<open>\<^verbatim>\<open>retryUnsuccessfulChosen\<close>; \<open>stop\<close> is the position of an attestation whose queue does not exist.\<close>

definition retryUnsuccessfulChosen_locks :: "Round \<Rightarrow> nat option \<Rightarrow> lock_act list" where
  "retryUnsuccessfulChosen_locks r stop = [Access (RoundFields (r_Status r)) False] @
     read_all outcome_and_log (visited stop (r_Attestations r)) @ release_all (visited stop (r_Attestations r))"

definition GetRequests_locks :: "Round \<Rightarrow> lock_act list" where
  "GetRequests_locks r = [Access (RoundFields (r_Status r)) False] @ read_each outcome_and_log (r_Attestations r)"

text \<open>\<^verbatim>\<open>GetAttestations\<close>; the loop after the tree returns early at \<open>stop'\<close>.\<close>

definition GetAttestations_locks :: "Round \<Rightarrow> nat option \<Rightarrow> nat option \<Rightarrow> lock_act list" where
  "GetAttestations_locks r stop stop' = MerkleTree_locks r stop @
     (if stop = None
      then [Access (RoundFields (r_Status r)) False] @ read_each outcome (visited stop' (r_Attestations r)) else [])"

datatype lock_op = AddAttestationOp Round nat "nat option" | BitVoteOp Round | ConsensusOp Round "BitVote option" |
  GetConsensusOp Round | ProcessBitVoteOp Round | MerkleRootOp Round "nat option" | DiscardOp Round nat | HandleOp nat |
  PrepareOp nat | RetryOp Round "nat option" | GetRequestsOp Round | GetAttestationsOp Round "nat option" "nat option"

primrec op_locks :: "'arg heap \<Rightarrow> lock_op \<Rightarrow> lock_act list" where
  "op_locks h (AddAttestationOp r new old) = AddAttestation_locks r new old"
| "op_locks h (BitVoteOp r) = Round_BitVote_locks h r"
| "op_locks h (ConsensusOp r result) = ComputeConsensusBitVote_locks h r result"
| "op_locks h (GetConsensusOp r) = GetConsensusBitVote_locks r"
| "op_locks h (ProcessBitVoteOp r) = ProcessBitVote_locks r"
| "op_locks h (MerkleRootOp r stop) = MerkleTreeCached_locks r stop"
| "op_locks h (DiscardOp r a) = Discard_locks r a"
| "op_locks h (HandleOp a) = Handle_locks a"
| "op_locks h (PrepareOp a) = PrepareRequest_locks a"
| "op_locks h (RetryOp r stop) = retryUnsuccessfulChosen_locks r stop"
| "op_locks h (GetRequestsOp r) = GetRequests_locks r"
| "op_locks h (GetAttestationsOp r stop stop') = GetAttestations_locks r stop stop'"

text \<open>
  The goroutines: each runs a list of operations, one after the other. Rounds whose attestations are read
  all at once have them in canonical order (\<open>sortAttestations\<close> has run, and positions of logs are distinct);
  a Merkle root is not asked for when the tree is in the cache.
\<close>

definition canonical :: "'arg heap \<Rightarrow> Round \<Rightarrow> bool" where
  "canonical h r \<longleftrightarrow> sorted_wrt (\<lambda>a b. EarlierLog (index_of (h_atts h a)) (index_of (h_atts h b))) (r_Attestations r)"

fun op_ok :: "'arg heap \<Rightarrow> lock_op \<Rightarrow> bool" where
  "op_ok h (MerkleRootOp r stop) \<longleftrightarrow> canonical h r \<and> r_merkleTree r = []"
| "op_ok h (RetryOp r stop) \<longleftrightarrow> canonical h r"
| "op_ok h (GetAttestationsOp r stop stop') \<longleftrightarrow> canonical h r"
| "op_ok h _ \<longleftrightarrow> True"

definition goroutines :: "'arg heap \<Rightarrow> lock_op list list \<Rightarrow> lthread list" where
  "goroutines h opss = map (\<lambda>ops. lthread_of (concat (map (op_locks h) ops))) opss"

section \<open>Acquiring locks in order\<close>

text \<open>
  A program that holds \<open>rs\<close> for reading and \<open>ws\<close> for writing only asks for locks that come after all it holds,
  releases what it holds in the right way, holds nothing at its end, and accesses a cell that a mutex guards
  only while it holds that mutex, for writing if it writes.
\<close>

fun guard :: "cell \<Rightarrow> lock_name option" where
  "guard (Outcome a) = Some (AttLock a)"
| "guard (StatusValue s) = Some (StatusLock s)"
| "guard (LogFields a) = None"
| "guard (RoundFields s) = None"
| "guard (VoteFields s) = None"

definition guarded :: "lock_name list \<Rightarrow> lock_name list \<Rightarrow> cell \<Rightarrow> bool \<Rightarrow> bool" where
  "guarded rs ws c w \<longleftrightarrow> (\<forall>l. guard c = Some l \<longrightarrow> l \<in> set ws \<or> \<not> w \<and> l \<in> set rs)"

fun in_order :: "(lock_name \<Rightarrow> lock_name \<Rightarrow> bool) \<Rightarrow> lock_name list \<Rightarrow> lock_name list \<Rightarrow> lock_act list \<Rightarrow> bool" where
  "in_order before rs ws [] \<longleftrightarrow> rs = [] \<and> ws = []"
| "in_order before rs ws (Lock l # p) \<longleftrightarrow> (\<forall>k\<in>set rs \<union> set ws. before k l) \<and> in_order before rs (l # ws) p"
| "in_order before rs ws (RLock l # p) \<longleftrightarrow> (\<forall>k\<in>set rs \<union> set ws. before k l) \<and> in_order before (l # rs) ws p"
| "in_order before rs ws (Unlock l # p) \<longleftrightarrow> l \<in> set ws \<and> in_order before rs (remove1 l ws) p"
| "in_order before rs ws (RUnlock l # p) \<longleftrightarrow> l \<in> set rs \<and> in_order before (remove1 l rs) ws p"
| "in_order before rs ws (Access c w # p) \<longleftrightarrow> guarded rs ws c w \<and> in_order before rs ws p"

definition thread_ok :: "(lock_name \<Rightarrow> lock_name \<Rightarrow> bool) \<Rightarrow> lthread \<Rightarrow> bool" where
  "thread_ok before t \<longleftrightarrow> in_order before (lt_reads t) (lt_writes t) (lt_prog t) \<and>
     (\<forall>l. lt_waits t = Some l \<longrightarrow> (\<exists>p. lt_prog t = Lock l # p))"

text \<open>The mutex: a lock that one thread writes or waits to write is not written or waited for by another, nor read while it is written.\<close>

definition owns :: "lthread \<Rightarrow> lock_name set" where
  "owns t = set (lt_writes t) \<union> set_option (lt_waits t)"

definition keeps_out :: "lthread \<Rightarrow> lthread \<Rightarrow> bool" where
  "keeps_out t u \<longleftrightarrow> owns t \<inter> owns u = {} \<and> set (lt_writes t) \<inter> set (lt_reads u) = {}"

definition exclusive :: "lthread list \<Rightarrow> bool" where
  "exclusive ts \<longleftrightarrow> (\<forall>i<length ts. \<forall>j<length ts. i \<noteq> j \<longrightarrow> keeps_out (ts ! i) (ts ! j))"

definition work :: "lthread \<Rightarrow> nat" where
  "work t = 2 * length (lt_prog t) - (if lt_waits t = None then 0 else 1)"

lemma exclusive_update:
  assumes "exclusive ts" "i < length ts"
    "\<And>u. u \<in> set ts \<Longrightarrow> keeps_out (ts ! i) u \<Longrightarrow> keeps_out u (ts ! i) \<Longrightarrow> keeps_out t u \<and> keeps_out u t"
  shows "exclusive (ts[i := t])"
  using assms by (auto simp: exclusive_def nth_list_update)

lemma no_writer_owns: "no_writer l ts \<longleftrightarrow> (\<forall>t\<in>set ts. l \<notin> owns t)"
  by (auto simp: no_writer_def owns_def)

lemma exclusive_step:
  assumes "lock_step ts ts'" "exclusive ts"
  shows "exclusive ts'"
  using assms(1)
proof cases
  case (announce i l p)
  show ?thesis unfolding announce(1)
  proof (rule exclusive_update [OF assms(2) announce(2)])
    fix u
    assume "u \<in> set ts" and out: "keeps_out (ts ! i) u" "keeps_out u (ts ! i)"
    then have "l \<notin> owns u" using announce(5) by (simp add: no_writer_owns)
    with out announce(4) show "keeps_out ((ts ! i)\<lparr>lt_waits := Some l\<rparr>) u \<and> keeps_out u ((ts ! i)\<lparr>lt_waits := Some l\<rparr>)"
      by (auto simp: keeps_out_def owns_def)
  qed
next
  case (lock i l p)
  show ?thesis unfolding lock(1)
  proof (rule exclusive_update [OF assms(2) lock(2)])
    fix u
    assume "u \<in> set ts" and out: "keeps_out (ts ! i) u" "keeps_out u (ts ! i)"
    then have "l \<notin> set (lt_reads u)" using lock(5) by (simp add: no_reader_def)
    with out lock(4) show "keeps_out ((ts ! i)\<lparr>lt_waits := None, lt_writes := l # lt_writes (ts ! i), lt_prog := p\<rparr>) u \<and>
        keeps_out u ((ts ! i)\<lparr>lt_waits := None, lt_writes := l # lt_writes (ts ! i), lt_prog := p\<rparr>)"
      by (simp add: keeps_out_def owns_def)
  qed
next
  case (rlock i l p)
  show ?thesis unfolding rlock(1)
  proof (rule exclusive_update [OF assms(2) rlock(2)])
    fix u
    assume "u \<in> set ts" and out: "keeps_out (ts ! i) u" "keeps_out u (ts ! i)"
    then have "l \<notin> owns u" using rlock(4) by (simp add: no_writer_owns)
    with out show "keeps_out ((ts ! i)\<lparr>lt_reads := l # lt_reads (ts ! i), lt_prog := p\<rparr>) u \<and>
        keeps_out u ((ts ! i)\<lparr>lt_reads := l # lt_reads (ts ! i), lt_prog := p\<rparr>)"
      by (simp add: keeps_out_def owns_def)
  qed
next
  case (unlock i l p)
  show ?thesis unfolding unlock(1)
    by (rule exclusive_update [OF assms(2) unlock(2)])
      (use set_remove1_subset [of l "lt_writes (ts ! i)"] in \<open>auto simp: keeps_out_def owns_def\<close>)
next
  case (runlock i l p)
  show ?thesis unfolding runlock(1)
    by (rule exclusive_update [OF assms(2) runlock(2)])
      (use set_remove1_subset [of l "lt_reads (ts ! i)"] in \<open>auto simp: keeps_out_def owns_def\<close>)
next
  case (access i c w p)
  show ?thesis unfolding access(1) by (rule exclusive_update [OF assms(2) access(2)]) (simp add: keeps_out_def owns_def)
qed

text \<open>A step changes one thread, keeps it in order and leaves it less to do.\<close>

lemma lock_step_thread:
  assumes "lock_step ts ts'"
  obtains i t' where "i < length ts" "ts' = ts[i := t']"
    "\<And>before. thread_ok before (ts ! i) \<Longrightarrow> thread_ok before t' \<and> work t' < work (ts ! i)"
  using assms
proof cases
  case (announce i l p)
  show ?thesis by (rule that [OF announce(2,1)]) (use announce in \<open>simp add: thread_ok_def work_def\<close>)
next
  case (lock i l p)
  show ?thesis by (rule that [OF lock(2,1)]) (use lock in \<open>simp add: thread_ok_def work_def\<close>)
next
  case (rlock i l p)
  show ?thesis by (rule that [OF rlock(2,1)]) (use rlock in \<open>auto simp: thread_ok_def work_def\<close>)
next
  case (unlock i l p)
  show ?thesis by (rule that [OF unlock(2,1)]) (use unlock in \<open>auto simp: thread_ok_def work_def\<close>)
next
  case (runlock i l p)
  show ?thesis by (rule that [OF runlock(2,1)]) (use runlock in \<open>auto simp: thread_ok_def work_def\<close>)
next
  case (access i c w p)
  show ?thesis by (rule that [OF access(2,1)]) (use access in \<open>auto simp: thread_ok_def work_def\<close>)
qed

lemma thread_ok_step:
  assumes "lock_step ts ts'" "\<forall>t\<in>set ts. thread_ok before t"
  shows "\<forall>t\<in>set ts'. thread_ok before t"
  using assms(1)
proof (rule lock_step_thread)
  fix i t'
  assume "i < length ts" "ts' = ts[i := t']"
    "\<And>before. thread_ok before (ts ! i) \<Longrightarrow> thread_ok before t' \<and> work t' < work (ts ! i)"
  with assms(2) set_update_subset_insert [of ts i t'] nth_mem [of i ts] show ?thesis by blast
qed

lemma work_step:
  assumes "lock_step ts ts'" "\<forall>t\<in>set ts. thread_ok before t"
  shows "sum_list (map work ts') < sum_list (map work ts)"
  using assms(1)
proof (rule lock_step_thread)
  fix i t'
  assume i: "i < length ts" "ts' = ts[i := t']"
    and less: "\<And>before. thread_ok before (ts ! i) \<Longrightarrow> thread_ok before t' \<and> work t' < work (ts ! i)"
  have "work t' < work (ts ! i)" using less [of before] assms(2) i(1) by simp
  moreover have "work (ts ! i) \<le> sum_list (map work ts)" using i(1) by (simp add: member_le_sum_list)
  ultimately show ?thesis using i by (simp add: map_update sum_list_update)
qed

locale lock_order =
  fixes before :: "lock_name \<Rightarrow> lock_name \<Rightarrow> bool"
  assumes irrefl: "\<not> before l l"
    and trans: "before k l \<Longrightarrow> before l m \<Longrightarrow> before k m"
begin

text \<open>
  Of the locks that unfinished threads ask for, take one that no other comes after: whoever keeps it back
  would itself ask for a later one.
\<close>

lemma holder_wants_later:
  assumes ok: "thread_ok before t" and held: "l \<in> set (lt_reads t) \<union> set (lt_writes t)"
    and acquires: "\<And>k p. lt_prog t \<noteq> Unlock k # p" "\<And>k p. lt_prog t \<noteq> RUnlock k # p" "\<And>c w p. lt_prog t \<noteq> Access c w # p"
  obtains k p where "before l k" "lt_prog t = Lock k # p \<or> lt_prog t = RLock k # p"
proof (cases "lt_prog t")
  case Nil
  with ok held show ?thesis by (simp add: thread_ok_def)
next
  case (Cons act p)
  with ok held acquires that show ?thesis by (cases act) (auto simp: thread_ok_def)
qed

lemma progress:
  assumes ok: "\<forall>t\<in>set ts. thread_ok before t"
  shows "finished ts \<or> (\<exists>ts'. lock_step ts ts')"
proof (rule ccontr)
  assume neg: "\<not> (finished ts \<or> (\<exists>ts'. lock_step ts ts'))"
  then have stuck: "\<not> lock_step ts ts'" for ts' by blast
  have no_release: "lt_prog t \<noteq> Unlock k # p" "lt_prog t \<noteq> RUnlock k # p" "lt_prog t \<noteq> Access c w # p"
    if "t \<in> set ts" for t k p c w
  proof -
    from that obtain i where i: "i < length ts" "ts ! i = t" by (auto simp: in_set_conv_nth)
    show "lt_prog t \<noteq> Unlock k # p" "lt_prog t \<noteq> RUnlock k # p" "lt_prog t \<noteq> Access c w # p"
      using ok that i stuck unlock [of i ts k p] runlock [of i ts k p] access [of i ts c w p] by (auto simp: thread_ok_def)
  qed
  define W where "W = {l. \<exists>t\<in>set ts. \<exists>p. lt_prog t = Lock l # p \<or> lt_prog t = RLock l # p}"
  have later: "\<exists>k\<in>W. before l k" if "t \<in> set ts" "l \<in> set (lt_reads t) \<union> set (lt_writes t)" for t l
    using holder_wants_later [of t l] ok that no_release [OF that(1)] by (auto simp: W_def) metis+
  have "W \<subseteq> (\<lambda>t. case hd (lt_prog t) of Lock l \<Rightarrow> l | RLock l \<Rightarrow> l | Unlock l \<Rightarrow> l | RUnlock l \<Rightarrow> l | Access c w \<Rightarrow> undefined) ` set ts"
    by (force simp: W_def)
  then have "finite W" by (rule finite_subset) simp
  moreover have "W \<noteq> {}"
  proof -
    from neg obtain t where t: "t \<in> set ts" "lt_prog t \<noteq> []" by (auto simp: finished_def)
    then obtain act p where p: "lt_prog t = act # p" by (cases "lt_prog t") auto
    show ?thesis using t p no_release [OF t(1), where p = p] by (cases act) (auto simp: W_def)
  qed
  moreover have "asymp_on W before" "transp_on W before"
    using irrefl trans unfolding asymp_on_def transp_on_def by blast+
  ultimately obtain l where l: "l \<in> W" and top: "\<forall>k\<in>W. k \<noteq> l \<longrightarrow> \<not> before l k" using Finite_Set.bex_max_element [of W before] by blast
  with irrefl have top: "\<not> before l k" if "k \<in> W" for k using that by metis
  have free: "l \<notin> set (lt_reads t) \<and> l \<notin> set (lt_writes t)" if "t \<in> set ts" for t using later [OF that] top by blast
  then have no_reader: "no_reader l ts" by (simp add: no_reader_def)
  have waiting: "lt_waits t \<noteq> Some l" if t: "t \<in> set ts" for t
  proof
    assume "lt_waits t = Some l"
    with ok t obtain p where "lt_prog t = Lock l # p" by (auto simp: thread_ok_def)
    with t \<open>lt_waits t = Some l\<close> no_reader stuck lock show False by (metis in_set_conv_nth)
  qed
  then have "no_writer l ts" using free by (simp add: no_writer_def)
  moreover obtain i p where i: "i < length ts" and p: "lt_prog (ts ! i) = Lock l # p \<or> lt_prog (ts ! i) = RLock l # p"
    using l by (auto simp: W_def in_set_conv_nth)
  moreover have "lt_waits (ts ! i) = None"
  proof (cases "lt_waits (ts ! i)")
    case (Some k)
    moreover have "thread_ok before (ts ! i)" "lt_waits (ts ! i) \<noteq> Some l" using ok i waiting by simp_all
    ultimately show ?thesis using p by (auto simp: thread_ok_def)
  qed
  ultimately show False using stuck announce rlock by metis
qed

lemma run_ok: "lock_run ts ts' \<Longrightarrow> \<forall>t\<in>set ts. thread_ok before t \<Longrightarrow> \<forall>t\<in>set ts'. thread_ok before t"
  by (induction rule: rtranclp_induct) (simp, rule thread_ok_step)

lemma can_finish: "\<forall>t\<in>set ts. thread_ok before t \<Longrightarrow> \<exists>ts'. lock_run ts ts' \<and> finished ts'"
proof (induction "sum_list (map work ts)" arbitrary: ts rule: less_induct)
  case less
  from progress [OF less.prems] consider "finished ts" | ts1 where "lock_step ts ts1" by blast
  then show ?case
  proof cases
    case 2
    from less.hyps [OF work_step [OF 2 less.prems] thread_ok_step [OF 2 less.prems]]
    show ?thesis using 2 by (meson converse_rtranclp_into_rtranclp)
  qed blast
qed

lemma run_length: "(lock_step ^^ n) ts ts' \<Longrightarrow> \<forall>t\<in>set ts. thread_ok before t \<Longrightarrow> n + sum_list (map work ts') \<le> sum_list (map work ts)"
proof (induction n arbitrary: ts')
  case (Suc n)
  then obtain ts1 where s: "(lock_step ^^ n) ts ts1" "lock_step ts1 ts'" by auto
  have "\<forall>t\<in>set ts1. thread_ok before t" using run_ok [OF relpowp_imp_rtranclp [OF s(1)] Suc.prems(2)] .
  from work_step [OF s(2) this] Suc.IH [OF s(1) Suc.prems(2)] show ?case by linarith
qed simp

end

section \<open>The order of the client\<close>

text \<open>A round before its attestations, these in the order of their logs, and the status after all.\<close>

fun lock_before :: "'arg heap \<Rightarrow> lock_name \<Rightarrow> lock_name \<Rightarrow> bool" where
  "lock_before h (RoundLock i) (AttLock b) \<longleftrightarrow> True"
| "lock_before h (RoundLock i) (StatusLock j) \<longleftrightarrow> True"
| "lock_before h (AttLock a) (AttLock b) \<longleftrightarrow> EarlierLog (index_of (h_atts h a)) (index_of (h_atts h b))"
| "lock_before h (AttLock a) (StatusLock j) \<longleftrightarrow> True"
| "lock_before h _ _ \<longleftrightarrow> False"

interpretation clientLocks: lock_order "lock_before h" for h :: "'arg heap"
proof
  fix k l m
  show "\<not> lock_before h l l" by (cases l) (auto simp: EarlierLog_def)
  show "lock_before h k l \<Longrightarrow> lock_before h l m \<Longrightarrow> lock_before h k m"
    by (cases k; cases l; cases m) (auto intro: EarlierLog_trans)
qed

lemma in_order_accesses [simp]:
  "in_order before rs ws (map (\<lambda>a. Access (LogFields a) w) as @ q) \<longleftrightarrow> in_order before rs ws q"
  by (induction as) (simp_all add: guarded_def)

lemma in_order_outcome [simp]:
  "in_order before (AttLock a # rs) ws (outcome a @ q) \<longleftrightarrow> in_order before (AttLock a # rs) ws q"
  "in_order before (AttLock a # rs) ws (outcome_and_log a @ q) \<longleftrightarrow> in_order before (AttLock a # rs) ws q"
  by (simp_all add: outcome_def outcome_and_log_def guarded_def)

lemma in_order_read_each:
  assumes "\<And>a rs ws q. in_order (lock_before h) (AttLock a # rs) ws (acc a @ q) \<longleftrightarrow> in_order (lock_before h) (AttLock a # rs) ws q"
    and "\<forall>k\<in>set ws. \<forall>a. lock_before h k (AttLock a)"
  shows "in_order (lock_before h) [] ws (read_each acc as @ q) \<longleftrightarrow> in_order (lock_before h) [] ws q"
  using assms(2) by (induction as) (simp_all add: read_each_def assms(1))

lemma in_order_write_each:
  "(\<forall>k\<in>set ws. \<forall>a. lock_before h k (AttLock a)) \<Longrightarrow>
   in_order (lock_before h) [] ws (write_each as @ q) \<longleftrightarrow> in_order (lock_before h) [] ws q"
  by (induction as) (simp_all add: write_each_def guarded_def)

lemma in_order_read_all:
  assumes "\<And>a rs ws q. in_order (lock_before h) (AttLock a # rs) ws (acc a @ q) \<longleftrightarrow> in_order (lock_before h) (AttLock a # rs) ws q"
    and "sorted_wrt (\<lambda>a b. EarlierLog (index_of (h_atts h a)) (index_of (h_atts h b))) as"
    "\<forall>k\<in>set rs \<union> set ws. \<forall>a\<in>set as. lock_before h k (AttLock a)"
  shows "in_order (lock_before h) rs ws (read_all acc as @ q) \<longleftrightarrow> in_order (lock_before h) (rev (map AttLock as) @ rs) ws q"
  using assms(2,3) by (induction as arbitrary: rs) (auto simp: read_all_def assms(1))

lemma in_order_release_all:
  "in_order before (rev (map AttLock as) @ rs) ws (release_all as @ q) \<longleftrightarrow> in_order before rs ws q"
  by (induction as rule: rev_induct) (simp_all add: release_all_def)

lemma canonical_visited:
  "canonical h r \<Longrightarrow> sorted_wrt (\<lambda>a b. EarlierLog (index_of (h_atts h a)) (index_of (h_atts h b))) (visited stop (r_Attestations r))"
  by (simp add: canonical_def visited_def sorted_wrt_take split: option.split)

lemma in_order_MerkleTree:
  assumes "canonical h r"
  shows "in_order (lock_before h) [] [] (MerkleTree_locks r stop @ q) \<longleftrightarrow> in_order (lock_before h) [] [] q"
  by (simp add: MerkleTree_locks_def in_order_read_all [OF in_order_outcome(1) canonical_visited [OF assms]] guarded_def
      in_order_release_all [where rs = "[]", simplified])

text \<open>Every operation acquires in this order, and holds nothing when it has returned.\<close>

lemma op_in_order:
  assumes "op_ok h op"
  shows "in_order (lock_before h) [] [] (op_locks h op @ q) \<longleftrightarrow> in_order (lock_before h) [] [] q"
proof (cases op)
  case (RetryOp r stop)
  with assms show ?thesis
    by (simp add: retryUnsuccessfulChosen_locks_def in_order_read_all [OF in_order_outcome(2) canonical_visited] guarded_def
        in_order_release_all [where rs = "[]", simplified])
next
  case (ConsensusOp r result)
  then show ?thesis
    by (simp add: ComputeConsensusBitVote_locks_def sortAttestations_locks_def setConsensusStatus_locks_def in_order_write_each
        guarded_def split: option.split)
qed (use assms in \<open>auto simp: AddAttestation_locks_def Round_BitVote_locks_def BitVoteFromAttestations_locks_def
      MerkleTreeCached_locks_def Discard_locks_def Handle_locks_def PrepareRequest_locks_def GetRequests_locks_def
      GetAttestations_locks_def GetConsensusBitVote_locks_def ProcessBitVote_locks_def sortAttestations_locks_def
      in_order_read_each [OF in_order_outcome(1)] in_order_read_each [OF in_order_outcome(2)] in_order_MerkleTree guarded_def
      split: option.split\<close>)

lemma goroutines_ok:
  assumes "\<forall>ops\<in>set opss. \<forall>op\<in>set ops. op_ok h op"
  shows "\<forall>t\<in>set (goroutines h opss). thread_ok (lock_before h) t"
proof -
  have "\<forall>op\<in>set ops. op_ok h op \<Longrightarrow> in_order (lock_before h) [] [] (concat (map (op_locks h) ops))" for ops
    by (induction ops) (simp_all add: op_in_order)
  with assms show ?thesis by (auto simp: goroutines_def thread_ok_def lthread_of_def)
qed

lemma goroutines_exclusive: "exclusive (goroutines h opss)"
  by (auto simp: exclusive_def keeps_out_def owns_def goroutines_def lthread_of_def)

lemma lock_run_exclusive: "lock_run ts ts' \<Longrightarrow> exclusive ts \<Longrightarrow> exclusive ts'"
  by (induction rule: rtranclp_induct) (simp, rule exclusive_step)

lemma finished_holds_nothing:
  assumes "finished ts" "t \<in> set ts" "thread_ok before t"
  shows "lt_reads t = []" "lt_writes t = []"
  using assms by (auto simp: finished_def thread_ok_def)


text \<open>Two providers' requests at a round of three attestations while a worker handles one of them and the manager retries.\<close>

definition locks_heap :: "nat heap" where
  "locks_heap = \<lparr>h_atts = (\<lambda>a. sample_attestation\<lparr>at_Indexes := [\<lparr>il_BlockNumber = 7, il_LogIndex = of_nat a\<rparr>]\<rparr>), h_status = (\<lambda>_. PreConsensus)\<rparr>"

definition locks_round :: "nat list \<Rightarrow> Round" where
  "locks_round as = sample_round\<lparr>r_Attestations := as\<rparr>"


text \<open>The step of one thread, as a function; a list of threads to run is a schedule.\<close>

definition lock_exec :: "lthread list \<Rightarrow> nat \<Rightarrow> lthread list option" where
  "lock_exec ts i =
     (if length ts \<le> i then None
      else (let t = ts ! i in
        case lt_prog t of
          [] \<Rightarrow> None
        | Lock l # p \<Rightarrow>
            (if lt_waits t = None \<and> no_writer l ts then Some (ts[i := t\<lparr>lt_waits := Some l\<rparr>])
             else if lt_waits t = Some l \<and> no_reader l ts
             then Some (ts[i := t\<lparr>lt_waits := None, lt_writes := l # lt_writes t, lt_prog := p\<rparr>])
             else None)
        | RLock l # p \<Rightarrow> (if no_writer l ts then Some (ts[i := t\<lparr>lt_reads := l # lt_reads t, lt_prog := p\<rparr>]) else None)
        | Unlock l # p \<Rightarrow>
            (if l \<in> set (lt_writes t) then Some (ts[i := t\<lparr>lt_writes := remove1 l (lt_writes t), lt_prog := p\<rparr>]) else None)
        | RUnlock l # p \<Rightarrow>
            (if l \<in> set (lt_reads t) then Some (ts[i := t\<lparr>lt_reads := remove1 l (lt_reads t), lt_prog := p\<rparr>]) else None)
        | Access c w # p \<Rightarrow> Some (ts[i := t\<lparr>lt_prog := p\<rparr>])))"

fun lock_execs :: "lthread list \<Rightarrow> nat list \<Rightarrow> lthread list option" where
  "lock_execs ts [] = Some ts"
| "lock_execs ts (i # is) = (case lock_exec ts i of None \<Rightarrow> None | Some ts' \<Rightarrow> lock_execs ts' is)"

lemma lock_exec_step: "lock_exec ts i = Some ts' \<Longrightarrow> lock_step ts ts'"
  by (auto simp: lock_exec_def Let_def not_le intro: lock_step.intros split: if_splits list.splits lock_act.splits)

lemma lock_step_exec: "lock_step ts ts' \<Longrightarrow> \<exists>i<length ts. lock_exec ts i = Some ts'"
proof (induction rule: lock_step.induct)
  case (announce i ts l p)
  then show ?case by (intro exI [of _ i]) (simp add: lock_exec_def Let_def)
next
  case (lock i ts l p)
  then show ?case by (intro exI [of _ i]) (simp add: lock_exec_def Let_def)
next
  case (rlock i ts l p)
  then show ?case by (intro exI [of _ i]) (simp add: lock_exec_def Let_def)
next
  case (unlock i ts l p)
  then show ?case by (intro exI [of _ i]) (simp add: lock_exec_def Let_def)
next
  case (runlock i ts l p)
  then show ?case by (intro exI [of _ i]) (simp add: lock_exec_def Let_def)
next
  case (access i ts c w p)
  then show ?case by (intro exI [of _ i]) (simp add: lock_exec_def Let_def)
qed

lemma lock_execs_run: "lock_execs ts is = Some ts' \<Longrightarrow> lock_run ts ts'"
  by (induction ts "is" rule: lock_execs.induct) (auto split: option.splits dest: lock_exec_step intro: converse_rtranclp_into_rtranclp)

lemmas lock_exec_simps = lock_exec_def no_writer_def no_reader_def lthread_of_def

text \<open>Two threads are about to access the cell \<open>c\<close>, one of them to write it.\<close>

definition race :: "cell \<Rightarrow> lthread list \<Rightarrow> bool" where
  "race c ts \<longleftrightarrow> (\<exists>i<length ts. \<exists>j<length ts. i \<noteq> j \<and>
     (\<exists>w w' p q. lt_prog (ts ! i) = Access c w # p \<and> lt_prog (ts ! j) = Access c w' # q \<and> (w \<or> w')))"

lemma guarded_no_race:
  assumes "exclusive ts" "\<forall>t\<in>set ts. thread_ok before t" "guard c = Some l"
  shows "\<not> race c ts"
proof
  assume "race c ts"
  then obtain i j p q w' where ij: "i < length ts" "j < length ts" "i \<noteq> j"
    and acc: "lt_prog (ts ! i) = Access c True # p" "lt_prog (ts ! j) = Access c w' # q"
    unfolding race_def by metis
  have "thread_ok before (ts ! i)" "thread_ok before (ts ! j)" using assms(2) ij by simp_all
  then have "l \<in> set (lt_writes (ts ! i))" "l \<in> set (lt_writes (ts ! j)) \<or> l \<in> set (lt_reads (ts ! j))"
    using acc assms(3) by (auto simp: thread_ok_def guarded_def)
  moreover have "keeps_out (ts ! i) (ts ! j)" using assms(1) ij by (simp add: exclusive_def)
  ultimately show False by (auto simp: keeps_out_def owns_def)
qed

text \<open>
  C16. No data races on what decides the consensus: in every state that such goroutines reach, no two of them are about
  to access the status, the consensus flag, the response or the hash of the same attestation, or the status of
  the same round, with one of the accesses a write.
\<close>

theorem no_data_race:
  assumes "\<forall>ops\<in>set opss. \<forall>op\<in>set ops. op_ok h op" "lock_run (goroutines h opss) ts"
  shows "\<not> race (Outcome a) ts \<and> \<not> race (StatusValue s) ts"
  using guarded_no_race [OF lock_run_exclusive [OF assms(2) goroutines_exclusive] clientLocks.run_ok [OF assms(2) goroutines_ok [OF assms(1)]]]
  by simp

text \<open>A worker that stores the outcome of an attestation while the manager asks whether to discard it.\<close>

theorem no_data_race_witness:
  "\<exists>ts. lock_run (goroutines locks_heap [[DiscardOp (locks_round [1, 2]) 2], [HandleOp 2]]) ts \<and>
     lt_prog (ts ! 1) = [Access (Outcome 2) True, Unlock (AttLock 2)] \<and> \<not> race (Outcome 2) ts \<and> \<not> race (StatusValue 0) ts"
proof -
  obtain ts where ts: "lock_execs (goroutines locks_heap [[DiscardOp (locks_round [1, 2]) 2], [HandleOp 2]]) [1, 1] = Some ts"
    and prog: "lt_prog (ts ! 1) = [Access (Outcome 2) True, Unlock (AttLock 2)]"
    by (simp add: goroutines_def Discard_locks_def Handle_locks_def lock_exec_simps)
  have ok: "\<forall>ops\<in>set [[DiscardOp (locks_round [1, 2]) 2], [HandleOp 2]]. \<forall>op\<in>set ops. op_ok locks_heap op" by simp
  from no_data_race [OF ok lock_execs_run [OF ts], of 2 0] lock_execs_run [OF ts] prog show ?thesis by blast
qed

section \<open>The conditions are needed\<close>

definition deadlocked :: "lthread list \<Rightarrow> bool" where
  "deadlocked ts \<longleftrightarrow> \<not> finished ts \<and> (\<forall>i<length ts. lock_exec ts i = None)"

lemma deadlocked_iff: "deadlocked ts \<longleftrightarrow> \<not> finished ts \<and> (\<forall>ts'. \<not> lock_step ts ts')"
  unfolding deadlocked_def using lock_exec_step lock_step_exec by (metis not_None_eq)

text \<open>A Merkle root from the cache leaves a read lock behind, so a request added afterwards never returns.\<close>

lemma cached_tree_deadlock:
  assumes "r_merkleTree r \<noteq> []"
  shows "\<exists>ts. lock_run (goroutines h [[MerkleRootOp r stop], [AddAttestationOp r new old]]) ts \<and> deadlocked ts"
proof -
  obtain ts where ts: "lock_execs (goroutines h [[MerkleRootOp r stop], [AddAttestationOp r new old]]) [0, 0, 1] = Some ts"
    and "deadlocked ts"
    using assms by (simp add: goroutines_def MerkleTreeCached_locks_def AddAttestation_locks_def lock_exec_simps deadlocked_def
        finished_def All_less_Suc numeral_2_eq_2)
  with lock_execs_run [OF ts] show ?thesis by blast
qed

text \<open>
  Two goroutines that lock the same two attestations for reading in different orders, and two handlers that have
  announced themselves between their first and second lock, wait for each other for ever.
\<close>

lemma different_orders_deadlock:
  assumes "a \<noteq> b" "r_Attestations r = [a, b]" "r_Attestations r' = [b, a]"
  shows "\<exists>ts. lock_run (goroutines h [[RetryOp r None], [RetryOp r' None], [HandleOp a], [HandleOp b]]) ts \<and> deadlocked ts"
proof -
  obtain ts where ts: "lock_execs (goroutines h [[RetryOp r None], [RetryOp r' None], [HandleOp a], [HandleOp b]])
      [0, 0, 0, 0, 1, 1, 1, 1, 2, 3] = Some ts" and "deadlocked ts"
    using assms by (simp add: goroutines_def retryUnsuccessfulChosen_locks_def read_all_def release_all_def visited_def
        outcome_and_log_def Handle_locks_def lock_exec_simps deadlocked_def finished_def All_less_Suc numeral_2_eq_2 numeral_3_eq_3)
  with lock_execs_run [OF ts] show ?thesis by blast
qed

text \<open>
  The positions of an attestation have no mutex of their own: while the manager adds a second log of a request, a
  query for the requests of the round reads them.
\<close>

lemma positions_race:
  assumes "r_Attestations r = [a]"
  shows "\<exists>ts. lock_run (goroutines h [[AddAttestationOp r new (Some a)], [GetRequestsOp r]]) ts \<and> race (LogFields a) ts"
proof -
  obtain ts where ts: "lock_execs (goroutines h [[AddAttestationOp r new (Some a)], [GetRequestsOp r]]) [0, 0, 0, 1, 1, 1] = Some ts"
    and "\<exists>p q. lt_prog (ts ! 0) = Access (LogFields a) True # p \<and> lt_prog (ts ! 1) = Access (LogFields a) False # q" "length ts = 2"
    using assms by (simp add: goroutines_def AddAttestation_locks_def GetRequests_locks_def read_each_def outcome_and_log_def lock_exec_simps)
  then have "race (LogFields a) ts" unfolding race_def by (intro exI [of _ 0] exI [of _ 1] conjI) auto
  with lock_execs_run [OF ts] show ?thesis by blast
qed

end
