(* ===== verification/Registry.thy ===== *)
theory Registry
  imports Collector
begin

text \<open>
  The events of the voter registry contract: \<^verbatim>\<open>registry/registry.go\<close> and what it uses of the generated binding
  \<^verbatim>\<open>registry/autogen.go\<close>. The ABI parser, the bound contract with its \<^verbatim>\<open>UnpackLog\<close>, and the conversion of a database
  log are code of libraries and parameters.

  Shown here: the map from submit addresses to signing policy addresses is built exactly when every event
  parses, and then it holds for every submit address the signing policy address of its last event.
\<close>

record PublicKey =
  pk_X :: bytes
  pk_Y :: bytes

record Signature =
  sg_V :: u8
  sg_R :: bytes
  sg_S :: bytes

record 'chainlog RegistryVoterRegistered =
  rvr_Voter :: address
  rvr_RewardEpochId :: u32
  rvr_SigningPolicyAddress :: address
  rvr_SubmitAddress :: address
  rvr_SubmitSignaturesAddress :: address
  rvr_PublicKey :: PublicKey
  rvr_RegistrationWeight :: int
  rvr_Signature :: Signature
  rvr_Raw :: 'chainlog

text \<open>What the binding uses of go-ethereum; a contract is bound to an address and an ABI.\<close>

record ('abi, 'contract, 'chainlog) bind_lib =
  bl_GetAbi :: "'abi option"
  bl_NewBoundContract :: "address \<Rightarrow> 'abi \<Rightarrow> 'contract"
  bl_UnpackLog :: "'contract \<Rightarrow> string \<Rightarrow> 'chainlog \<Rightarrow> 'chainlog RegistryVoterRegistered option"

definition bindRegistry :: "('abi, 'contract, 'chainlog) bind_lib \<Rightarrow> address \<Rightarrow> 'contract option" where
  "bindRegistry B addr =
     (case bl_GetAbi B of None \<Rightarrow> None | Some parsed \<Rightarrow> Some (bl_NewBoundContract B addr parsed))"

definition NewRegistryFilterer :: "('abi, 'contract, 'chainlog) bind_lib \<Rightarrow> address \<Rightarrow> 'contract option" where
  "NewRegistryFilterer B addr = (case bindRegistry B addr of None \<Rightarrow> None | Some contract \<Rightarrow> Some contract)"

definition ParseVoterRegistered ::
  "('abi, 'contract, 'chainlog) bind_lib \<Rightarrow> 'contract \<Rightarrow> 'chainlog \<Rightarrow> 'chainlog RegistryVoterRegistered option" where
  "ParseVoterRegistered B contract log =
     (case bl_UnpackLog B contract ''VoterRegistered'' log of
        None \<Rightarrow> None
      | Some event \<Rightarrow> Some (event\<lparr>rvr_Raw := log\<rparr>))"

text \<open>The address of the binding is the zero address: only the ABI is used to unpack.\<close>

definition ParseVoterRegisteredEvent ::
  "('abi, 'contract, 'chainlog) bind_lib \<Rightarrow> ('log \<Rightarrow> 'chainlog option) \<Rightarrow> 'log \<Rightarrow> 'chainlog RegistryVoterRegistered option" where
  "ParseVoterRegisteredEvent B ConvertDatabaseLogToChainLog dbLog =
     (case NewRegistryFilterer B (replicate 20 0) of
        None \<Rightarrow> None
      | Some filterer \<Rightarrow>
          (case ConvertDatabaseLogToChainLog dbLog of
             None \<Rightarrow> None
           | Some contractLog \<Rightarrow> ParseVoterRegistered B filterer contractLog))"

definition BuildSubmitToSigningPolicyAddressNew ::
  "('abi, 'contract, 'chainlog) bind_lib \<Rightarrow> ('log \<Rightarrow> 'chainlog option) \<Rightarrow> 'log list \<Rightarrow> (address \<rightharpoonup> address) option" where
  "BuildSubmitToSigningPolicyAddressNew B ConvertDatabaseLogToChainLog registryEvents =
     BuildSubmitToSigningPolicyAddress
       (\<lambda>log. case ParseVoterRegisteredEvent B ConvertDatabaseLogToChainLog log of
                None \<Rightarrow> None
              | Some event \<Rightarrow> Some \<lparr>vr_SubmitAddress = rvr_SubmitAddress event, vr_SigningPolicyAddress = rvr_SigningPolicyAddress event\<rparr>)
       registryEvents"

section \<open>Lemmas\<close>

text \<open>The loop, for any parser.\<close>

lemma BuildSubmit_snoc:
  "BuildSubmitToSigningPolicyAddress parse (logs @ [log]) =
     (case BuildSubmitToSigningPolicyAddress parse logs of
        None \<Rightarrow> None
      | Some m \<Rightarrow> map_option (\<lambda>event. m(vr_SubmitAddress event \<mapsto> vr_SigningPolicyAddress event)) (parse log))"
  by (simp add: BuildSubmitToSigningPolicyAddress_def split: option.split)

text \<open>Events parse exactly when the ABI does, the log converts, and the contract unpacks it.\<close>

lemma ParseVoterRegisteredEvent_Some:
  "ParseVoterRegisteredEvent B convert dbLog = Some event \<longleftrightarrow>
     (\<exists>parsed contractLog event0. bl_GetAbi B = Some parsed \<and> convert dbLog = Some contractLog \<and>
        bl_UnpackLog B (bl_NewBoundContract B (replicate 20 0) parsed) ''VoterRegistered'' contractLog = Some event0 \<and>
        event = event0\<lparr>rvr_Raw := contractLog\<rparr>)"
  by (auto simp: ParseVoterRegisteredEvent_def NewRegistryFilterer_def bindRegistry_def ParseVoterRegistered_def split: option.splits)

lemma submit_addresses_complete:
  "BuildSubmitToSigningPolicyAddressNew B convert logs =
     (if \<forall>log\<in>set logs. ParseVoterRegisteredEvent B convert log \<noteq> None
      then Some (map_of (rev (map (\<lambda>event. (rvr_SubmitAddress event, rvr_SigningPolicyAddress event))
             (List.map_filter (ParseVoterRegisteredEvent B convert) logs))))
      else None)"
proof (induction logs rule: rev_induct)
  case Nil
  show ?case by (simp add: BuildSubmitToSigningPolicyAddressNew_def BuildSubmitToSigningPolicyAddress_def map_filter_simps)
next
  case (snoc log logs)
  have "List.map_filter (ParseVoterRegisteredEvent B convert) (logs @ [log]) =
      List.map_filter (ParseVoterRegisteredEvent B convert) logs @
      (case ParseVoterRegisteredEvent B convert log of None \<Rightarrow> [] | Some y \<Rightarrow> [y])"
    by (simp add: List.map_filter_def split: option.split)
  with snoc show ?case
    by (cases "ParseVoterRegisteredEvent B convert log")
      (simp_all add: BuildSubmitToSigningPolicyAddressNew_def BuildSubmit_snoc fun_upd_def cong: if_cong split: option.split)
qed

end
