(* ===== verification/BB_Double.thy ===== *)
theory BB_Double
  imports BB_Votes
begin

text \<open>
  The body shared by \<^verbatim>\<open>BranchAndBoundBitsDouble\<close> and \<^verbatim>\<open>BranchAndBoundVotesDouble\<close> as the three
  processes it is: the caller and the two goroutines, which share the slots \<^verbatim>\<open>solutions[0]\<close> and
  \<^verbatim>\<open>solutions[1]\<close>, the flag \<^verbatim>\<open>ignoreSecondSolution\<close> and two channels of capacity one. \<open>double_step\<close>
  interleaves their actions in every order. Shown by rule induction: whatever the interleaving, the
  caller never dereferences a \<^verbatim>\<open>nil\<close> slot and returns the answer that the sequential definitions
  choose; no reachable state is stuck before all three have ended; and every run is finite.
\<close>

datatype first_pc = F_solve | F_flag | F_sendFirst | F_sendSecond | F_end
datatype second_pc = S_solve | S_send | S_end
datatype main_pc = M_recvFirst | M_recvSecond | M_choose | M_end

record double_state =
  db_first :: first_pc
  db_second :: second_pc
  db_main :: main_pc
  db_solution0 :: "ConsensusSolution option"
  db_solution1 :: "ConsensusSolution option"
  db_ignoreSecond :: bool
  db_firstDone :: nat
  db_secondDone :: nat
  db_result :: "(unit + ConsensusSolution) option"

definition double_init :: double_state where
  "double_init =
     \<lparr>db_first = F_solve, db_second = S_solve, db_main = M_recvFirst, db_solution0 = None, db_solution1 = None,
      db_ignoreSecond = False, db_firstDone = 0, db_secondDone = 0, db_result = None\<rparr>"

text \<open>The end of the caller's body; \<open>Inl ()\<close> is the panic on a \<^verbatim>\<open>nil\<close> slot.\<close>

definition double_choose :: "double_state \<Rightarrow> unit + ConsensusSolution" where
  "double_choose d =
     (if db_ignoreSecond d then (case db_solution0 d of None \<Rightarrow> Inl () | Some s \<Rightarrow> Inr s)
      else (case (db_solution0 d, db_solution1 d) of
              (Some s0, Some s1) \<Rightarrow> Inr (if Value_Cmp (cs_Value s0) (cs_Value s1) = -1 then s1 else s0)
            | _ \<Rightarrow> Inl ()))"

inductive double_step :: "ConsensusSolution \<Rightarrow> ConsensusSolution \<Rightarrow> double_state \<Rightarrow> double_state \<Rightarrow> bool"
  for s0 s1 where
  first_solve: "db_first d = F_solve \<Longrightarrow>
    double_step s0 s1 d (d\<lparr>db_solution0 := Some s0,
      db_first := (if cs_Optimal s0 then F_flag else F_sendFirst)\<rparr>)"
| first_flag: "db_first d = F_flag \<Longrightarrow>
    double_step s0 s1 d (d\<lparr>db_ignoreSecond := True, db_first := F_sendFirst\<rparr>)"
| first_sendFirst: "db_first d = F_sendFirst \<Longrightarrow> db_firstDone d < 1 \<Longrightarrow>
    double_step s0 s1 d (d\<lparr>db_firstDone := db_firstDone d + 1,
      db_first := (if cs_Optimal s0 then F_sendSecond else F_end)\<rparr>)"
| first_sendSecond: "db_first d = F_sendSecond \<Longrightarrow> db_secondDone d < 1 \<Longrightarrow>
    double_step s0 s1 d (d\<lparr>db_secondDone := db_secondDone d + 1, db_first := F_end\<rparr>)"
| second_solve: "db_second d = S_solve \<Longrightarrow>
    double_step s0 s1 d (d\<lparr>db_solution1 := Some s1, db_second := S_send\<rparr>)"
| second_send: "db_second d = S_send \<Longrightarrow> db_secondDone d < 1 \<Longrightarrow>
    double_step s0 s1 d (d\<lparr>db_secondDone := db_secondDone d + 1, db_second := S_end\<rparr>)"
| main_recvFirst: "db_main d = M_recvFirst \<Longrightarrow> 0 < db_firstDone d \<Longrightarrow>
    double_step s0 s1 d (d\<lparr>db_firstDone := db_firstDone d - 1, db_main := M_recvSecond\<rparr>)"
| main_recvSecond: "db_main d = M_recvSecond \<Longrightarrow> 0 < db_secondDone d \<Longrightarrow>
    double_step s0 s1 d (d\<lparr>db_secondDone := db_secondDone d - 1, db_main := M_choose\<rparr>)"
| main_choose: "db_main d = M_choose \<Longrightarrow>
    double_step s0 s1 d (d\<lparr>db_result := Some (double_choose d), db_main := M_end\<rparr>)"

inductive_cases double_stepE: "double_step s0 s1 d d'"

abbreviation double_run :: "ConsensusSolution \<Rightarrow> ConsensusSolution \<Rightarrow> double_state \<Rightarrow> bool" where
  "double_run s0 s1 \<equiv> (double_step s0 s1)\<^sup>*\<^sup>* double_init"

section \<open>The invariant of the protocol\<close>

text \<open>
  What each program counter says of the slots and of the flag, and the balance of each channel: what
  was sent is in the buffer or was received.
\<close>

definition first_sent :: "double_state \<Rightarrow> nat" where
  "first_sent d = (if db_first d \<in> {F_sendSecond, F_end} then 1 else 0)"

definition second_sent :: "ConsensusSolution \<Rightarrow> double_state \<Rightarrow> nat" where
  "second_sent s0 d = (if db_first d = F_end \<and> cs_Optimal s0 then 1 else 0) + (if db_second d = S_end then 1 else 0)"

definition double_inv :: "ConsensusSolution \<Rightarrow> ConsensusSolution \<Rightarrow> double_state \<Rightarrow> bool" where
  "double_inv s0 s1 d \<longleftrightarrow>
     db_solution0 d = (if db_first d = F_solve then None else Some s0) \<and>
     db_solution1 d = (if db_second d = S_solve then None else Some s1) \<and>
     (db_first d \<in> {F_flag, F_sendSecond} \<longrightarrow> cs_Optimal s0) \<and>
     db_ignoreSecond d = (cs_Optimal s0 \<and> db_first d \<notin> {F_solve, F_flag}) \<and>
     db_firstDone d + (if db_main d = M_recvFirst then 0 else 1) = first_sent d \<and>
     db_secondDone d + (if db_main d \<in> {M_choose, M_end} then 1 else 0) = second_sent s0 d \<and>
     db_secondDone d \<le> 1 \<and>
     db_result d = (if db_main d = M_end then Some (Inr (better_answer s0 s1)) else None)"

lemma double_inv_init: "double_inv s0 s1 double_init"
  by (simp add: double_inv_def double_init_def first_sent_def second_sent_def)

lemma double_choose_inv:
  assumes "double_inv s0 s1 d" "db_main d = M_choose"
  shows "double_choose d = Inr (better_answer s0 s1)"
  using assms
  by (auto simp: double_inv_def double_choose_def better_answer_def first_sent_def second_sent_def
      split: if_splits)

lemma double_inv_step:
  assumes "double_step s0 s1 d d'" "double_inv s0 s1 d"
  shows "double_inv s0 s1 d'"
  using assms
proof (cases rule: double_step.cases)
  case main_choose
  with assms(2) double_choose_inv [OF assms(2)] show ?thesis
    by (simp add: double_inv_def first_sent_def second_sent_def split: if_splits)
qed (auto simp: double_inv_def first_sent_def second_sent_def split: if_splits)

lemma double_run_inv: "double_run s0 s1 d \<Longrightarrow> double_inv s0 s1 d"
  by (induction rule: rtranclp_induct) (auto intro: double_inv_init double_inv_step)

section \<open>Progress and termination\<close>

definition double_ended :: "double_state \<Rightarrow> bool" where
  "double_ended d \<longleftrightarrow> db_main d = M_end \<and> db_first d = F_end \<and> db_second d = S_end"

lemma double_progress:
  assumes "double_inv s0 s1 d" "\<not> double_ended d"
  shows "\<exists>d'. double_step s0 s1 d d'"
proof (rule ccontr)
  assume stuck: "\<nexists>d'. double_step s0 s1 d d'"
  have nF: "db_first d \<notin> {F_solve, F_flag}" and nS: "db_second d \<noteq> S_solve" and nM: "db_main d \<noteq> M_choose"
    using stuck by (auto intro: double_step.intros)
  have ch: "db_first d = F_sendFirst \<Longrightarrow> 1 \<le> db_firstDone d" "db_first d = F_sendSecond \<Longrightarrow> 1 \<le> db_secondDone d"
    "db_second d = S_send \<Longrightarrow> 1 \<le> db_secondDone d" "db_main d = M_recvFirst \<Longrightarrow> db_firstDone d = 0"
    "db_main d = M_recvSecond \<Longrightarrow> db_secondDone d = 0"
    using stuck by (fastforce intro: double_step.intros)+
  show False
    using assms nF nS nM ch unfolding double_inv_def double_ended_def first_sent_def second_sent_def
    by (cases "db_first d"; cases "db_second d"; cases "db_main d") (auto split: if_splits)
qed

definition double_left :: "double_state \<Rightarrow> nat" where
  "double_left d =
     (case db_first d of F_solve \<Rightarrow> 4 | F_flag \<Rightarrow> 3 | F_sendFirst \<Rightarrow> 2 | F_sendSecond \<Rightarrow> 1 | F_end \<Rightarrow> 0) +
     (case db_second d of S_solve \<Rightarrow> 2 | S_send \<Rightarrow> 1 | S_end \<Rightarrow> 0) +
     (case db_main d of M_recvFirst \<Rightarrow> 3 | M_recvSecond \<Rightarrow> 2 | M_choose \<Rightarrow> 1 | M_end \<Rightarrow> 0)"

lemma double_step_left: "double_step s0 s1 d d' \<Longrightarrow> double_left d' < double_left d"
  by (erule double_stepE) (auto simp: double_left_def)

lemma double_finishes:
  "double_inv s0 s1 d \<Longrightarrow> \<exists>d'. (double_step s0 s1)\<^sup>*\<^sup>* d d' \<and> double_ended d'"
proof (induction "double_left d" arbitrary: d rule: less_induct)
  case less
  show ?case
  proof (cases "double_ended d")
    case False
    then obtain d1 where s: "double_step s0 s1 d d1" using double_progress [OF less.prems] by blast
    then obtain d' where "(double_step s0 s1)\<^sup>*\<^sup>* d1 d'" "double_ended d'"
      using less.hyps [OF double_step_left [OF s] double_inv_step [OF s less.prems]] by blast
    with s show ?thesis by (meson converse_rtranclp_into_rtranclp)
  qed auto
qed

section \<open>Properties\<close>

text \<open>
  C21. The two searches run in parallel refine the sequential choice: in every interleaving of the caller and
  the two goroutines, a result is the better of the two answers, or the first one when it is optimal, and
  never the panic on a slot that is not filled.
\<close>

theorem double_refines:
  assumes "double_run s0 s1 d" "db_result d = Some res"
  shows "res = Inr (if cs_Optimal s0 then s0 else if Value_Cmp (cs_Value s0) (cs_Value s1) = -1 then s1 else s0)"
  using double_run_inv [OF assms(1)] assms(2) by (auto simp: double_inv_def better_answer_def split: if_splits)

abbreviation (input) sample_answer :: "int \<Rightarrow> bool \<Rightarrow> ConsensusSolution" where
  "sample_answer v opt \<equiv> \<lparr>cs_Votes = [], cs_Bits = [], cs_Value = Value v v, cs_Optimal = opt\<rparr>"

theorem double_refines_witness:
  "\<exists>d. double_run (sample_answer 3 False) (sample_answer 5 False) d \<and> db_result d = Some (Inr (sample_answer 5 False))"
proof -
  obtain d where d: "double_run (sample_answer 3 False) (sample_answer 5 False) d" "double_ended d"
    using double_finishes [OF double_inv_init] by blast
  then have "db_result d = Some (Inr (better_answer (sample_answer 3 False) (sample_answer 5 False)))"
    using double_run_inv by (fastforce simp: double_inv_def double_ended_def)
  from double_refines [OF d(1) this] this d(1) show ?thesis by (auto simp: less_Value_def)
qed

text \<open>
  C22. Neither goroutine nor the caller is ever blocked for good: from every state that an interleaving can
  reach, the run can be continued to a state in which all three have ended and the result is there, and no
  run can go on for ever, since every step decreases a measure.
\<close>

theorem double_terminates:
  assumes "double_run s0 s1 d"
  shows "(\<exists>d'. (double_step s0 s1)\<^sup>*\<^sup>* d d' \<and> double_ended d' \<and> db_result d' \<noteq> None) \<and>
    (double_ended d \<or> (\<exists>d'. double_step s0 s1 d d')) \<and> (\<forall>d'. double_step s0 s1 d d' \<longrightarrow> double_left d' < double_left d)"
proof -
  note inv = double_run_inv [OF assms]
  obtain d' where d': "(double_step s0 s1)\<^sup>*\<^sup>* d d'" "double_ended d'" using double_finishes [OF inv] by blast
  then have "double_run s0 s1 d'" using assms by simp
  from double_run_inv [OF this] d'(2) have "db_result d' \<noteq> None" by (simp add: double_inv_def double_ended_def)
  with d' double_progress [OF inv] double_step_left show ?thesis by blast
qed

theorem double_terminates_witness:
  "\<exists>d'. double_run (sample_answer 3 True) (sample_answer 5 False) d' \<and> double_ended d'"
  using double_terminates [of "sample_answer 3 True" "sample_answer 5 False" double_init] by blast

end
