(* ===== verification/Spec2Isabelle.thy ===== *)
theory Spec2Isabelle
  imports Providers Routes Map_Order Shutdown Locks Registry BB_Double Ensemble Utils Config
begin

text \<open>
  Verification library of the Flare Data Connector client (\<^verbatim>\<open>fdc-client\<close>, Go).

  \<^bold>\<open>The program.\<close> In every voting round users emit attestation requests as logs of a contract. The collector
  (\<^verbatim>\<open>client/collector\<close>) reads them, the signing policies and the bit votes of the other providers from an
  indexer database and sends them to the manager (\<^verbatim>\<open>client/manager\<close>), which keeps a cyclic storage of rounds
  (\<^verbatim>\<open>client/round\<close>). A round collects attestations (\<^verbatim>\<open>client/attestation\<close>); queue workers resolve each one
  with a verifier server and check the response. In the choose phase the provider serves its bit vote (which
  attestations it has confirmed) over REST (\<^verbatim>\<open>server\<close>); afterwards the manager computes from all bit votes the
  consensus bit vote (\<^verbatim>\<open>client/attestation/bitVotes\<close>), the chosen attestations that are not confirmed are
  tried again, and the server answers with the root of the Merkle tree over the chosen ones.

  \<^bold>\<open>The theories.\<close> One per component, each importing what it calls:
  \<^item> \<open>FDC_Prelude\<close>, \<open>Go_Std\<close>, \<open>Go_Sort\<close>: types of machine integers, shared lemmas and the collections
    \<open>frame\<close>, \<open>wf_keep\<close> and \<open>nowrap\<close>; the parts of the Go standard library that are used (big integers, big
    endian bytes, hex, strings) and sorting by a strict order (locale \<open>less_order\<close>, interpreted on every
    comparison of the code).
  \<^item> \<open>BitVote\<close>: \<^verbatim>\<open>bitVotes/bitvote.go\<close>, a bit vote and its encoding.
  \<^item> \<open>BB_Value\<close>: values of solutions, \<^verbatim>\<open>CalcValue\<close> with its float64 arithmetic, and the orders of the sorts.
  \<^item> \<open>BB_Search\<close>: the search that both branch and bound routines share as locales (\<open>branch_search\<close>, \<open>solver\<close>,
    \<open>complete_solver\<close>); \<open>BB_Bits\<close> and \<open>BB_Votes\<close>: \<^verbatim>\<open>branchAndBoundBits.go\<close> and \<^verbatim>\<open>branchAndBoundVotes.go\<close> with
    the interpretations; \<open>BB_Double\<close>: the goroutines and channels of the \<^verbatim>\<open>Double\<close> functions.
  \<^item> \<open>Preprocess\<close>: \<^verbatim>\<open>preprocess.go\<close>, filtering, aggregation (locale \<open>aggregator\<close>) and assembly; \<open>Ensemble\<close>:
    \<^verbatim>\<open>ensemble.go\<close>, the consensus bit vote. These iterate over Go maps in the order of their keys; \<open>Map_Order\<close> has
    the same functions with every \<^verbatim>\<open>range\<close> over a map in an arbitrary order, which is an argument.
  \<^item> \<open>Utils\<close>, \<open>Timing\<close>, \<open>Config\<close>: \<^verbatim>\<open>utils.go\<close>, \<^verbatim>\<open>timing\<close>, and parsing of the attestation types in \<^verbatim>\<open>config\<close> (locale
    \<open>entry_parser\<close> for its two loops).
  \<^item> \<open>Verification\<close>, \<open>Attestation\<close>: \<^verbatim>\<open>verification.go\<close> (byte layout), \<^verbatim>\<open>attestation.go\<close> and \<^verbatim>\<open>verifiers.go\<close>.
  \<^item> \<open>Round\<close>, \<open>Manager\<close>, \<open>Server\<close>, \<open>Collector\<close>: \<^verbatim>\<open>round.go\<close>, \<^verbatim>\<open>manager.go\<close> with \<^verbatim>\<open>queues.go\<close>, the controllers and
    services of \<^verbatim>\<open>server\<close>, and the listeners of \<^verbatim>\<open>collector\<close>.
  \<^item> \<open>Client\<close>: the interleavings of all of them as the step relation \<open>client_step\<close>; \<open>Pipes\<close>: the same with the
    buffered channels of \<^verbatim>\<open>shared.go\<close> between the collector and the manager, as the step relation \<open>pipes_step\<close>;
    \<open>Listeners\<close>: \<^verbatim>\<open>collector.go\<close>, which connects the listeners to these channels;
    \<open>Ledger\<close>: the requests of all rounds over a whole run, as an abstract specification; \<open>Agreement\<close>: rounds of two providers with the same
    requests; \<open>Providers\<close>: two clients in whole runs.
  \<^item> \<open>Locks\<close>: the mutexes; every operation on rounds and attestations as its calls of mutexes and its accesses to
    shared memory, and threads that run them (locale \<open>lock_order\<close>, interpreted on the order of the client's locks).
  \<^item> \<open>Routes\<close>: \<^verbatim>\<open>server.go\<close>, the registered routes and what a request makes the controllers do.
  \<^item> \<open>Startup\<close>: \<^verbatim>\<open>config/read.go\<close> and the sequence of \<^verbatim>\<open>main.go\<close> up to the start of the goroutines;
    \<open>Shutdown\<close>: the rest of \<^verbatim>\<open>main.go\<close>, until the program ends.
  \<^item> \<open>Registry\<close>: \<^verbatim>\<open>registry.go\<close> with what it uses of the generated binding, and the map from submit addresses.

  Definitions carry the names of the Go functions. A record has the fields of its struct; a pointer to an
  attestation is an address of \<open>heap\<close>, and the status that the attestations of a round share with it is a cell
  of that heap, because the code relies on this aliasing. An \<^verbatim>\<open>error\<close> is the left case of a sum; \<open>None\<close> of an
  operation of a round is a call that never gets the write lock. The state is passed explicitly.

  \<^bold>\<open>What is shown.\<close>
  \<^item> Consensus: what is returned is supported by more than half of the weight in every case (also when a search
    is cut off); what is marked optimal is optimal; with enough operations it always is; the two methods agree;
    filtering and aggregation lose nothing; the parallel searches refine the sequential choice, cannot
    deadlock and terminate; the floating-point cap is exact for all 16-bit weights. The consensus does not depend
    on the order in which Go iterates over maps; a counterexample shows that it does depend on the order in which
    the votes have been processed, so all providers must read them in the same order.
  \<^item> Rounds: requests and votes may arrive in any order with the same result, each sender's latest valid vote
    counts once, weights do not wrap around, the order of attestations is canonical, the flags and the Merkle
    tree are those of the consensus. A bit vote served by one provider counts at every other one.
  \<^item> Attestations: exactly which responses are confirmed; the response bytes outside the round slot are kept.
  \<^item> Manager, server, collector: a log reaches the round of its block; every chosen unconfirmed attestation is
    retried; a root is signed only for confirmed data; every request log is handed over exactly once; choose
    phases are triggered in order and in time; collector and manager agree on the choose phase.
  \<^item> The client: every reachable state is consistent. Two theorems state faults: a Merkle tree served from the
    cache leaves its round locked for writers for ever, and a query for attestations before the consensus makes
    the workers discard the attestations of the round.
  \<^item> The channels deliver every batch once and in order, within their capacities and not before the initial
    signing policies; every run over them is a run of \<open>client_step\<close>; and while no read lock has been left on a
    round, all that is on its way can be handled. From the database to the manager, every log arrives once and in
    order, and the bit votes come in the order of their rounds; and in every run the fees and positions that the
    rounds hold are exactly those of the logs received, whatever else the processes do (refinement of the ledger).
  \<^item> Agreement: two clients that have run on their own, with different schedules, queries and answers of their
    verifiers (which may differ from call to call), but have received the same logs for a round and then process
    the same list of bit votes, compute the same consensus and choose the same requests in the same order; rounds
    with the same chosen requests and the same responses have the same Merkle tree.
  \<^item> Mutexes: the operations take their locks in one order, so goroutines never deadlock (but for the read lock that
    a cached tree leaves, see above), and no two of them race on the outcome of an attestation or the status of a
    round. Examples show that they do race on the positions of an attestation, and that rounds of the same
    attestations in different orders could deadlock.
  \<^item> The end: after a signal the client lives for two more minutes, and after a rejected signing policy until
    the choose phases of all rounds before that policy are over; the server is closed last.
  \<^item> The routes: every served request carries a configured key and is a step of the client; malformed requests are
    exactly those whose round or address does not parse, and change nothing. A client that has started is well
    formed, and every run of it keeps the manager consistent.

  \<^bold>\<open>Bounds and fuel.\<close> Both searches count operations as the code does and stop at the limit (20000000 in
  \<^verbatim>\<open>round.go\<close>); their recursion is structural in the remaining positions, so no fuel is added.
  \<open>ensemble_budget\<close> is a limit, about twice two to the number of branching positions, for which no search is
  cut off. The theorems on the consensus assume that the weights of the bit votes sum to less than 65536, which
  \<open>vote_weight_bounded\<close> derives for rounds from the voter set; those on timing that the 2^32 rounds fit into 64
  bits (\<open>chain_ok\<close>); those on the ledger that the storages have room for the rounds in use (\<open>window_ok\<close>).

  \<^bold>\<open>Parameters.\<close> Code that is not in the repository is an argument: Keccak, ABI packing, the HTTP client, the
  database queries and event parsers, the cyclic and policy storages and priority queues (\<open>lib\<close>, of which
  only \<open>cyclic_ok\<close> is assumed), the Merkle tree, the message builders of \<^verbatim>\<open>payload\<close>, the router, and the
  order of the iterations over maps.

  \<^bold>\<open>Not modelled.\<close> The generated contract bindings that the program never calls (\<^verbatim>\<open>registry/autogen.go\<close> but
  for the event that \<open>Registry\<close> parses), decoding of TOML (a parameter), matching of
  routes and checking of API keys in the libraries (a parameter with the law \<open>router_ok\<close>), flags of the
  command line and logging; the mutexes inside the queues and storages of libraries; rate limits and the order in which queues are served (any attestation may be dequeued at any time). The
  collector's database is the list of its answers in a run. A panic in a goroutine ends the program and is an error
  value of the operation that raises it.
\<close>

section \<open>Properties across components\<close>

text \<open>
  C37. From configuration to request: a request whose first two fields are the names of a configured
  attestation type and of one of its sources is prepared for the queue with exactly the URL, the key, the
  queue and the limit of that source, when no two names collide in the 32-byte field.
\<close>

theorem configured_request_prepared:
  assumes cfgs: "ParseAttestationTypes ReadFile UnmarshalJSON cfgs = Inr types" "(tname, c) \<in> set cfgs" "(sname, s) \<in> set (atu_Sources c)"
    and distinct: "distinct (map (\<lambda>(name, c). padded name) cfgs)" "distinct (map (\<lambda>(name, s). padded name) (atu_Sources c))"
    and request: "at_Request a = padded tname @ padded sname @ rest" "32 \<le> length rest"
  shows "\<exists>a'. PrepareRequest types a = (a', None) \<and> at_Status a' = Processing \<and> sb_LUTLimit s = Some (uint (at_LUTLimit a')) \<and>
    at_Credentials a' = Some \<lparr>vc_URL = sb_URL s, vc_apiKey = sb_APIKey s\<rparr> \<and> at_QueueName a' = sb_QueueName s"
proof -
  have "(\<exists>m. ParseAttestationTypes ReadFile UnmarshalJSON cfgs = Inr m)" using cfgs(1) by blast
  then have tl: "length tname \<le> 32"
    using cfgs(2) unfolding ParseAttestationTypes_def typeEntries.loop_ok_iff by fastforce
  obtain d where d: "ParseAttestationType ReadFile UnmarshalJSON c = Inr d" "types (padded tname) = Some d"
    using typeEntries.loop_entry [OF cfgs(1) [unfolded ParseAttestationTypes_def] cfgs(2) distinct(1)] by blast
  then have src: "parseSources (atu_Sources c) = Inr (aty_SourcesConfig d)"
    by (auto simp: ParseAttestationType_def split: sum.splits)
  have "(\<exists>m. parseSources (atu_Sources c) = Inr m)" using src by blast
  then have sl: "length sname \<le> 32"
    using cfgs(3) unfolding parseSources_def sourceEntries.loop_ok_iff by fastforce
  obtain e where e: "parseSource s = Inr e" "aty_SourcesConfig d (padded sname) = Some e"
    using sourceEntries.loop_entry [OF src [unfolded parseSources_def] cfgs(3) distinct(2)] by blast
  have "Request_AttestationType (at_Request a) = Inr (padded tname)" "Request_Source (at_Request a) = Inr (padded sname)"
    using tl sl request by (simp_all add: Request_AttestationType_def Request_Source_def)
  then have "PrepareRequest types a = (a\<lparr>at_ResponseABI := Some (aty_ResponseArguments d),
      at_ResponseABIString := Some (aty_ResponseABIString d), at_LUTLimit := src_LUTLimit e,
      at_Credentials := Some \<lparr>vc_URL = src_URL e, vc_apiKey = src_APIKey e\<rparr>, at_QueueName := src_QueueName e, at_Status := Processing\<rparr>, None)"
    using d(2) e(2) by (simp add: PrepareRequest_def Let_def)
  moreover have "src_URL e = sb_URL s" "src_APIKey e = sb_APIKey s" "src_QueueName e = sb_QueueName s"
    using e(1) by (auto simp: parseSource_def split: if_splits option.splits)
  moreover have "sb_LUTLimit s = Some (uint (src_LUTLimit e))" by (rule parseSource_limit [OF e(1)])
  ultimately show ?thesis by simp
qed

theorem configured_request_prepared_witness:
  "\<exists>types a'. ParseAttestationTypes (\<lambda>path. Some [91, 93]) (\<lambda>file. Some (0 :: nat))
       [([80], \<lparr>atu_ABIPath = ''p'', atu_Sources = [([66], \<lparr>sb_URL = ''u'', sb_APIKey = ''k'', sb_LUTLimit = Some 9, sb_QueueName = ''q''\<rparr>)]\<rparr>)] = Inr types \<and>
     PrepareRequest types (sample_attestation\<lparr>at_Request := padded [80] @ padded [66] @ replicate 32 1\<rparr>) = (a', None) \<and> at_QueueName a' = ''q''"
proof -
  let ?s = "\<lparr>sb_URL = ''u'', sb_APIKey = ''k'', sb_LUTLimit = Some 9, sb_QueueName = ''q''\<rparr>"
  let ?c = "\<lparr>atu_ABIPath = ''p'', atu_Sources = [([66], ?s)]\<rparr>"
  have "\<exists>types. ParseAttestationTypes (\<lambda>path. Some [91, 93]) (\<lambda>file. Some (0 :: nat)) [([80], ?c)] = Inr types"
    by (simp add: ParseAttestationTypes_def typeEntries.loop_ok_iff ParseAttestationType_def ReadABI_def ArgumentsFromABI_def
        parseSources_def parseSource_def StringToByte32_def big_IsUint64_def)
  then obtain types where types: "ParseAttestationTypes (\<lambda>path. Some [91, 93]) (\<lambda>file. Some (0 :: nat)) [([80], ?c)] = Inr types" by blast
  from configured_request_prepared [OF types, of "[80]" ?c "[66]" ?s "sample_attestation\<lparr>at_Request := padded [80] @ padded [66] @ replicate 32 1\<rparr>" "replicate 32 1"] types
  show ?thesis by auto
qed



text \<open>
  C8. A served bit vote counts: the payload that one provider serves for a round is accepted by every other
  provider whose round has as many attestations, when the sender's address belongs to a voter with a weight;
  the stored vote then says of the \<open>i\<close>-th attestation in canonical order whether the first provider has
  confirmed it, and it carries the voter's weight.
\<close>

theorem served_bit_vote_counts:
  assumes served: "BitVoteBytes h r = Some (r', Inr payload)"
    and same: "length (r_Attestations other) = length (r_Attestations r)"
    and voter: "voter_of (r_voterSet other) (msg_From message) = Some vd" "vd_Weight vd \<noteq> 0"
    and message: "msg_Payload message = payload"
    and ok: "bitvotes_ok other" "r_bitVoteCheckList other (msg_From message) = None"
  shows "snd (ProcessBitVote other message) = None \<and>
    (\<exists>v. stored (fst (ProcessBitVote other message)) (msg_From message) = Some v \<and> wbv_Weight v = vd_Weight vd \<and> wbv_IndexTx v = msg_tx message \<and>
      (\<forall>i. bit (bv_BitVector (wbv_BitVote v)) i \<longleftrightarrow> i < length (r_Attestations r') \<and> at_Status (h_atts h (r_Attestations r' ! i)) = Success))"
proof -
  obtain b where r': "r' = sortAttestations h r" and b: "BitVoteFromAttestations (map (h_atts h) (r_Attestations r')) = Inr b"
    and payload: "payload = EncodeBitVote b"
    using served by (auto simp: BitVoteBytes_def Round_BitVote_def Let_def split: option.splits sum.splits)
  note bits = BitVoteFromAttestations_bits [OF b]
  have len: "unat (bv_Length b) = length (r_Attestations other)" using bits(1) same by (simp add: r')
  have decode: "DecodeBitVoteBytes (msg_Payload message) = Inr b" unfolding message payload by (rule Decode_Encode [OF bits(2)])
  let ?v = "\<lparr>wbv_Index = vd_Index vd, wbv_IndexTx = msg_tx message, wbv_Weight = vd_Weight vd, wbv_BitVote = b\<rparr>"
  have "vote_of other message = Inr ?v"
    using decode len bits(2) voter
    by (auto simp: vote_of_def voter_of_def wf_BitVote_def split: option.splits)
  then have "ProcessBitVote other message = (store_vote other (msg_From message) ?v, None)" by (simp add: ProcessBitVote_vote_of)
  moreover have "stored (store_vote other (msg_From message) ?v) (msg_From message) = Some ?v"
    unfolding store_vote_stored [OF ok(1)] using ok(2) by (simp add: stored_def later_vote_def)
  moreover have "bit (bv_BitVector b) i \<longleftrightarrow> i < length (r_Attestations r') \<and> at_Status (h_atts h (r_Attestations r' ! i)) = Success" for i
    by (simp add: bits(3) cong: conj_cong)
  ultimately show ?thesis by simp
qed

theorem served_bit_vote_counts_witness:
  "\<exists>r' payload. BitVoteBytes sample_heap sample_round = Some (r', Inr payload) \<and>
     snd (ProcessBitVote sample_round (sample_message 7 payload)) = None"
proof -
  have "BitVoteFromAttestations ([] :: nat Attestation list) = Inr \<lparr>bv_Length = 0, bv_BitVector = 0\<rparr>"
    by (simp add: BitVoteFromAttestations_def)
  moreover have "r_Attestations (sortAttestations sample_heap sample_round) = []"
    by (rule length_0_conv [THEN iffD1]) simp
  ultimately obtain r' payload where served: "BitVoteBytes sample_heap sample_round = Some (r', Inr payload)"
    by (simp add: BitVoteBytes_def Round_BitVote_def Let_def with_Lock_def)
  have "voter_of (r_voterSet sample_round) (msg_From (sample_message 7 payload)) = Some \<lparr>vd_Index = 0, vd_Weight = 60\<rparr>"
    by (simp add: voter_of_def sample_voters_def)
  from served_bit_vote_counts [OF served refl this] served show ?thesis by auto
qed

end
